(* ===== verification/Prelude.thy ===== *)
theory Prelude
  imports Main "HOL-Library.Word" "HOL-Library.Multiset"
begin

text \<open>
  Shared vocabulary of the development: the C integer types the kernel uses, byte buffers and
  their little-endian reading and writing, the bounded scans (\<open>for (i = 0; i < N; i++)\<close>) that
  almost every table of the kernel is searched with, and the result type of fallible code.

  Conventions. A byte is an \<open>8 word\<close>. A 32- or 64-bit unsigned quantity is a \<open>nat\<close> with the
  wrap-around written out (\<open>u32\<close>, \<open>u64\<close>) wherever the C expression can leave its range; where
  the bits of the quantity matter (page-table entries, flags) it is a \<open>word\<close>. A return code is
  an \<open>int\<close>, as in the source: 0 or a count on success, a negated \<open>error.h\<close> number on failure.
\<close>

named_theorems buf_simps \<open>normal forms of byte-buffer segments and patches\<close>
named_theorems scan_simps \<open>bounded table scans\<close>

subsection \<open>C integers\<close>

type_synonym byte = "8 word"

definition u16 :: "nat \<Rightarrow> nat" where
  "u16 n = n mod 65536"

definition u32 :: "nat \<Rightarrow> nat" where
  "u32 n = n mod 4294967296"

definition u64 :: "nat \<Rightarrow> nat" where
  "u64 n = n mod 18446744073709551616"

text \<open>The conversion of a \<open>long\<close> to an \<open>int\<close> keeps the low 32 bits, read as two's complement.\<close>

definition cint :: "int \<Rightarrow> int" where
  "cint n = (n + 2147483648) mod 4294967296 - 2147483648"

lemma u16_less [simp]: "u16 n < 65536"
  by (simp add: u16_def)

lemma u32_less [simp]: "u32 n < 4294967296"
  by (simp add: u32_def)

lemma u64_less [simp]: "u64 n < 18446744073709551616"
  by (simp add: u64_def)

lemma u16_id [simp]: "n < 65536 \<Longrightarrow> u16 n = n"
  by (simp add: u16_def)

lemma u32_id [simp]: "n < 4294967296 \<Longrightarrow> u32 n = n"
  by (simp add: u32_def)

lemma u64_id [simp]: "n < 18446744073709551616 \<Longrightarrow> u64 n = n"
  by (simp add: u64_def)

lemma cint_id [simp]: "- 2147483648 \<le> n \<Longrightarrow> n < 2147483648 \<Longrightarrow> cint n = n"
  by (simp add: cint_def)

subsection \<open>Error numbers (error.h)\<close>

definition EINVAL :: int where "EINVAL = 1"
definition EBUSY :: int where "EBUSY = 2"
definition ENOTSUP :: int where "ENOTSUP = 3"
definition ENODEV :: int where "ENODEV = 4"
definition EIO :: int where "EIO = 5"
definition EBADFMT :: int where "EBADFMT = 6"
definition ENOENT :: int where "ENOENT = 7"
definition EACCESS :: int where "EACCESS = 8"
definition EBADFD :: int where "EBADFD = 9"
definition EMFILE :: int where "EMFILE = 10"
definition EMPROC :: int where "EMPROC = 11"
definition EMTHR :: int where "EMTHR = 12"
definition ECHILD :: int where "ECHILD = 13"
definition ENOMEM :: int where "ENOMEM = 14"
definition EPIPE :: int where "EPIPE = 15"
definition ENODATABLKS :: int where "ENODATABLKS = 16"
definition ENOINODEBLKS :: int where "ENOINODEBLKS = 17"

lemmas errno_defs =
  EINVAL_def EBUSY_def ENOTSUP_def ENODEV_def EIO_def EBADFMT_def ENOENT_def EACCESS_def
  EBADFD_def EMFILE_def EMPROC_def EMTHR_def ECHILD_def ENOMEM_def EPIPE_def
  ENODATABLKS_def ENOINODEBLKS_def

text \<open>The names \<open>error_name\<close> prints; the table of error.c has no entry for \<open>EPIPE\<close>.\<close>

definition error_names :: "(int \<times> string) list" where
  "error_names =
     [(0, ''(success)''), (EINVAL, ''EINVAL''), (EBUSY, ''EBUSY''), (ENOTSUP, ''ENOTSUP''),
      (ENODEV, ''ENODEV''), (EIO, ''EIO''), (EBADFMT, ''EBADFMT''), (ENOENT, ''ENOENT''),
      (EACCESS, ''EACCESS''), (EBADFD, ''EBADFD''), (EMFILE, ''EMFILE''), (EMPROC, ''EMPROC''),
      (EMTHR, ''EMTHR''), (ECHILD, ''ECHILD''), (ENOMEM, ''ENOMEM''),
      (ENODATABLKS, ''ENODATABLKS''), (ENOINODEBLKS, ''ENOINODEBLKS'')]"

definition error_name :: "int \<Rightarrow> string" where
  "error_name code =
     (let code = (if code < 0 then - code else code)
      in case map_of error_names code of Some name \<Rightarrow> name | None \<Rightarrow> ''(unknown)'')"

subsection \<open>Byte buffers\<close>

text \<open>
  \<open>seg off n xs\<close> are the \<open>n\<close> bytes at offset \<open>off\<close>; \<open>patch off ys xs\<close> is the buffer
  \<open>xs\<close> after the bytes \<open>ys\<close> have been copied to offset \<open>off\<close>.
\<close>

definition seg :: "nat \<Rightarrow> nat \<Rightarrow> 'a list \<Rightarrow> 'a list" where
  "seg off n xs = take n (drop off xs)"

definition patch :: "nat \<Rightarrow> 'a list \<Rightarrow> 'a list \<Rightarrow> 'a list" where
  "patch off ys xs = take off xs @ ys @ drop (off + length ys) xs"

lemma length_seg: "length (seg off n xs) = min n (length xs - off)"
  by (simp add: seg_def min.commute)

lemma length_seg_full [simp]: "off + n \<le> length xs \<Longrightarrow> length (seg off n xs) = n"
  by (simp add: seg_def)

lemma nth_seg [simp]: "i < n \<Longrightarrow> off + i < length xs \<Longrightarrow> seg off n xs ! i = xs ! (off + i)"
  by (simp add: seg_def)

lemma seg_zero [simp]: "seg off 0 xs = []"
  by (simp add: seg_def)

lemma seg_all [simp]: "seg 0 (length xs) xs = xs"
  by (simp add: seg_def)

lemma length_patch [simp]:
  "off + length ys \<le> length xs \<Longrightarrow> length (patch off ys xs) = length xs"
  by (simp add: patch_def)

lemma nth_patch [buf_simps]:
  assumes "off + length ys \<le> length xs" and "i < length xs"
  shows "patch off ys xs ! i =
           (if off \<le> i \<and> i < off + length ys then ys ! (i - off) else xs ! i)"
  using assms by (auto simp: patch_def nth_append min_def)

lemma patch_nil [simp]: "patch off [] xs = xs"
  by (simp add: patch_def)

lemma seg_patch_same [simp]:
  assumes "off + length ys \<le> length xs"
  shows "seg off (length ys) (patch off ys xs) = ys"
  using assms by (intro nth_equalityI) (auto simp: nth_patch length_seg)

lemma seg_patch_same' [simp]:
  "off + n \<le> length xs \<Longrightarrow> length ys = n \<Longrightarrow> seg off n (patch off ys xs) = ys"
  using seg_patch_same by blast

lemma seg_patch_other [buf_simps]:
  assumes "off + length ys \<le> length xs" and "off' + n \<le> off \<or> off + length ys \<le> off'"
  shows "seg off' n (patch off ys xs) = seg off' n xs"
  using assms by (intro nth_equalityI) (auto simp: nth_patch length_seg)

lemma seg_append: "seg off m xs @ seg (off + m) n xs = seg off (m + n) xs"
  by (simp add: seg_def take_add add.commute)

lemma seg_seg [buf_simps]:
  "i + n \<le> m \<Longrightarrow> seg i n (seg off m xs) = seg (off + i) n xs"
  by (simp add: seg_def drop_take add.commute min_def)

lemma seg_eqI:
  assumes "length xs = length ys"
    and "\<And>i. off \<le> i \<Longrightarrow> i < off + n \<Longrightarrow> i < length xs \<Longrightarrow> xs ! i = ys ! i"
  shows "seg off n xs = seg off n ys"
  using assms by (intro nth_equalityI) (auto simp: length_seg)

text \<open>Moving inside one block of \<open>n\<close> bytes.\<close>

lemma div_mod_run:
  fixes a i n :: nat
  assumes "a mod n + i < n"
  shows "(a + i) div n = a div n" and "(a + i) mod n = a mod n + i"
proof -
  have e: "a + i = (a mod n + i) + n * (a div n)"
    by simp
  show "(a + i) div n = a div n"
    unfolding e using assms by (subst div_mult_self2) auto
  show "(a + i) mod n = a mod n + i"
    unfolding e mod_mult_self2 using assms by simp
qed

text \<open>Little-endian integers: \<open>le_nat\<close> reads a byte run, \<open>nat_le k\<close> writes a \<open>k\<close>-byte one.\<close>

fun le_nat :: "byte list \<Rightarrow> nat" where
  "le_nat [] = 0"
| "le_nat (b # bs) = unat b + 256 * le_nat bs"

fun nat_le :: "nat \<Rightarrow> nat \<Rightarrow> byte list" where
  "nat_le 0 n = []"
| "nat_le (Suc k) n = word_of_nat (n mod 256) # nat_le k (n div 256)"

lemma length_nat_le [simp]: "length (nat_le k n) = k"
  by (induction k arbitrary: n) auto

lemma unat_byte_bound [simp]: "unat (b :: byte) < 256"
  by (rule order_less_le_trans [OF unsigned_less]) simp

lemma unat_word_of_nat_byte [simp]: "n < 256 \<Longrightarrow> unat (word_of_nat n :: byte) = n"
  by (simp add: unat_of_nat)

lemma le_nat_bound: "le_nat bs < 256 ^ length bs"
proof (induction bs)
  case Nil
  then show ?case by simp
next
  case (Cons b bs)
  have "unat b + 256 * le_nat bs < 256 * Suc (le_nat bs)"
    using unat_byte_bound [of b] by (simp del: unat_byte_bound)
  also have "\<dots> \<le> 256 * 256 ^ length bs"
    using Cons by (intro mult_le_mono2) simp
  finally show ?case by simp
qed

lemma le_nat_nat_le [simp]: "n < 256 ^ k \<Longrightarrow> le_nat (nat_le k n) = n"
proof (induction k arbitrary: n)
  case 0
  then show ?case by simp
next
  case (Suc k)
  then have "n div 256 < 256 ^ k"
    by (simp add: less_mult_imp_div_less mult.commute)
  with Suc.IH show ?case by simp
qed

lemma nat_le_le_nat [simp]: "nat_le (length bs) (le_nat bs) = bs"
  by (induction bs) auto

lemma le_nat_seg_bound:
  "le_nat (seg off k bs) < 256 ^ k"
proof -
  have "le_nat (seg off k bs) < 256 ^ length (seg off k bs)"
    by (rule le_nat_bound)
  also have "\<dots> \<le> 256 ^ k"
    by (intro power_increasing) (auto simp: length_seg)
  finally show ?thesis .
qed

lemma le_nat_replicate_zero [simp]: "le_nat (replicate k 0) = 0"
  by (induction k) auto

subsection \<open>Bounded scans\<close>

text \<open>
  \<open>first_idx P xs\<close> is the loop that returns the first index whose entry satisfies \<open>P\<close>.
\<close>

fun first_idx :: "('a \<Rightarrow> bool) \<Rightarrow> 'a list \<Rightarrow> nat option" where
  "first_idx P [] = None"
| "first_idx P (x # xs) = (if P x then Some 0 else map_option Suc (first_idx P xs))"

lemma first_idx_None [scan_simps]: "first_idx P xs = None \<longleftrightarrow> (\<forall>x \<in> set xs. \<not> P x)"
  by (induction xs) auto

lemma first_idx_Some [scan_simps]:
  "first_idx P xs = Some i \<longleftrightarrow> i < length xs \<and> P (xs ! i) \<and> (\<forall>j < i. \<not> P (xs ! j))"
proof (induction xs arbitrary: i)
  case Nil
  then show ?case by simp
next
  case (Cons x xs)
  show ?case
    by (cases i) (auto simp: Cons less_Suc_eq_0_disj)
qed

lemma first_idx_SomeD:
  assumes "first_idx P xs = Some i"
  shows "i < length xs" and "P (xs ! i)" and "\<And>j. j < i \<Longrightarrow> \<not> P (xs ! j)"
  using assms by (auto simp: first_idx_Some)

lemma first_idx_exists: "x \<in> set xs \<Longrightarrow> P x \<Longrightarrow> \<exists>i. first_idx P xs = Some i"
  by (metis first_idx_None option.exhaust)

end
