(* ===== verification/Io.thy ===== *)
theory Io
  imports Prelude "HOL-Library.Monad_Syntax"
begin

text \<open>
  The unified I/O object of kernel/io.c and kernel/ioimpl.h. An endpoint is a reference count, a
  table of optional operations (\<open>struct iointf\<close>) and the private state of its driver (type
  \<open>'d\<close>): the C code finds the driver's structure from the embedded \<open>struct io\<close>, the model keeps
  it in the object. The theory models the generic layer (reference counting, dispatch with its
  \<open>ENOTSUP\<close> and \<open>EINVAL\<close> checks, the loops of \<open>iofill\<close> and \<open>iowrite\<close>), the memory endpoint
  and the seekable endpoint. A driver operation may stop the kernel (an \<open>assert\<close> that fails, an
  access through a null pointer): that is the value \<open>None\<close>, and it stops the caller too.
\<close>

unbundle bit_operations_syntax

subsection \<open>Objects and operation tables\<close>

definition IOCTL_GETBLKSZ :: int where "IOCTL_GETBLKSZ = 0"
definition IOCTL_GETEND :: int where "IOCTL_GETEND = 2"
definition IOCTL_SETEND :: int where "IOCTL_SETEND = 3"
definition IOCTL_GETPOS :: int where "IOCTL_GETPOS = 4"
definition IOCTL_SETPOS :: int where "IOCTL_SETPOS = 5"

lemmas ioctl_defs =
  IOCTL_GETBLKSZ_def IOCTL_GETEND_def IOCTL_SETEND_def IOCTL_GETPOS_def IOCTL_SETPOS_def

text \<open>
  An \<open>arg\<close> of an ioctl is a pointer to an \<open>unsigned long long\<close>: \<open>None\<close> is the null pointer,
  \<open>Some v\<close> a pointer to \<open>v\<close>, and the operation returns what the pointee is afterwards. A read
  returns its code together with the bytes it has stored in the caller's buffer.
\<close>

record 'd iointf =
  if_close :: "('d \<Rightarrow> 'd option) option"
  if_cntl :: "('d \<Rightarrow> int \<Rightarrow> nat option \<Rightarrow> ((int \<times> nat option) \<times> 'd) option) option"
  if_read :: "('d \<Rightarrow> int \<Rightarrow> ((int \<times> byte list) \<times> 'd) option) option"
  if_write :: "('d \<Rightarrow> byte list \<Rightarrow> int \<Rightarrow> (int \<times> 'd) option) option"
  if_readat :: "('d \<Rightarrow> nat \<Rightarrow> int \<Rightarrow> ((int \<times> byte list) \<times> 'd) option) option"
  if_writeat :: "('d \<Rightarrow> nat \<Rightarrow> byte list \<Rightarrow> int \<Rightarrow> (int \<times> 'd) option) option"

record 'd io =
  intf :: "'d iointf"
  refcnt :: "64 word"
  dev :: 'd

definition ioinit0 :: "'d \<Rightarrow> 'd iointf \<Rightarrow> 'd io" where
  "ioinit0 d f = \<lparr>intf = f, refcnt = 0, dev = d\<rparr>"

definition ioinit1 :: "'d \<Rightarrow> 'd iointf \<Rightarrow> 'd io" where
  "ioinit1 d f = \<lparr>intf = f, refcnt = 1, dev = d\<rparr>"

definition iorefcnt :: "'d io \<Rightarrow> 64 word" where
  "iorefcnt io = refcnt io"

definition ioaddref :: "'d io \<Rightarrow> 'd io" where
  "ioaddref io = io\<lparr>refcnt := refcnt io + 1\<rparr>"

definition ioclose :: "'d io \<Rightarrow> 'd io option" where
  "ioclose io =
     (if refcnt io = 0 then None
      else let io = io\<lparr>refcnt := refcnt io - 1\<rparr>
           in if refcnt io = 0
              then (case if_close (intf io) of
                      None \<Rightarrow> Some io
                    | Some close \<Rightarrow> map_option (\<lambda>d. io\<lparr>dev := d\<rparr>) (close (dev io)))
              else Some io)"

definition ioread :: "'d io \<Rightarrow> int \<Rightarrow> ((int \<times> byte list) \<times> 'd io) option" where
  "ioread io bufsz =
     (case if_read (intf io) of
        None \<Rightarrow> Some ((- ENOTSUP, []), io)
      | Some f \<Rightarrow>
          if bufsz < 0 then Some ((- EINVAL, []), io)
          else map_option (\<lambda>(r, d). (r, io\<lparr>dev := d\<rparr>)) (f (dev io) bufsz))"

text \<open>
  The loop of \<open>iofill\<close>: each successful read moves \<open>bufpos\<close> by the count the driver returned.
\<close>

function iofill_loop ::
  "('d \<Rightarrow> int \<Rightarrow> ((int \<times> byte list) \<times> 'd) option) \<Rightarrow> 'd \<Rightarrow> int \<Rightarrow> int \<Rightarrow> byte list \<Rightarrow>
     ((int \<times> byte list) \<times> 'd) option"
where
  "iofill_loop f d bufsz bufpos buf =
     (if bufpos < bufsz
      then (case f d (bufsz - bufpos) of
              None \<Rightarrow> None
            | Some ((nread, bs), d') \<Rightarrow>
              if nread \<le> 0 then Some ((if nread < 0 then nread else bufpos, buf), d')
              else iofill_loop f d' bufsz (bufpos + nread) (buf @ bs))
      else Some ((bufpos, buf), d))"
  by pat_completeness auto
termination
  by (relation "measure (\<lambda>(f, d, bufsz, bufpos, buf). nat (bufsz - bufpos))") auto

declare iofill_loop.simps [simp del]

definition iofill :: "'d io \<Rightarrow> int \<Rightarrow> ((int \<times> byte list) \<times> 'd io) option" where
  "iofill io bufsz =
     (case if_read (intf io) of
        None \<Rightarrow> Some ((- ENOTSUP, []), io)
      | Some f \<Rightarrow>
          if bufsz < 0 then Some ((- EINVAL, []), io)
          else map_option (\<lambda>(r, d). (r, io\<lparr>dev := d\<rparr>)) (iofill_loop f (dev io) bufsz 0 []))"

text \<open>The do-while loop of \<open>iowrite\<close>: the driver is called at least once, even for length 0.\<close>

function iowrite_loop ::
  "('d \<Rightarrow> byte list \<Rightarrow> int \<Rightarrow> (int \<times> 'd) option) \<Rightarrow> 'd \<Rightarrow> byte list \<Rightarrow> int \<Rightarrow> int \<Rightarrow>
     (int \<times> 'd) option"
where
  "iowrite_loop f d buf len bufpos =
     (case f d (drop (nat bufpos) buf) (len - bufpos) of
        None \<Rightarrow> None
      | Some (n, d') \<Rightarrow>
        if n \<le> 0 then Some (if n < 0 then n else bufpos, d')
        else if bufpos + n < len then iowrite_loop f d' buf len (bufpos + n)
        else Some (bufpos + n, d'))"
  by pat_completeness auto
termination
  by (relation "measure (\<lambda>(f, d, buf, len, bufpos). nat (len - bufpos))") auto

declare iowrite_loop.simps [simp del]

definition iowrite :: "'d io \<Rightarrow> byte list \<Rightarrow> int \<Rightarrow> (int \<times> 'd io) option" where
  "iowrite io buf len =
     (case if_write (intf io) of
        None \<Rightarrow> Some (- ENOTSUP, io)
      | Some f \<Rightarrow>
          if len < 0 then Some (- EINVAL, io)
          else map_option (\<lambda>(n, d). (n, io\<lparr>dev := d\<rparr>)) (iowrite_loop f (dev io) buf len 0))"

definition ioreadat :: "'d io \<Rightarrow> nat \<Rightarrow> int \<Rightarrow> ((int \<times> byte list) \<times> 'd io) option" where
  "ioreadat io pos bufsz =
     (case if_readat (intf io) of
        None \<Rightarrow> Some ((- ENOTSUP, []), io)
      | Some f \<Rightarrow>
          if bufsz < 0 then Some ((- EINVAL, []), io)
          else map_option (\<lambda>(r, d). (r, io\<lparr>dev := d\<rparr>)) (f (dev io) pos bufsz))"

definition iowriteat :: "'d io \<Rightarrow> nat \<Rightarrow> byte list \<Rightarrow> int \<Rightarrow> (int \<times> 'd io) option" where
  "iowriteat io pos buf len =
     (case if_writeat (intf io) of
        None \<Rightarrow> Some (- ENOTSUP, io)
      | Some f \<Rightarrow>
          if len < 0 then Some (- EINVAL, io)
          else map_option (\<lambda>(n, d). (n, io\<lparr>dev := d\<rparr>)) (f (dev io) pos buf len))"

definition ioctl :: "'d io \<Rightarrow> int \<Rightarrow> nat option \<Rightarrow> ((int \<times> nat option) \<times> 'd io) option" where
  "ioctl io cmd arg =
     (case if_cntl (intf io) of
        Some f \<Rightarrow> map_option (\<lambda>(r, d). (r, io\<lparr>dev := d\<rparr>)) (f (dev io) cmd arg)
      | None \<Rightarrow> Some (if cmd = IOCTL_GETBLKSZ then ((1, arg), io) else ((- ENOTSUP, arg), io)))"

definition ioblksz :: "'d io \<Rightarrow> (int \<times> 'd io) option" where
  "ioblksz io = map_option (\<lambda>((r, _), io). (r, io)) (ioctl io IOCTL_GETBLKSZ None)"

definition ioseek :: "'d io \<Rightarrow> nat \<Rightarrow> (int \<times> 'd io) option" where
  "ioseek io pos = map_option (\<lambda>((r, _), io). (r, io)) (ioctl io IOCTL_SETPOS (Some pos))"

subsection \<open>Memory endpoint (memio)\<close>

text \<open>
  \<open>mbuf\<close> is the caller's block of memory and \<open>msize\<close> the size the endpoint exposes;
  \<open>mlive\<close> turns false when \<open>memio_close\<close> frees the structure.
\<close>

record memio =
  mbuf :: "byte list"
  msize :: nat
  mlive :: bool

definition memio_close :: "memio \<Rightarrow> memio option" where
  "memio_close m = Some (m\<lparr>mlive := False\<rparr>)"

definition memio_readat :: "memio \<Rightarrow> nat \<Rightarrow> int \<Rightarrow> ((int \<times> byte list) \<times> memio) option" where
  "memio_readat m pos bufsz =
     Some (if bufsz < 0 then ((- EINVAL, []), m)
      else if pos \<ge> msize m then ((0, []), m)
      else let avail = msize m - pos;
               n = (if nat bufsz > avail then avail else nat bufsz)
           in ((int n, seg pos n (mbuf m)), m))"

definition memio_writeat :: "memio \<Rightarrow> nat \<Rightarrow> byte list \<Rightarrow> int \<Rightarrow> (int \<times> memio) option" where
  "memio_writeat m pos buf len =
     Some (if len < 0 then (- EINVAL, m)
      else if pos \<ge> msize m then (0, m)
      else let avail = msize m - pos;
               n = (if nat len > avail then avail else nat len)
           in (int n, m\<lparr>mbuf := patch pos (take n buf) (mbuf m)\<rparr>))"

definition memio_cntl ::
  "memio \<Rightarrow> int \<Rightarrow> nat option \<Rightarrow> ((int \<times> nat option) \<times> memio) option"
where
  "memio_cntl m cmd arg =
     Some (if cmd = IOCTL_GETBLKSZ then ((1, arg), m)
      else if cmd = IOCTL_GETEND then
        (case arg of None \<Rightarrow> ((- EINVAL, arg), m) | Some _ \<Rightarrow> ((0, Some (msize m)), m))
      else if cmd = IOCTL_SETEND then
        (case arg of
           None \<Rightarrow> ((- EINVAL, arg), m)
         | Some ne \<Rightarrow> if ne > msize m then ((- EINVAL, arg), m)
                      else ((0, arg), m\<lparr>msize := ne\<rparr>))
      else ((- ENOTSUP, arg), m))"

definition memio_iointf :: "memio iointf" where
  "memio_iointf =
     \<lparr>if_close = Some memio_close, if_cntl = Some memio_cntl, if_read = None, if_write = None,
      if_readat = Some memio_readat, if_writeat = Some memio_writeat\<rparr>"

text \<open>\<open>alloc\<close> says whether \<open>kcalloc\<close> delivered; \<open>buf = None\<close> is a null block pointer.\<close>

definition create_memory_io :: "bool \<Rightarrow> byte list option \<Rightarrow> nat \<Rightarrow> memio io option" where
  "create_memory_io alloc buf sz =
     (case buf of
        None \<Rightarrow> None
      | Some b \<Rightarrow>
          if \<not> alloc then None
          else Some (ioinit1 \<lparr>mbuf = b, msize = sz, mlive = True\<rparr> memio_iointf))"

text \<open>A memory endpoint is well-formed when the size it exposes is inside its block.\<close>

definition memio_wf :: "memio \<Rightarrow> bool" where
  "memio_wf m \<longleftrightarrow> msize m \<le> length (mbuf m) \<and> length (mbuf m) < 9223372036854775808"

subsection \<open>Seekable endpoint (seekio)\<close>

text \<open>
  C's unsigned 64-bit subtraction and the conversions between \<open>long\<close> and \<open>unsigned long long\<close>
  are written out, since \<open>end - pos\<close> wraps when the end has been moved below the position.
\<close>

definition usub64 :: "nat \<Rightarrow> nat \<Rightarrow> nat" where
  "usub64 a b = u64 (a + 18446744073709551616 - b)"

definition ull :: "int \<Rightarrow> nat" where
  "ull n = nat (n mod 18446744073709551616)"

definition slong :: "nat \<Rightarrow> int" where
  "slong n = (int n + 9223372036854775808) mod 18446744073709551616 - 9223372036854775808"

record 'd seekio =
  sbkgio :: "'d io"
  spos :: nat
  send :: nat
  sblksz :: int
  slive :: bool

definition seekio_close :: "'d seekio \<Rightarrow> 'd seekio option" where
  "seekio_close sio = map_option (\<lambda>io. sio\<lparr>sbkgio := io, slive := False\<rparr>) (ioclose (sbkgio sio))"

definition seekio_cntl ::
  "'d seekio \<Rightarrow> int \<Rightarrow> nat option \<Rightarrow> ((int \<times> nat option) \<times> 'd seekio) option"
where
  "seekio_cntl sio cmd arg =
     (if cmd = IOCTL_GETBLKSZ then Some ((sblksz sio, arg), sio)
      else if cmd = IOCTL_GETPOS then
        (case arg of None \<Rightarrow> None | Some _ \<Rightarrow> Some ((0, Some (spos sio)), sio))
      else if cmd = IOCTL_SETPOS then
        (case arg of
           None \<Rightarrow> None
         | Some p \<Rightarrow>
             Some (if p AND ull (sblksz sio - 1) \<noteq> 0 then ((- EINVAL, arg), sio)
                   else if p > send sio then ((- EINVAL, arg), sio)
                   else ((0, arg), sio\<lparr>spos := p\<rparr>)))
      else if cmd = IOCTL_GETEND then
        (case arg of None \<Rightarrow> None | Some _ \<Rightarrow> Some ((0, Some (send sio)), sio))
      else if cmd = IOCTL_SETEND then
        (case ioctl (sbkgio sio) IOCTL_SETEND arg of
           None \<Rightarrow> None
         | Some ((result, arg'), io) \<Rightarrow>
             if result = 0
             then (case arg' of
                     None \<Rightarrow> None
                   | Some e \<Rightarrow> Some ((result, arg'), sio\<lparr>sbkgio := io, send := e\<rparr>))
             else Some ((result, arg'), sio\<lparr>sbkgio := io\<rparr>))
      else map_option (\<lambda>(r, io). (r, sio\<lparr>sbkgio := io\<rparr>)) (ioctl (sbkgio sio) cmd arg))"

definition seekio_read :: "'d seekio \<Rightarrow> int \<Rightarrow> ((int \<times> byte list) \<times> 'd seekio) option" where
  "seekio_read sio bufsz =
     (let pos = spos sio; rem = usub64 (send sio) pos;
          bufsz = (if rem < ull bufsz then slong rem else bufsz)
      in if bufsz = 0 then Some ((0, []), sio)
         else if bufsz < sblksz sio then Some ((- EINVAL, []), sio)
         else let bufsz = bufsz AND NOT (sblksz sio - 1)
              in do {
                   ((rcnt, bs), io) \<leftarrow> ioreadat (sbkgio sio) pos bufsz;
                   Some ((rcnt, bs),
                     sio\<lparr>sbkgio := io, spos := u64 (pos + (if rcnt < 0 then 0 else nat rcnt))\<rparr>)
                 })"

definition seekio_write :: "'d seekio \<Rightarrow> byte list \<Rightarrow> int \<Rightarrow> (int \<times> 'd seekio) option" where
  "seekio_write sio buf len =
     (let pos = spos sio
      in if len = 0 then Some (0, sio)
         else if len < sblksz sio then Some (- EINVAL, sio)
         else
           let len = len AND NOT (sblksz sio - 1);
               put = (\<lambda>sio. do {
                        (wcnt, io) \<leftarrow> iowriteat (sbkgio sio) (spos sio) buf len;
                        Some (wcnt,
                          sio\<lparr>sbkgio := io,
                              spos := u64 (pos + (if wcnt < 0 then 0 else nat wcnt))\<rparr>)
                      })
           in if usub64 (send sio) pos < ull len
              then if 18446744073709551615 - pos < ull len then Some (- EINVAL, sio)
                   else let e = pos + ull len
                        in do {
                             ((result, _), io) \<leftarrow> ioctl (sbkgio sio) IOCTL_SETEND (Some e);
                             if result \<noteq> 0 then Some (result, sio\<lparr>sbkgio := io\<rparr>)
                             else put (sio\<lparr>sbkgio := io, send := e\<rparr>)
                           }
              else put sio)"

definition seekio_readat ::
  "'d seekio \<Rightarrow> nat \<Rightarrow> int \<Rightarrow> ((int \<times> byte list) \<times> 'd seekio) option"
where
  "seekio_readat sio pos bufsz =
     map_option (\<lambda>(r, io). (r, sio\<lparr>sbkgio := io\<rparr>)) (ioreadat (sbkgio sio) pos bufsz)"

definition seekio_writeat ::
  "'d seekio \<Rightarrow> nat \<Rightarrow> byte list \<Rightarrow> int \<Rightarrow> (int \<times> 'd seekio) option"
where
  "seekio_writeat sio pos buf len =
     map_option (\<lambda>(n, io). (n, sio\<lparr>sbkgio := io\<rparr>)) (iowriteat (sbkgio sio) pos buf len)"

definition seekio_iointf :: "'d seekio iointf" where
  "seekio_iointf =
     \<lparr>if_close = Some seekio_close, if_cntl = Some seekio_cntl, if_read = Some seekio_read,
      if_write = Some seekio_write, if_readat = Some seekio_readat,
      if_writeat = Some seekio_writeat\<rparr>"

text \<open>\<open>create_seekable_io\<close>; the three asserts on the backing endpoint give \<open>None\<close>.\<close>

definition create_seekable_io :: "'d io \<Rightarrow> 'd seekio io option" where
  "create_seekable_io io =
     (case ioblksz io of
        None \<Rightarrow> None
      | Some (blksz, io) \<Rightarrow>
        if \<not> (0 < blksz \<and> blksz AND (blksz - 1) = 0) then None
        else case ioctl io IOCTL_GETEND (Some 0) of
               None \<Rightarrow> None
             | Some ((result, e), io) \<Rightarrow>
               if result \<noteq> 0 then None
               else (case e of
                       None \<Rightarrow> None
                     | Some e \<Rightarrow>
                         Some (ioinit1 \<lparr>sbkgio = ioaddref io, spos = 0, send = e, sblksz = blksz,
                                        slive = True\<rparr> seekio_iointf)))"

subsection \<open>Laws of the generic layer\<close>

lemma ioread_keeps:
  "ioread io n = Some (r, io') \<Longrightarrow> refcnt io' = refcnt io \<and> intf io' = intf io"
  by (auto simp: ioread_def split: option.splits if_splits)

lemma ioreadat_keeps:
  "ioreadat io p n = Some (r, io') \<Longrightarrow> refcnt io' = refcnt io \<and> intf io' = intf io"
  by (auto simp: ioreadat_def split: option.splits if_splits)

lemma iowriteat_keeps:
  "iowriteat io p b n = Some (r, io') \<Longrightarrow> refcnt io' = refcnt io \<and> intf io' = intf io"
  by (auto simp: iowriteat_def split: option.splits if_splits)

text \<open>Giving a reference and taking it back is the identity, and the driver is not closed.\<close>

lemma ioclose_ioaddref:
  assumes "refcnt io \<noteq> 0" and "refcnt io + 1 \<noteq> 0"
  shows "ioclose (ioaddref io) = Some io"
  using assms by (simp add: ioclose_def ioaddref_def Let_def)

lemma ioclose_last:
  assumes "refcnt io = 1" and "if_close (intf io) = Some close"
  shows "ioclose io = map_option (\<lambda>d. io\<lparr>refcnt := 0, dev := d\<rparr>) (close (dev io))"
  using assms by (simp add: ioclose_def Let_def)

subsection \<open>The block-device interface\<close>

text \<open>
  What the block cache needs of its backing endpoint: positioned reads and writes of one aligned
  512-byte block succeed inside the device, a read delivers the stored block and changes nothing,
  a write changes that block alone. \<open>blk d k\<close> is the \<open>k\<close>-th block and \<open>nblk d\<close> their number.
\<close>

locale block_device =
  fixes f :: "'d iointf"
    and dinv :: "'d \<Rightarrow> bool"
    and nblk :: "'d \<Rightarrow> nat"
    and blk :: "'d \<Rightarrow> nat \<Rightarrow> byte list"
  assumes readat:
    "dinv d \<Longrightarrow> k < nblk d \<Longrightarrow>
       \<exists>rd d'. if_readat f = Some rd \<and> rd d (512 * k) 512 = Some ((512, blk d k), d') \<and>
               dinv d' \<and> nblk d' = nblk d \<and> blk d' = blk d"
  and writeat:
    "dinv d \<Longrightarrow> k < nblk d \<Longrightarrow> length bs = 512 \<Longrightarrow>
       \<exists>wr d'. if_writeat f = Some wr \<and> wr d (512 * k) bs 512 = Some (512, d') \<and>
               dinv d' \<and> nblk d' = nblk d \<and> blk d' = (blk d)(k := bs)"
  and blk_len: "dinv d \<Longrightarrow> k < nblk d \<Longrightarrow> length (blk d k) = 512"
begin

lemma ioreadat_block:
  assumes "intf io = f" and "dinv (dev io)" and "k < nblk (dev io)"
  obtains d' where
    "ioreadat io (512 * k) 512 = Some ((512, blk (dev io) k), io\<lparr>dev := d'\<rparr>)"
    "dinv d'" "nblk d' = nblk (dev io)" "blk d' = blk (dev io)"
  using readat [OF assms(2,3)] assms(1) that by (fastforce simp: ioreadat_def)

lemma iowriteat_block:
  assumes "intf io = f" and "dinv (dev io)" and "k < nblk (dev io)" and "length bs = 512"
  obtains d' where
    "iowriteat io (512 * k) bs 512 = Some (512, io\<lparr>dev := d'\<rparr>)"
    "dinv d'" "nblk d' = nblk (dev io)" "blk d' = (blk (dev io))(k := bs)"
  using writeat [OF assms(2,3,4)] assms(1) that by (fastforce simp: iowriteat_def)

end

text \<open>A well-formed memory endpoint is a block device: its blocks are the 512-byte segments of its memory.\<close>

definition mem_nblk :: "memio \<Rightarrow> nat" where
  "mem_nblk m = msize m div 512"

definition mem_blk :: "memio \<Rightarrow> nat \<Rightarrow> byte list" where
  "mem_blk m k = seg (512 * k) 512 (mbuf m)"

lemma mem_block_inside:
  "k < mem_nblk m \<Longrightarrow> 512 * k + 512 \<le> msize m"
  using less_eq_div_iff_mult_less_eq [of 512 "Suc k" "msize m"] by (simp add: mem_nblk_def)

lemma memio_readat_block:
  assumes "k < mem_nblk m"
  shows "memio_readat m (512 * k) 512 = Some ((512, mem_blk m k), m)"
  using mem_block_inside [OF assms] by (auto simp: memio_readat_def mem_blk_def Let_def)

lemma memio_writeat_block:
  assumes "k < mem_nblk m" and "length bs = 512"
  shows "memio_writeat m (512 * k) bs 512 = Some (512, m\<lparr>mbuf := patch (512 * k) bs (mbuf m)\<rparr>)"
  using mem_block_inside [OF assms(1)] assms(2) by (auto simp: memio_writeat_def Let_def)

lemma mem_blk_patch:
  assumes "memio_wf m" and "k < mem_nblk m" and "length bs = 512"
  shows "mem_blk (m\<lparr>mbuf := patch (512 * k) bs (mbuf m)\<rparr>) = (mem_blk m)(k := bs)"
proof
  fix j
  have le: "512 * k + length bs \<le> length (mbuf m)"
    using assms mem_block_inside [of k m] by (simp add: memio_wf_def)
  show "mem_blk (m\<lparr>mbuf := patch (512 * k) bs (mbuf m)\<rparr>) j = ((mem_blk m)(k := bs)) j"
  proof (cases "j = k")
    case True
    with le assms(3) show ?thesis by (simp add: mem_blk_def)
  next
    case False
    then have "512 * j + 512 \<le> 512 * k \<or> 512 * k + length bs \<le> 512 * j"
      using assms(3) by (cases j k rule: linorder_cases) auto
    with le False show ?thesis by (simp add: mem_blk_def seg_patch_other)
  qed
qed

interpretation memdev: block_device memio_iointf memio_wf mem_nblk mem_blk
proof unfold_locales
  fix d k
  assume "memio_wf d" and "k < mem_nblk d"
  then show "\<exists>rd d'. if_readat memio_iointf = Some rd \<and>
      rd d (512 * k) 512 = Some ((512, mem_blk d k), d') \<and>
      memio_wf d' \<and> mem_nblk d' = mem_nblk d \<and> mem_blk d' = mem_blk d"
    by (simp add: memio_iointf_def memio_readat_block)
next
  fix d k and bs :: "byte list"
  assume a: "memio_wf d" "k < mem_nblk d" "length bs = 512"
  then have "memio_wf (d\<lparr>mbuf := patch (512 * k) bs (mbuf d)\<rparr>)"
    using mem_block_inside [of k d] by (simp add: memio_wf_def)
  then show "\<exists>wr d'. if_writeat memio_iointf = Some wr \<and> wr d (512 * k) bs 512 = Some (512, d') \<and>
      memio_wf d' \<and> mem_nblk d' = mem_nblk d \<and> mem_blk d' = (mem_blk d)(k := bs)"
    using a by (simp add: memio_iointf_def memio_writeat_block mem_blk_patch mem_nblk_def)
next
  fix d k
  assume "memio_wf d" and "k < mem_nblk d"
  then show "length (mem_blk d k) = 512"
    using mem_block_inside [of k d] by (simp add: memio_wf_def mem_blk_def)
qed

end
