(* ===== verification/Cache.thy ===== *)
theory Cache
  imports Io
begin

text \<open>
  The write-back block cache of kernel/cache.c: 128 lazily filled entries over a backing endpoint.
  A block pointer handed to a client points to the data of one entry, so the model names it by the
  entry's index; the client writes through it with \<open>cache_put\<close>. \<open>cache_view\<close> is what the cache
  promises to its clients: one array of blocks, the cached copy where there is one and the device
  otherwise. The lemmas of the \<open>block_device\<close> context show that every operation keeps the
  invariant and acts on that array as it should, whatever the cache has to evict.
\<close>

subsection \<open>State\<close>

definition CACHE_NENT :: nat where "CACHE_NENT = 128"
definition CACHE_BLKSZ :: nat where "CACHE_BLKSZ = 512"

record cache_entry =
  epos :: nat
  evalid :: bool
  erefcnt :: int
  edirty :: bool
  edata :: "byte list"

record 'd cache =
  cbkgio :: "'d io"
  ents :: "cache_entry list"

definition zero_entry :: cache_entry where
  "zero_entry = \<lparr>epos = 0, evalid = False, erefcnt = 0, edirty = False,
                 edata = replicate CACHE_BLKSZ 0\<rparr>"

text \<open>
  \<open>alloc n\<close> says whether the \<open>n\<close>-th \<open>kcalloc\<close> of the call delivers; on a failure everything
  allocated so far is freed and no cache results.
\<close>

definition create_cache :: "(nat \<Rightarrow> bool) \<Rightarrow> 'd io option \<Rightarrow> int + 'd cache" where
  "create_cache alloc bk =
     (case bk of
        None \<Rightarrow> Inl (- EINVAL)
      | Some io \<Rightarrow>
          if \<not> alloc 0 then Inl (- ENOMEM)
          else if \<not> list_all alloc [1..<Suc CACHE_NENT] then Inl (- ENOMEM)
          else Inr \<lparr>cbkgio = io, ents = replicate CACHE_NENT zero_entry\<rparr>)"

subsection \<open>Operations\<close>

definition find_entry :: "'d cache \<Rightarrow> nat \<Rightarrow> nat option" where
  "find_entry c pos = first_idx (\<lambda>e. evalid e \<and> epos e = pos) (ents c)"

definition pick_victim :: "'d cache \<Rightarrow> nat option" where
  "pick_victim c =
     (case first_idx (\<lambda>e. \<not> evalid e) (ents c) of
        Some i \<Rightarrow> Some i
      | None \<Rightarrow>
          (case first_idx (\<lambda>e. erefcnt e = 0 \<and> \<not> edirty e) (ents c) of
             Some i \<Rightarrow> Some i
           | None \<Rightarrow> first_idx (\<lambda>e. erefcnt e = 0) (ents c)))"

definition writeback :: "'d cache \<Rightarrow> nat \<Rightarrow> (int \<times> 'd cache) option" where
  "writeback c i =
     (let e = ents c ! i
      in if \<not> evalid e \<or> \<not> edirty e then Some (0, c)
         else do {
           (n, io) \<leftarrow> iowriteat (cbkgio c) (epos e) (edata e) (int CACHE_BLKSZ);
           if n \<noteq> int CACHE_BLKSZ then Some (cint n, c\<lparr>cbkgio := io\<rparr>)
           else Some (0, c\<lparr>cbkgio := io, ents := (ents c)[i := e\<lparr>edirty := False\<rparr>]\<rparr>)
         })"

text \<open>
  \<open>cache_get_block\<close> returns its code and the block pointer it has stored through \<open>pptr\<close>
  (\<open>None\<close> when it stored nothing). A read that returns anything but 512 leaves the bytes it did
  deliver in the victim's buffer and its count as the return code.
\<close>

definition cache_get_block :: "'d cache \<Rightarrow> nat \<Rightarrow> ((int \<times> nat option) \<times> 'd cache) option" where
  "cache_get_block c pos =
     (if pos mod CACHE_BLKSZ \<noteq> 0 then Some ((- EINVAL, None), c)
      else case find_entry c pos of
        Some i \<Rightarrow>
          let e = ents c ! i
          in Some ((0, Some i), c\<lparr>ents := (ents c)[i := e\<lparr>erefcnt := erefcnt e + 1\<rparr>]\<rparr>)
      | None \<Rightarrow>
          (case pick_victim c of
             None \<Rightarrow> Some ((- ENOMEM, None), c)
           | Some i \<Rightarrow> do {
               (rc, c) \<leftarrow> (if evalid (ents c ! i) then writeback c i else Some (0, c));
               if rc \<noteq> 0 then Some ((rc, None), c)
               else do {
                 ((n, bs), io) \<leftarrow> ioreadat (cbkgio c) pos (int CACHE_BLKSZ);
                 let e = (ents c ! i)\<lparr>edata := patch 0 bs (edata (ents c ! i))\<rparr>;
                 if n \<noteq> int CACHE_BLKSZ
                 then Some ((cint n, None), c\<lparr>cbkgio := io, ents := (ents c)[i := e]\<rparr>)
                 else Some ((0, Some i),
                            c\<lparr>cbkgio := io,
                              ents := (ents c)[i := e\<lparr>epos := pos, evalid := True,
                                                     edirty := False, erefcnt := 1\<rparr>]\<rparr>)
               }
             }))"

text \<open>
  \<open>cache_release_block\<close> looks for the valid entry whose data is at \<open>pblk\<close>: that is entry
  \<open>i\<close> itself, when it is valid. A pointer to nothing is ignored.
\<close>

definition cache_release_block :: "'d cache \<Rightarrow> nat option \<Rightarrow> bool \<Rightarrow> 'd cache" where
  "cache_release_block c pblk dirty =
     (case pblk of
        None \<Rightarrow> c
      | Some i \<Rightarrow>
          (case first_idx (\<lambda>(j, e). evalid e \<and> j = i) (zip [0..<length (ents c)] (ents c)) of
             None \<Rightarrow> c
           | Some j \<Rightarrow>
               let e = ents c ! j;
                   e = (if dirty then e\<lparr>edirty := True\<rparr> else e);
                   e = (if erefcnt e > 0 then e\<lparr>erefcnt := erefcnt e - 1\<rparr> else e)
               in c\<lparr>ents := (ents c)[j := e]\<rparr>))"

fun flush_loop :: "nat list \<Rightarrow> 'd cache \<Rightarrow> (int \<times> 'd cache) option" where
  "flush_loop [] c = Some (0, c)"
| "flush_loop (i # is) c =
     do {
       (rc, c) \<leftarrow> writeback c i;
       if rc \<noteq> 0 then Some (rc, c) else flush_loop is c
     }"

definition cache_flush :: "'d cache \<Rightarrow> (int \<times> 'd cache) option" where
  "cache_flush c = flush_loop [0..<CACHE_NENT] c"

text \<open>What a client does through the pointer it holds.\<close>

definition cache_data :: "'d cache \<Rightarrow> nat \<Rightarrow> byte list" where
  "cache_data c i = edata (ents c ! i)"

definition cache_put :: "'d cache \<Rightarrow> nat \<Rightarrow> byte list \<Rightarrow> 'd cache" where
  "cache_put c i data = c\<lparr>ents := (ents c)[i := (ents c ! i)\<lparr>edata := data\<rparr>]\<rparr>"

subsection \<open>References held by clients\<close>

text \<open>\<open>cache_pins c i\<close>: the block entry \<open>i\<close> holds for clients and how many references to it.\<close>

definition cache_pins :: "'d cache \<Rightarrow> nat \<Rightarrow> (nat \<times> int) option" where
  "cache_pins c i =
     (if i < length (ents c) \<and> evalid (ents c ! i) \<and> erefcnt (ents c ! i) > 0
      then Some (epos (ents c ! i) div 512, erefcnt (ents c ! i)) else None)"

definition pin :: "(nat \<Rightarrow> (nat \<times> int) option) \<Rightarrow> nat \<Rightarrow> nat \<Rightarrow> (nat \<Rightarrow> (nat \<times> int) option)" where
  "pin P i k = P(i \<mapsto> (k, (case P i of None \<Rightarrow> 1 | Some (_, n) \<Rightarrow> n + 1)))"

definition unpin :: "(nat \<Rightarrow> (nat \<times> int) option) \<Rightarrow> nat \<Rightarrow> (nat \<Rightarrow> (nat \<times> int) option)" where
  "unpin P i = P(i := (case P i of None \<Rightarrow> None | Some (k, n) \<Rightarrow> if n = 1 then None else Some (k, n - 1)))"

definition pins_room :: "nat \<Rightarrow> (nat \<Rightarrow> (nat \<times> int) option) \<Rightarrow> bool" where
  "pins_room m P \<longleftrightarrow> finite (dom P) \<and> card (dom P) + m \<le> CACHE_NENT"

lemma pins_room_dom: "cache_pins c i \<noteq> None \<Longrightarrow> i < length (ents c)"
  by (auto simp: cache_pins_def split: if_splits)

lemma pins_room_pin:
  assumes "pins_room (Suc m) P"
  shows "pins_room m (pin P i k)"
proof -
  have "dom (pin P i k) = insert i (dom P)"
    by (auto simp: pin_def)
  moreover have "card (insert i (dom P)) \<le> Suc (card (dom P))"
    by (simp add: card_insert_le_m1 card_insert_if assms pins_room_def)
  ultimately show ?thesis
    using assms by (simp add: pins_room_def)
qed

lemma pins_room_mono: "pins_room m P \<Longrightarrow> m' \<le> m \<Longrightarrow> pins_room m' P"
  by (simp add: pins_room_def)

lemma unpin_pin [simp]: "(\<And>k' n. P i = Some (k', n) \<Longrightarrow> k' = k \<and> n > 0) \<Longrightarrow> unpin (pin P i k) i = P"
  by (cases "P i") (auto simp: pin_def unpin_def fun_eq_iff)

subsection \<open>The cache over a block device\<close>

text \<open>
  The device operations are the parameters of the interface: \<open>blk d k\<close> the blocks of the device,
  \<open>nblk d\<close> their number and \<open>dinv\<close> its own invariant.
\<close>

definition cache_view :: "('d \<Rightarrow> nat \<Rightarrow> byte list) \<Rightarrow> 'd cache \<Rightarrow> nat \<Rightarrow> byte list" where
  "cache_view blk c k =
     (case find_entry c (512 * k) of
        Some i \<Rightarrow> edata (ents c ! i)
      | None \<Rightarrow> blk (dev (cbkgio c)) k)"

definition entry_ok ::
  "('d \<Rightarrow> nat) \<Rightarrow> ('d \<Rightarrow> nat \<Rightarrow> byte list) \<Rightarrow> 'd cache \<Rightarrow> cache_entry \<Rightarrow> bool"
where
  "entry_ok nblk blk c e \<longleftrightarrow> length (edata e) = 512 \<and> 0 \<le> erefcnt e \<and>
     (evalid e \<longrightarrow> (\<exists>k < nblk (dev (cbkgio c)). epos e = 512 * k)) \<and>
     (evalid e \<and> \<not> edirty e \<longrightarrow> edata e = blk (dev (cbkgio c)) (epos e div 512))"

definition cache_inv ::
  "'d iointf \<Rightarrow> ('d \<Rightarrow> bool) \<Rightarrow> ('d \<Rightarrow> nat) \<Rightarrow> ('d \<Rightarrow> nat \<Rightarrow> byte list) \<Rightarrow> 'd cache \<Rightarrow> bool"
where
  "cache_inv f dinv nblk blk c \<longleftrightarrow> intf (cbkgio c) = f \<and> dinv (dev (cbkgio c)) \<and>
     length (ents c) = CACHE_NENT \<and> (\<forall>e \<in> set (ents c). entry_ok nblk blk c e) \<and>
     (\<forall>i < CACHE_NENT. \<forall>j < CACHE_NENT.
        evalid (ents c ! i) \<and> evalid (ents c ! j) \<and> epos (ents c ! i) = epos (ents c ! j)
        \<longrightarrow> i = j)"

context block_device
begin

abbreviation cview :: "'d cache \<Rightarrow> nat \<Rightarrow> byte list" where
  "cview \<equiv> cache_view blk"

abbreviation cinv :: "'d cache \<Rightarrow> bool" where
  "cinv \<equiv> cache_inv f dinv nblk blk"

abbreviation cnblk :: "'d cache \<Rightarrow> nat" where
  "cnblk c \<equiv> nblk (dev (cbkgio c))"

lemma cache_invD:
  assumes "cinv c"
  shows "intf (cbkgio c) = f" "dinv (dev (cbkgio c))" "length (ents c) = CACHE_NENT"
    and "\<And>i. i < CACHE_NENT \<Longrightarrow> entry_ok nblk blk c (ents c ! i)"
    and "\<And>i j. i < CACHE_NENT \<Longrightarrow> j < CACHE_NENT \<Longrightarrow> evalid (ents c ! i) \<Longrightarrow> evalid (ents c ! j) \<Longrightarrow>
           epos (ents c ! i) = epos (ents c ! j) \<Longrightarrow> i = j"
  using assms by (auto simp: cache_inv_def)

text \<open>The valid entry that holds a block is unique, so a scan finds it.\<close>

lemma find_entry_unique:
  assumes "cinv c" and "i < CACHE_NENT" and "evalid (ents c ! i)" and "epos (ents c ! i) = p"
  shows "find_entry c p = Some i"
proof -
  note D = cache_invD [OF assms(1)]
  have "\<not> (evalid (ents c ! j) \<and> epos (ents c ! j) = p)" if "j < i" for j
    using D(5) [of j i] assms(2-4) that by auto
  with assms(2-4) D(3) show ?thesis
    by (simp add: find_entry_def first_idx_Some)
qed

lemma find_entry_Some:
  assumes "cinv c"
  shows "find_entry c p = Some i \<longleftrightarrow> i < CACHE_NENT \<and> evalid (ents c ! i) \<and> epos (ents c ! i) = p"
proof
  assume "find_entry c p = Some i"
  then show "i < CACHE_NENT \<and> evalid (ents c ! i) \<and> epos (ents c ! i) = p"
    using cache_invD(3) [OF assms] by (simp add: find_entry_def first_idx_Some)
next
  assume "i < CACHE_NENT \<and> evalid (ents c ! i) \<and> epos (ents c ! i) = p"
  then show "find_entry c p = Some i"
    using find_entry_unique [OF assms] by blast
qed

lemma find_entry_None:
  assumes "cinv c"
  shows "find_entry c p = None \<longleftrightarrow> (\<forall>i < CACHE_NENT. evalid (ents c ! i) \<longrightarrow> epos (ents c ! i) \<noteq> p)"
  using find_entry_Some [OF assms, of p] by (cases "find_entry c p") auto

lemma view_entry:
  assumes "cinv c" and "i < CACHE_NENT" and "evalid (ents c ! i)"
    and "epos (ents c ! i) = 512 * k"
  shows "cview c k = edata (ents c ! i)"
  using find_entry_unique [OF assms] by (simp add: cache_view_def)

lemma view_length:
  assumes "cinv c" and "k < cnblk c"
  shows "length (cview c k) = 512"
proof (cases "find_entry c (512 * k)")
  case None
  then show ?thesis
    using blk_len [OF _ assms(2)] cache_invD(2) [OF assms(1)] by (simp add: cache_view_def)
next
  case (Some i)
  then have "i < CACHE_NENT"
    by (simp add: find_entry_Some [OF assms(1)])
  then show ?thesis
    using cache_invD(4) [OF assms(1)] Some by (simp add: cache_view_def entry_ok_def)
qed

text \<open>
  One general step: entry \<open>i\<close> is replaced by \<open>e\<close> (and the device by \<open>d\<close>) so that no valid
  entry loses its block, and every block keeps its place or is the one \<open>e\<close> now holds.
\<close>

lemma cache_inv_update:
  assumes inv: "cinv c" and i: "i < CACHE_NENT" and d: "dinv d" "nblk d = cnblk c"
    and e: "length (edata e) = 512" "0 \<le> erefcnt e"
    and pos: "evalid e \<Longrightarrow> \<exists>k < nblk d. epos e = 512 * k"
    and clean: "evalid e \<Longrightarrow> \<not> edirty e \<Longrightarrow> edata e = blk d (epos e div 512)"
    and others: "\<And>j. j < CACHE_NENT \<Longrightarrow> j \<noteq> i \<Longrightarrow> evalid (ents c ! j) \<Longrightarrow> \<not> edirty (ents c ! j) \<Longrightarrow>
                   blk d (epos (ents c ! j) div 512) = blk (dev (cbkgio c)) (epos (ents c ! j) div 512)"
    and uniq: "\<And>j. j < CACHE_NENT \<Longrightarrow> j \<noteq> i \<Longrightarrow> evalid e \<Longrightarrow> evalid (ents c ! j) \<Longrightarrow> epos (ents c ! j) \<noteq> epos e"
  shows "cinv (c\<lparr>cbkgio := (cbkgio c)\<lparr>dev := d\<rparr>, ents := (ents c)[i := e]\<rparr>)"
proof -
  let ?c = "c\<lparr>cbkgio := (cbkgio c)\<lparr>dev := d\<rparr>, ents := (ents c)[i := e]\<rparr>"
  note D = cache_invD [OF inv]
  have "entry_ok nblk blk ?c (ents ?c ! j)" if "j < CACHE_NENT" for j
    using D(3) D(4) [OF that] i d e pos clean others [OF that]
    by (cases "j = i") (auto simp: entry_ok_def)
  moreover have "j = j'" if "j < CACHE_NENT" "j' < CACHE_NENT" "evalid (ents ?c ! j)"
    "evalid (ents ?c ! j')" "epos (ents ?c ! j) = epos (ents ?c ! j')" for j j'
    using that D(3) D(5) [OF that(1,2)] uniq [OF that(1)] uniq [OF that(2)] i
    by (cases "j = i"; cases "j' = i") auto
  ultimately show ?thesis
    using D(1,2,3) d by (auto simp: cache_inv_def in_set_conv_nth)
qed

lemma view_update:
  assumes inv: "cinv c" and i: "i < CACHE_NENT"
    and inv': "cinv (c\<lparr>cbkgio := (cbkgio c)\<lparr>dev := d\<rparr>, ents := (ents c)[i := e]\<rparr>)"
    and hit: "evalid e \<Longrightarrow> epos e = 512 * k \<Longrightarrow> edata e = X"
    and other: "\<And>j. j < CACHE_NENT \<Longrightarrow> j \<noteq> i \<Longrightarrow> evalid (ents c ! j) \<Longrightarrow> epos (ents c ! j) = 512 * k \<Longrightarrow>
                  edata (ents c ! j) = X"
    and miss: "\<not> (evalid e \<and> epos e = 512 * k) \<Longrightarrow>
                 (\<And>j. j < CACHE_NENT \<Longrightarrow> j \<noteq> i \<Longrightarrow> evalid (ents c ! j) \<Longrightarrow> epos (ents c ! j) \<noteq> 512 * k) \<Longrightarrow>
                 blk d k = X"
  shows "cview (c\<lparr>cbkgio := (cbkgio c)\<lparr>dev := d\<rparr>, ents := (ents c)[i := e]\<rparr>) k = X"
proof -
  let ?c = "c\<lparr>cbkgio := (cbkgio c)\<lparr>dev := d\<rparr>, ents := (ents c)[i := e]\<rparr>"
  note len = cache_invD(3) [OF inv]
  show ?thesis
  proof (cases "find_entry ?c (512 * k)")
    case None
    then have no: "evalid (ents ?c ! j) \<Longrightarrow> j < CACHE_NENT \<Longrightarrow> epos (ents ?c ! j) \<noteq> 512 * k" for j
      using find_entry_None [OF inv'] by blast
    have "\<not> (evalid e \<and> epos e = 512 * k)"
      using no [of i] i len by auto
    moreover have "epos (ents c ! j) \<noteq> 512 * k" if "j < CACHE_NENT" "j \<noteq> i" "evalid (ents c ! j)" for j
      using no [of j] that by auto
    ultimately have "blk d k = X"
      by (rule miss)
    with None show ?thesis by (simp add: cache_view_def)
  next
    case (Some j)
    then have j: "j < CACHE_NENT" "evalid (ents ?c ! j)" "epos (ents ?c ! j) = 512 * k"
      using find_entry_Some [OF inv'] by blast+
    then have "edata (ents ?c ! j) = X"
      using hit other [of j] i len by (cases "j = i") auto
    with Some show ?thesis by (simp add: cache_view_def)
  qed
qed

lemma writeback_ok:
  assumes inv: "cinv c" and i: "i < CACHE_NENT"
  obtains d where "writeback c i =
      Some (0, c\<lparr>cbkgio := (cbkgio c)\<lparr>dev := d\<rparr>, ents := (ents c)[i := (ents c ! i)
             \<lparr>edirty := edirty (ents c ! i) \<and> \<not> evalid (ents c ! i)\<rparr>]\<rparr>)"
    and "dinv d" "nblk d = cnblk c"
    and "cinv (c\<lparr>cbkgio := (cbkgio c)\<lparr>dev := d\<rparr>, ents := (ents c)[i := (ents c ! i)
             \<lparr>edirty := edirty (ents c ! i) \<and> \<not> evalid (ents c ! i)\<rparr>]\<rparr>)"
    and "cview (c\<lparr>cbkgio := (cbkgio c)\<lparr>dev := d\<rparr>, ents := (ents c)[i := (ents c ! i)
             \<lparr>edirty := edirty (ents c ! i) \<and> \<not> evalid (ents c ! i)\<rparr>]\<rparr>) = cview c"
proof (cases "evalid (ents c ! i) \<and> edirty (ents c ! i)")
  case False
  then have "(ents c)[i := (ents c ! i)\<lparr>edirty := edirty (ents c ! i) \<and> \<not> evalid (ents c ! i)\<rparr>] = ents c"
    by (cases "ents c ! i") (auto intro!: list_update_same_conv [THEN iffD2] simp: cache_invD(3) [OF inv] i)
  moreover have "(cbkgio c)\<lparr>dev := dev (cbkgio c)\<rparr> = cbkgio c" by simp
  ultimately have "c\<lparr>cbkgio := (cbkgio c)\<lparr>dev := dev (cbkgio c)\<rparr>, ents := (ents c)[i := (ents c ! i)
             \<lparr>edirty := edirty (ents c ! i) \<and> \<not> evalid (ents c ! i)\<rparr>]\<rparr> = c"
    by simp
  with False inv that [of "dev (cbkgio c)"] show ?thesis
    using cache_invD(2) [OF inv] by (auto simp: writeback_def Let_def)
next
  case True
  note D = cache_invD [OF inv]
  let ?e = "ents c ! i"
  obtain k where k: "k < cnblk c" "epos ?e = 512 * k" and len: "length (edata ?e) = 512"
    using D(4) [OF i] True by (auto simp: entry_ok_def)
  obtain d where io: "iowriteat (cbkgio c) (512 * k) (edata ?e) 512 = Some (512, (cbkgio c)\<lparr>dev := d\<rparr>)"
    and d: "dinv d" "nblk d = cnblk c" "blk d = (blk (dev (cbkgio c)))(k := edata ?e)"
    by (rule iowriteat_block [OF D(1,2) k(1) len])
  have far: "epos (ents c ! j) \<noteq> 512 * k" if "j < CACHE_NENT" "j \<noteq> i" "evalid (ents c ! j)" for j
    using D(5) [OF that(1) i that(3)] True that(2) k(2) by auto
  have kj: "epos (ents c ! j) div 512 \<noteq> k" if "j < CACHE_NENT" "j \<noteq> i" "evalid (ents c ! j)" for j
    using far [OF that] D(4) [OF that(1)] that(3) by (auto simp: entry_ok_def)
  let ?c = "c\<lparr>cbkgio := (cbkgio c)\<lparr>dev := d\<rparr>, ents := (ents c)[i := ?e\<lparr>edirty := edirty ?e \<and> \<not> evalid ?e\<rparr>]\<rparr>"
  have inv': "cinv ?c"
    by (rule cache_inv_update [OF inv i d(1,2)])
       (use D(4) [OF i] True k d kj far in \<open>auto simp: entry_ok_def\<close>)
  moreover have "cview ?c k' = cview c k'" for k'
  proof (rule view_update [OF inv i inv'])
    show "blk d k' = cview c k'"
      if "\<not> (evalid (?e\<lparr>edirty := edirty ?e \<and> \<not> evalid ?e\<rparr>) \<and>
             epos (?e\<lparr>edirty := edirty ?e \<and> \<not> evalid ?e\<rparr>) = 512 * k')"
        and "\<And>j. j < CACHE_NENT \<Longrightarrow> j \<noteq> i \<Longrightarrow> evalid (ents c ! j) \<Longrightarrow> epos (ents c ! j) \<noteq> 512 * k'"
    proof -
      have "find_entry c (512 * k') = None"
        unfolding find_entry_None [OF inv] using that by auto
      with that(1) k True d(3) show ?thesis by (auto simp: cache_view_def)
    qed
  qed (use view_entry [OF inv] i True in auto)
  moreover have "writeback c i = Some (0, ?c)"
    using True k io by (simp add: writeback_def CACHE_BLKSZ_def)
  ultimately show ?thesis
    using that [of d] d by blast
qed

text \<open>A victim is an entry nobody holds; there is one whenever the clients leave room.\<close>

lemma pick_victim_free:
  assumes "cinv c" and "pick_victim c = Some i"
  shows "i < CACHE_NENT" and "evalid (ents c ! i) \<Longrightarrow> erefcnt (ents c ! i) = 0"
  using assms(2) cache_invD(3) [OF assms(1)]
  by (auto simp: pick_victim_def dest: first_idx_SomeD split: option.splits)

lemma pick_victim_exists:
  assumes inv: "cinv c" and room: "pins_room 1 (cache_pins c)"
  obtains i where "pick_victim c = Some i"
proof -
  note D = cache_invD [OF inv]
  have "dom (cache_pins c) \<subseteq> {..<CACHE_NENT}"
    using pins_room_dom [of c] D(3) by auto
  moreover have "card (dom (cache_pins c)) < card {..<CACHE_NENT}"
    using room by (simp add: pins_room_def)
  ultimately obtain i where i: "i < CACHE_NENT" "cache_pins c i = None"
    by (metis domIff lessThan_iff less_irrefl subsetI subset_antisym)
  then have "\<not> evalid (ents c ! i) \<or> erefcnt (ents c ! i) = 0"
    using D(3) D(4) [OF i(1)] by (auto simp: cache_pins_def entry_ok_def split: if_splits)
  moreover have "ents c ! i \<in> set (ents c)"
    using i D(3) by simp
  ultimately have "pick_victim c \<noteq> None"
    by (auto simp: pick_victim_def first_idx_None split: option.splits intro!: first_idx_exists)
  with that show thesis by blast
qed

lemma pins_writeback:
  assumes "i < length (ents c)" and "evalid e = evalid (ents c ! i)" "epos e = epos (ents c ! i)"
    and "erefcnt e = erefcnt (ents c ! i)"
  shows "cache_pins (c\<lparr>cbkgio := io, ents := (ents c)[i := e]\<rparr>) = cache_pins c"
  using assms by (auto simp: cache_pins_def fun_eq_iff nth_list_update)

text \<open>The hit: the entry gains a reference.\<close>

lemma get_block_hit:
  assumes inv: "cinv c" and fe: "find_entry c (512 * k) = Some i"
  defines "c' \<equiv> c\<lparr>ents := (ents c)[i := (ents c ! i)\<lparr>erefcnt := erefcnt (ents c ! i) + 1\<rparr>]\<rparr>"
  shows "cache_get_block c (512 * k) = Some ((0, Some i), c')"
    and "cinv c'" and "cview c' = cview c" and "cache_pins c' = pin (cache_pins c) i k"
    and "cache_data c' i = cview c k"
    and "\<And>k' n. cache_pins c i = Some (k', n) \<Longrightarrow> k' = k \<and> n > 0"
proof -
  note D = cache_invD [OF inv]
  have i: "i < CACHE_NENT" "evalid (ents c ! i)" "epos (ents c ! i) = 512 * k"
    using fe find_entry_Some [OF inv] by blast+
  show "cache_get_block c (512 * k) = Some ((0, Some i), c')"
    using fe by (simp add: cache_get_block_def c'_def Let_def CACHE_BLKSZ_def)
  have c': "c' = c\<lparr>cbkgio := (cbkgio c)\<lparr>dev := dev (cbkgio c)\<rparr>,
                  ents := (ents c)[i := (ents c ! i)\<lparr>erefcnt := erefcnt (ents c ! i) + 1\<rparr>]\<rparr>"
    by (simp add: c'_def)
  show inv': "cinv c'" unfolding c'
    by (rule cache_inv_update [OF inv i(1) D(2) refl])
       (use D(4) [OF i(1)] D(5) i in \<open>auto simp: entry_ok_def\<close>)
  show "cview c' = cview c"
  proof
    fix k'
    show "cview c' k' = cview c k'" unfolding c'
    proof (rule view_update [OF inv i(1) inv' [unfolded c']])
      show "blk (dev (cbkgio c)) k' = cview c k'"
        if "\<not> (evalid ((ents c ! i)\<lparr>erefcnt := erefcnt (ents c ! i) + 1\<rparr>) \<and>
               epos ((ents c ! i)\<lparr>erefcnt := erefcnt (ents c ! i) + 1\<rparr>) = 512 * k')"
          and "\<And>j. j < CACHE_NENT \<Longrightarrow> j \<noteq> i \<Longrightarrow> evalid (ents c ! j) \<Longrightarrow> epos (ents c ! j) \<noteq> 512 * k'"
      proof -
        have "find_entry c (512 * k') = None"
          unfolding find_entry_None [OF inv] using that by auto
        then show ?thesis by (simp add: cache_view_def)
      qed
    qed (use view_entry [OF inv] i in auto)
  qed
  show "cache_pins c' = pin (cache_pins c) i k"
    using i D(3) D(4) [OF i(1)]
    by (auto simp: cache_pins_def c'_def pin_def fun_eq_iff entry_ok_def)
  show "cache_data c' i = cview c k"
    using view_entry [OF inv i] i D(3) by (simp add: cache_data_def c'_def)
  show "\<And>k' n. cache_pins c i = Some (k', n) \<Longrightarrow> k' = k \<and> n > 0"
    using i by (auto simp: cache_pins_def split: if_splits)
qed

text \<open>The miss, once the victim is clean: its entry is refilled from the device.\<close>

lemma get_block_refill:
  assumes inv: "cinv c" and i: "i < CACHE_NENT" and k: "k < cnblk c"
    and none: "find_entry c (512 * k) = None"
    and free: "evalid (ents c ! i) \<Longrightarrow> \<not> edirty (ents c ! i) \<and> erefcnt (ents c ! i) = 0"
  obtains d' where "ioreadat (cbkgio c) (512 * k) 512 = Some ((512, cview c k), (cbkgio c)\<lparr>dev := d'\<rparr>)"
    and "\<And>e. e = (ents c ! i)\<lparr>edata := cview c k, epos := 512 * k, evalid := True, edirty := False,
                            erefcnt := 1\<rparr> \<Longrightarrow>
           cinv (c\<lparr>cbkgio := (cbkgio c)\<lparr>dev := d'\<rparr>, ents := (ents c)[i := e]\<rparr>) \<and>
           cview (c\<lparr>cbkgio := (cbkgio c)\<lparr>dev := d'\<rparr>, ents := (ents c)[i := e]\<rparr>) = cview c \<and>
           cache_pins (c\<lparr>cbkgio := (cbkgio c)\<lparr>dev := d'\<rparr>, ents := (ents c)[i := e]\<rparr>) =
             pin (cache_pins c) i k"
    and "nblk d' = cnblk c"
proof -
  note D = cache_invD [OF inv]
  have v: "cview c k = blk (dev (cbkgio c)) k"
    using none by (simp add: cache_view_def)
  obtain d' where io: "ioreadat (cbkgio c) (512 * k) 512 = Some ((512, blk (dev (cbkgio c)) k), (cbkgio c)\<lparr>dev := d'\<rparr>)"
    and d: "dinv d'" "nblk d' = cnblk c" "blk d' = blk (dev (cbkgio c))"
    by (rule ioreadat_block [OF D(1,2) k])
  let ?e = "(ents c ! i)\<lparr>edata := cview c k, epos := 512 * k, evalid := True, edirty := False,
                         erefcnt := 1\<rparr>"
  let ?c = "c\<lparr>cbkgio := (cbkgio c)\<lparr>dev := d'\<rparr>, ents := (ents c)[i := ?e]\<rparr>"
  have no: "epos (ents c ! j) \<noteq> 512 * k" if "j < CACHE_NENT" "evalid (ents c ! j)" for j
    using none that find_entry_None [OF inv] by blast
  have inv': "cinv ?c"
    by (rule cache_inv_update [OF inv i d(1,2)])
       (use blk_len [OF D(2) k] v k d no in auto)
  have "cview ?c k' = cview c k'" for k'
  proof (rule view_update [OF inv i inv'])
    show "blk d' k' = cview c k'"
      if "\<not> (evalid ?e \<and> epos ?e = 512 * k')"
        and far: "\<And>j. j < CACHE_NENT \<Longrightarrow> j \<noteq> i \<Longrightarrow> evalid (ents c ! j) \<Longrightarrow> epos (ents c ! j) \<noteq> 512 * k'"
    proof (cases "evalid (ents c ! i) \<and> epos (ents c ! i) = 512 * k'")
      case True
      with free D(4) [OF i] view_entry [OF inv i] d show ?thesis
        by (auto simp: entry_ok_def)
    next
      case False
      have "find_entry c (512 * k') = None"
        unfolding find_entry_None [OF inv] using far False by auto
      with d show ?thesis by (simp add: cache_view_def)
    qed
  qed (use view_entry [OF inv] v in auto)
  moreover have "cache_pins ?c = pin (cache_pins c) i k"
    using i D(3) free by (auto simp: cache_pins_def pin_def fun_eq_iff)
  ultimately show thesis
    using that [of d'] io inv' v d(2) by auto
qed

text \<open>
  \<open>cache_get_block\<close> of a block of the device succeeds whenever some entry is not held, returns
  the current contents of the block, and changes nothing a client can see but the new reference.
\<close>

lemma get_block_ok:
  assumes inv: "cinv c" and k: "k < cnblk c" and room: "pins_room 1 (cache_pins c)"
  obtains i c' where "cache_get_block c (512 * k) = Some ((0, Some i), c')" "cinv c'" "cview c' = cview c"
    "cnblk c' = cnblk c" "cache_pins c' = pin (cache_pins c) i k" "cache_data c' i = cview c k"
    "\<And>k' n. cache_pins c i = Some (k', n) \<Longrightarrow> k' = k \<and> n > 0"
proof (cases "find_entry c (512 * k)")
  case (Some i)
  show thesis
    by (rule that [OF get_block_hit(1-3) [OF inv Some] _ get_block_hit(4-6) [OF inv Some]]) simp
next
  case None
  note D = cache_invD [OF inv]
  obtain i where pv: "pick_victim c = Some i"
    by (rule pick_victim_exists [OF inv room])
  note i = pick_victim_free [OF inv pv]
  let ?e = "ents c ! i"
  obtain d where wb: "writeback c i = Some (0, c\<lparr>cbkgio := (cbkgio c)\<lparr>dev := d\<rparr>,
        ents := (ents c)[i := ?e\<lparr>edirty := edirty ?e \<and> \<not> evalid ?e\<rparr>]\<rparr>)"
    and d: "dinv d" "nblk d = cnblk c"
    and inv1: "cinv (c\<lparr>cbkgio := (cbkgio c)\<lparr>dev := d\<rparr>,
        ents := (ents c)[i := ?e\<lparr>edirty := edirty ?e \<and> \<not> evalid ?e\<rparr>]\<rparr>)"
    and view1: "cview (c\<lparr>cbkgio := (cbkgio c)\<lparr>dev := d\<rparr>,
        ents := (ents c)[i := ?e\<lparr>edirty := edirty ?e \<and> \<not> evalid ?e\<rparr>]\<rparr>) = cview c"
    by (rule writeback_ok [OF inv i(1)])
  define c1 where "c1 = snd (the (if evalid ?e then writeback c i else Some (0, c)))"
  have wb1: "(if evalid ?e then writeback c i else Some (0, c)) = Some (0, c1)"
    using wb by (simp add: c1_def)
  have inv1': "cinv c1" and view1': "cview c1 = cview c" and n1: "cnblk c1 = cnblk c"
    and e1: "ents c1 ! i = ?e\<lparr>edirty := edirty ?e \<and> \<not> evalid ?e\<rparr> \<or> \<not> evalid ?e \<and> c1 = c"
    using wb inv inv1 view1 d i(1) D(3) by (auto simp: c1_def)
  have pins1: "cache_pins c1 = cache_pins c"
    using wb i(1) D(3) by (auto simp: c1_def intro!: pins_writeback)
  have "find_entry c1 (512 * k) = None"
  proof -
    have "length (ents c1) = length (ents c)"
      and "\<And>j. evalid (ents c1 ! j) = evalid (ents c ! j) \<and> epos (ents c1 ! j) = epos (ents c ! j)"
      using wb i(1) D(3) by (auto simp: c1_def nth_list_update)
    with None show ?thesis
      unfolding find_entry_None [OF inv1'] find_entry_None [OF inv] by simp
  qed
  moreover have "\<not> edirty (ents c1 ! i) \<and> erefcnt (ents c1 ! i) = 0" if "evalid (ents c1 ! i)"
    using that e1 i(2) by auto
  ultimately obtain d' where io: "ioreadat (cbkgio c1) (512 * k) 512 =
      Some ((512, cview c1 k), (cbkgio c1)\<lparr>dev := d'\<rparr>)" and nd: "nblk d' = cnblk c1"
    and new: "\<And>e. e = (ents c1 ! i)\<lparr>edata := cview c1 k, epos := 512 * k, evalid := True,
        edirty := False, erefcnt := 1\<rparr> \<Longrightarrow>
           cinv (c1\<lparr>cbkgio := (cbkgio c1)\<lparr>dev := d'\<rparr>, ents := (ents c1)[i := e]\<rparr>) \<and>
           cview (c1\<lparr>cbkgio := (cbkgio c1)\<lparr>dev := d'\<rparr>, ents := (ents c1)[i := e]\<rparr>) = cview c1 \<and>
           cache_pins (c1\<lparr>cbkgio := (cbkgio c1)\<lparr>dev := d'\<rparr>, ents := (ents c1)[i := e]\<rparr>) =
             pin (cache_pins c1) i k"
    using get_block_refill [OF inv1' i(1)] k n1 by metis
  have lens: "length (edata (ents c1 ! i)) = 512" "length (cview c k) = 512"
    using cache_invD(4) [OF inv1' i(1)] view_length [OF inv k] by (auto simp: entry_ok_def)
  then have "patch 0 (cview c k) (edata (ents c1 ! i)) = cview c k"
    by (simp add: patch_def)
  note same = this
  define c2 where "c2 = c1\<lparr>cbkgio := (cbkgio c1)\<lparr>dev := d'\<rparr>,
      ents := (ents c1)[i := (ents c1 ! i)\<lparr>edata := cview c1 k, epos := 512 * k, evalid := True,
        edirty := False, erefcnt := 1\<rparr>]\<rparr>"
  have "cache_get_block c (512 * k) = Some ((0, Some i), c2)"
    using None pv wb1 io view1' same
    by (simp add: cache_get_block_def CACHE_BLKSZ_def Let_def c2_def)
  moreover have "cache_pins c i = None"
    using i by (auto simp: cache_pins_def)
  moreover have "cinv c2 \<and> cview c2 = cview c \<and> cache_pins c2 = pin (cache_pins c) i k"
    using new [OF refl] view1' pins1 by (simp add: c2_def)
  moreover have "cnblk c2 = cnblk c" "cache_data c2 i = cview c k"
    using n1 nd i(1) cache_invD(3) [OF inv1'] view1' by (simp_all add: c2_def cache_data_def)
  ultimately show thesis
    using that [of i c2] by auto
qed

text \<open>Releasing a reference; a client that wrote through it releases it dirty.\<close>

lemma release_idx:
  assumes "i < length es" and "evalid (es ! i)"
  shows "first_idx (\<lambda>(j, e). evalid e \<and> j = i) (zip [0..<length es] es) = Some i"
  using assms by (auto simp: first_idx_Some)

lemma pinned_entry:
  assumes "cinv c" and "cache_pins c i = Some (k, n)"
  shows "i < CACHE_NENT" "evalid (ents c ! i)" "epos (ents c ! i) = 512 * k" "erefcnt (ents c ! i) = n"
    "n > 0" "k < cnblk c"
proof -
  have i: "i < CACHE_NENT" "evalid (ents c ! i)" "k = epos (ents c ! i) div 512"
    and n: "erefcnt (ents c ! i) = n" "n > 0"
    using assms(2) cache_invD(3) [OF assms(1)] by (auto simp: cache_pins_def split: if_splits)
  moreover obtain k' where "k' < cnblk c" "epos (ents c ! i) = 512 * k'"
    using cache_invD(4) [OF assms(1) i(1)] i(2) by (auto simp: entry_ok_def)
  ultimately show "i < CACHE_NENT" "evalid (ents c ! i)" "epos (ents c ! i) = 512 * k"
    "erefcnt (ents c ! i) = n" "n > 0" "k < cnblk c"
    by simp_all
qed

lemma release_put:
  assumes e: "i < length (ents c)" "evalid (ents c ! i)" "erefcnt (ents c ! i) > 0"
  shows "cache_release_block (cache_put c i data) (Some i) dirty =
     c\<lparr>cbkgio := (cbkgio c)\<lparr>dev := dev (cbkgio c)\<rparr>, ents := (ents c)[i := (ents c ! i)\<lparr>edata := data,
         edirty := edirty (ents c ! i) \<or> dirty, erefcnt := erefcnt (ents c ! i) - 1\<rparr>]\<rparr>"
proof -
  have "first_idx (\<lambda>(j, e). evalid e \<and> j = i)
          (zip [0..<length (ents c)] ((ents c)[i := (ents c ! i)\<lparr>edata := data\<rparr>])) = Some i"
    using release_idx [of i "(ents c)[i := (ents c ! i)\<lparr>edata := data\<rparr>]"] e by simp
  moreover have "(if dirty then (ents c ! i)\<lparr>edata := data, edirty := True\<rparr> else (ents c ! i)\<lparr>edata := data\<rparr>)
     = (ents c ! i)\<lparr>edata := data, edirty := edirty (ents c ! i) \<or> dirty\<rparr>"
    by simp
  ultimately show ?thesis
    using e by (simp add: cache_release_block_def cache_put_def Let_def)
qed

lemma release_gen:
  assumes inv: "cinv c" and p: "cache_pins c i = Some (k, n)" and len: "length data = 512"
    and clean: "\<not> dirty \<Longrightarrow> data = cview c k"
  defines "c' \<equiv> cache_release_block (cache_put c i data) (Some i) dirty"
  shows "cinv c'" and "cview c' = (cview c)(k := data)" and "cnblk c' = cnblk c"
    and "cache_pins c' = unpin (cache_pins c) i"
proof -
  note D = cache_invD [OF inv] and e = pinned_entry [OF inv p]
  let ?e = "(ents c ! i)\<lparr>edata := data, edirty := edirty (ents c ! i) \<or> dirty,
                         erefcnt := erefcnt (ents c ! i) - 1\<rparr>"
  have c': "c' = c\<lparr>cbkgio := (cbkgio c)\<lparr>dev := dev (cbkgio c)\<rparr>, ents := (ents c)[i := ?e]\<rparr>"
    unfolding c'_def by (rule release_put) (use e D(3) in auto)
  have far: "epos (ents c ! j) \<noteq> 512 * k" if "j < CACHE_NENT" "j \<noteq> i" "evalid (ents c ! j)" for j
    using D(5) [OF that(1) e(1) that(3) e(2)] that(2) e(3) by auto
  have v: "cview c k = edata (ents c ! i)"
    by (rule view_entry [OF inv e(1-3)])
  show inv': "cinv c'" unfolding c'
    by (rule cache_inv_update [OF inv e(1) D(2) refl])
       (use D(4) [OF e(1)] far e len clean v in \<open>auto simp: entry_ok_def\<close>)
  show "cview c' = (cview c)(k := data)"
  proof
    fix k'
    show "cview c' k' = ((cview c)(k := data)) k'" unfolding c'
    proof (rule view_update [OF inv e(1) inv' [unfolded c']])
      show "blk (dev (cbkgio c)) k' = ((cview c)(k := data)) k'"
        if "\<not> (evalid ?e \<and> epos ?e = 512 * k')"
          and "\<And>j. j < CACHE_NENT \<Longrightarrow> j \<noteq> i \<Longrightarrow> evalid (ents c ! j) \<Longrightarrow> epos (ents c ! j) \<noteq> 512 * k'"
      proof -
        have "find_entry c (512 * k') = None"
          unfolding find_entry_None [OF inv] using that by auto
        with that(1) e show ?thesis by (auto simp: cache_view_def)
      qed
    qed (use view_entry [OF inv] e far in auto)
  qed
  show "cnblk c' = cnblk c"
    by (simp add: c')
  show "cache_pins c' = unpin (cache_pins c) i"
    using e D(3) p by (auto simp: c' cache_pins_def unpin_def fun_eq_iff)
qed

lemma cache_put_same:
  assumes "i < length (ents c)"
  shows "cache_put c i (cache_data c i) = c"
  using assms by (simp add: cache_put_def cache_data_def list_update_same_conv)

lemma release_clean:
  assumes inv: "cinv c" and p: "cache_pins c i = Some (k, n)"
  defines "c' \<equiv> cache_release_block c (Some i) False"
  shows "cinv c'" and "cview c' = cview c" and "cnblk c' = cnblk c"
    and "cache_pins c' = unpin (cache_pins c) i"
proof -
  note e = pinned_entry [OF inv p]
  have d: "cache_data c i = cview c k"
    using view_entry [OF inv e(1-3)] by (simp add: cache_data_def)
  then have "cache_put c i (cview c k) = c"
    using cache_put_same [of i c] e(1) cache_invD(3) [OF inv] by simp
  with release_gen [OF inv p view_length [OF inv e(6)], of False]
  show "cinv c'" and "cview c' = cview c" and "cnblk c' = cnblk c"
    and "cache_pins c' = unpin (cache_pins c) i"
    by (simp_all add: c'_def)
qed

text \<open>A flush writes every dirty block back: afterwards the device holds the view.\<close>

lemma flush_loop_ok:
  assumes "cinv c" and "set is \<subseteq> {..<CACHE_NENT}"
  obtains c' where "flush_loop is c = Some (0, c')" "cinv c'" "cview c' = cview c" "cnblk c' = cnblk c"
    "cache_pins c' = cache_pins c"
    "\<And>i. i < CACHE_NENT \<Longrightarrow> evalid (ents c' ! i) = evalid (ents c ! i) \<and>
          (edirty (ents c' ! i) \<longrightarrow> edirty (ents c ! i)) \<and>
          (i \<in> set is \<longrightarrow> evalid (ents c' ! i) \<longrightarrow> \<not> edirty (ents c' ! i))"
  using assms
proof (induction "is" arbitrary: c thesis)
  case Nil
  then show ?case by auto
next
  case (Cons i "is")
  have i: "i < CACHE_NENT" and sub: "set is \<subseteq> {..<CACHE_NENT}"
    using Cons.prems(3) by auto
  let ?e = "(ents c ! i)\<lparr>edirty := edirty (ents c ! i) \<and> \<not> evalid (ents c ! i)\<rparr>"
  obtain d where wb: "writeback c i = Some (0, c\<lparr>cbkgio := (cbkgio c)\<lparr>dev := d\<rparr>, ents := (ents c)[i := ?e]\<rparr>)"
    and d: "dinv d" "nblk d = cnblk c"
    and inv1: "cinv (c\<lparr>cbkgio := (cbkgio c)\<lparr>dev := d\<rparr>, ents := (ents c)[i := ?e]\<rparr>)"
    and view1: "cview (c\<lparr>cbkgio := (cbkgio c)\<lparr>dev := d\<rparr>, ents := (ents c)[i := ?e]\<rparr>) = cview c"
    by (rule writeback_ok [OF Cons.prems(2) i])
  define c1 where "c1 = c\<lparr>cbkgio := (cbkgio c)\<lparr>dev := d\<rparr>, ents := (ents c)[i := ?e]\<rparr>"
  obtain c' where c': "flush_loop is c1 = Some (0, c')" "cinv c'" "cview c' = cview c1" "cnblk c' = cnblk c1"
    "cache_pins c' = cache_pins c1"
    and e: "\<And>j. j < CACHE_NENT \<Longrightarrow> evalid (ents c' ! j) = evalid (ents c1 ! j) \<and>
          (edirty (ents c' ! j) \<longrightarrow> edirty (ents c1 ! j)) \<and>
          (j \<in> set is \<longrightarrow> evalid (ents c' ! j) \<longrightarrow> \<not> edirty (ents c' ! j))"
    using Cons.IH [of c1] inv1 sub by (auto simp: c1_def)
  have len: "i < length (ents c)"
    using i cache_invD(3) [OF Cons.prems(2)] by simp
  show ?case
  proof (rule Cons.prems(1) [of c'])
    show "flush_loop (i # is) c = Some (0, c')"
      using wb c'(1) by (simp add: c1_def)
    show "cnblk c' = cnblk c" "cview c' = cview c"
      using c'(3,4) view1 d by (simp_all add: c1_def)
    show "cache_pins c' = cache_pins c"
      using c'(5) pins_writeback [OF len, of ?e] by (simp add: c1_def)
    show "evalid (ents c' ! j) = evalid (ents c ! j) \<and> (edirty (ents c' ! j) \<longrightarrow> edirty (ents c ! j)) \<and>
          (j \<in> set (i # is) \<longrightarrow> evalid (ents c' ! j) \<longrightarrow> \<not> edirty (ents c' ! j))"
      if "j < CACHE_NENT" for j
      using e [OF that] len by (cases "j = i") (auto simp: c1_def)
  qed (rule c'(2))
qed

lemma cache_flush_ok:
  assumes "cinv c"
  obtains c' where "cache_flush c = Some (0, c')" "cinv c'" "cview c' = cview c" "cnblk c' = cnblk c"
    "cache_pins c' = cache_pins c" "\<And>k. blk (dev (cbkgio c')) k = cview c k"
proof -
  obtain c' where c': "flush_loop [0..<CACHE_NENT] c = Some (0, c')" "cinv c'" "cview c' = cview c"
    "cnblk c' = cnblk c" "cache_pins c' = cache_pins c"
    and e: "\<And>i. i < CACHE_NENT \<Longrightarrow> evalid (ents c' ! i) = evalid (ents c ! i) \<and>
          (edirty (ents c' ! i) \<longrightarrow> edirty (ents c ! i)) \<and>
          (i \<in> set [0..<CACHE_NENT] \<longrightarrow> evalid (ents c' ! i) \<longrightarrow> \<not> edirty (ents c' ! i))"
    by (rule flush_loop_ok [OF assms, of "[0..<CACHE_NENT]"]) auto
  have "blk (dev (cbkgio c')) k = cview c' k" for k
  proof (cases "find_entry c' (512 * k)")
    case None
    then show ?thesis by (simp add: cache_view_def)
  next
    case (Some i)
    then have i: "i < CACHE_NENT" "evalid (ents c' ! i)" "epos (ents c' ! i) = 512 * k"
      using find_entry_Some [OF c'(2)] by blast+
    then show ?thesis
      using e [OF i(1)] cache_invD(4) [OF c'(2) i(1)] Some
      by (auto simp: entry_ok_def cache_view_def)
  qed
  with c' that [of c'] show thesis by (simp add: cache_flush_def)
qed

lemma create_cache_ok:
  assumes "create_cache alloc (Some io) = Inr c" and "intf io = f" and "dinv (dev io)"
  shows "cinv c" and "cview c = blk (dev io)" and "cache_pins c = Map.empty" and "cbkgio c = io"
proof -
  have c: "c = \<lparr>cbkgio = io, ents = replicate CACHE_NENT zero_entry\<rparr>"
    using assms(1) by (auto simp: create_cache_def split: if_splits)
  then show "cinv c"
    using assms(2,3) by (auto simp: cache_inv_def entry_ok_def zero_entry_def CACHE_BLKSZ_def)
  have "find_entry c p = None" for p
    by (auto simp: c find_entry_def first_idx_None zero_entry_def)
  then show "cview c = blk (dev io)"
    by (simp add: cache_view_def fun_eq_iff c)
  show "cache_pins c = Map.empty" "cbkgio c = io"
    by (auto simp: cache_pins_def c zero_entry_def fun_eq_iff)
qed

end

subsection \<open>The promise of the cache: an array of blocks with references\<close>

text \<open>
  The abstract state a client sees is the array of blocks \<open>V\<close> and the references \<open>P\<close> it holds.
  A client fetches a block, writes a block it holds and releases it dirty, releases it clean, or
  flushes. \<open>block_step\<close> is what each request may do to the abstract state, \<open>cache_exec\<close> what the
  code does. The entry that serves a fetch is the cache's choice.
\<close>

datatype cache_op = Fetch nat | Store nat "byte list" | Drop nat | Flush

type_synonym block_state = "(nat \<Rightarrow> byte list) \<times> (nat \<Rightarrow> (nat \<times> int) option)"

inductive block_step :: "nat \<Rightarrow> block_state \<Rightarrow> cache_op \<Rightarrow> block_state \<Rightarrow> bool" for n :: nat where
  fetch: "k < n \<Longrightarrow> (\<And>k' m. P i = Some (k', m) \<Longrightarrow> k' = k) \<Longrightarrow> block_step n (V, P) (Fetch k) (V, pin P i k)"
| store: "P i = Some (k, m) \<Longrightarrow> length bs = 512 \<Longrightarrow>
            block_step n (V, P) (Store i bs) (V(k := bs), unpin P i)"
| drop: "P i = Some (k, m) \<Longrightarrow> block_step n (V, P) (Drop i) (V, unpin P i)"
| flush: "block_step n (V, P) Flush (V, P)"

fun cache_exec :: "cache_op \<Rightarrow> 'd cache \<Rightarrow> (int \<times> 'd cache) option" where
  "cache_exec (Fetch k) c = map_option (\<lambda>((rc, _), c). (rc, c)) (cache_get_block c (512 * k))"
| "cache_exec (Store i bs) c = Some (0, cache_release_block (cache_put c i bs) (Some i) True)"
| "cache_exec (Drop i) c = Some (0, cache_release_block c (Some i) False)"
| "cache_exec Flush c = cache_flush c"

text \<open>When a request makes sense: the block exists and an entry is left for it, or the client holds it.\<close>

fun op_enabled :: "nat \<Rightarrow> block_state \<Rightarrow> cache_op \<Rightarrow> bool" where
  "op_enabled n (V, P) (Fetch k) \<longleftrightarrow> k < n \<and> pins_room 1 P"
| "op_enabled n (V, P) (Store i bs) \<longleftrightarrow> P i \<noteq> None \<and> length bs = 512"
| "op_enabled n (V, P) (Drop i) \<longleftrightarrow> P i \<noteq> None"
| "op_enabled n (V, P) Flush \<longleftrightarrow> True"

definition cache_abs :: "('d \<Rightarrow> nat \<Rightarrow> byte list) \<Rightarrow> 'd cache \<Rightarrow> block_state" where
  "cache_abs blk c = (cache_view blk c, cache_pins c)"

context block_device
begin

lemma exec_sim:
  assumes inv: "cinv c" and en: "op_enabled (cnblk c) (cache_abs blk c) op"
  obtains c' where "cache_exec op c = Some (0, c')" "cinv c'" "cnblk c' = cnblk c"
    "block_step (cnblk c) (cache_abs blk c) op (cache_abs blk c')"
proof (cases op)
  case (Fetch k)
  then have k: "k < cnblk c" "pins_room 1 (cache_pins c)"
    using en by (simp_all add: cache_abs_def)
  obtain i c' where "cache_get_block c (512 * k) = Some ((0, Some i), c')" "cinv c'" "cview c' = cview c"
    "cnblk c' = cnblk c" "cache_pins c' = pin (cache_pins c) i k"
    "\<And>k' n. cache_pins c i = Some (k', n) \<Longrightarrow> k' = k \<and> n > 0"
    by (rule get_block_ok [OF inv k]) blast
  then show thesis
    using that [of c'] Fetch k by (auto simp: cache_abs_def intro!: block_step.fetch)
next
  case (Store i bs)
  then obtain k m where p: "cache_pins c i = Some (k, m)" and len: "length bs = 512"
    using en by (auto simp: cache_abs_def)
  have "block_step (cnblk c) (cview c, cache_pins c) (Store i bs)
      ((cview c)(k := bs), unpin (cache_pins c) i)"
    by (rule block_step.store [where m = m]) (fact p len)+
  then show thesis
    using that release_gen [OF inv p len, of True] Store by (simp add: cache_abs_def)
next
  case (Drop i)
  then obtain k m where p: "cache_pins c i = Some (k, m)"
    using en by (auto simp: cache_abs_def)
  have "block_step (cnblk c) (cview c, cache_pins c) (Drop i) (cview c, unpin (cache_pins c) i)"
    by (rule block_step.drop [where m = m and k = k]) (fact p)
  then show thesis
    using that release_clean [OF inv p] Drop by (simp add: cache_abs_def)
next
  case Flush
  obtain c' where "cache_flush c = Some (0, c')" "cinv c'" "cview c' = cview c" "cnblk c' = cnblk c"
    "cache_pins c' = cache_pins c"
    by (rule cache_flush_ok [OF inv])
  then show thesis
    using that [of c'] Flush by (simp add: cache_abs_def block_step.flush)
qed

end

subsection \<open>Properties\<close>

text \<open>A memory endpoint of two zero blocks under a fresh cache, for the witnesses.\<close>

definition demo_io :: "memio io" where
  "demo_io = ioinit1 \<lparr>mbuf = replicate 1024 0, msize = 1024, mlive = True\<rparr> memio_iointf"

definition demo_cache :: "memio cache" where
  "demo_cache = \<lparr>cbkgio = demo_io, ents = replicate CACHE_NENT zero_entry\<rparr>"

lemma demo_cache_created: "create_cache (\<lambda>_. True) (Some demo_io) = Inr demo_cache"
  by (simp add: create_cache_def demo_cache_def list_all_iff)

lemma demo_io_facts: "intf demo_io = memio_iointf" "memio_wf (dev demo_io)" "mem_nblk (dev demo_io) = 2"
  by (simp_all add: demo_io_def ioinit1_def memio_wf_def mem_nblk_def)

lemmas demo_cache_facts =
  memdev.create_cache_ok [OF demo_cache_created demo_io_facts(1,2)]

lemma demo_room: "pins_room 1 (cache_pins demo_cache)"
  by (simp add: demo_cache_facts pins_room_def CACHE_NENT_def)

text \<open>
  C1: The cache refines an array of blocks. Over any backing endpoint that is a block device, in
  every state of the invariant, each enabled request (fetch of an existing block while an entry is
  free of references, write-and-release or release of a held block, flush) returns 0, keeps the
  invariant, and changes the blocks and references its clients see by exactly the abstract step,
  whatever entries it evicts and writes back on the way.
\<close>

theorem cache_refines_blocks:
  assumes "block_device f dinv nblk blk" and "cache_inv f dinv nblk blk c"
    and "op_enabled (nblk (dev (cbkgio c))) (cache_abs blk c) op"
  shows "\<exists>c'. cache_exec op c = Some (0, c') \<and> cache_inv f dinv nblk blk c' \<and>
    block_step (nblk (dev (cbkgio c))) (cache_abs blk c) op (cache_abs blk c')"
  using block_device.exec_sim [OF assms] by blast

theorem cache_refines_blocks_witness:
  "\<exists>c'. cache_exec (Fetch 1) demo_cache = Some (0, c') \<and>
     cache_inv memio_iointf memio_wf mem_nblk mem_blk c' \<and>
     block_step 2 (cache_abs mem_blk demo_cache) (Fetch 1) (cache_abs mem_blk c')"
  using cache_refines_blocks [OF memdev.block_device_axioms demo_cache_facts(1), of "Fetch 1"] demo_room
  by (simp add: cache_abs_def demo_cache_facts demo_io_facts)

text \<open>
  \<open>cache_get_block\<close> hands out the current contents: for a block inside the device and with an
  entry free of references, it returns 0 and a pointer to an entry whose data is the block as
  clients see it (the latest write to it, cached or not), and no block changes.
\<close>

theorem cache_get_block_current:
  assumes "block_device f dinv nblk blk" and "cache_inv f dinv nblk blk c"
    and "k < nblk (dev (cbkgio c))" and "pins_room 1 (cache_pins c)"
  shows "\<exists>i c'. cache_get_block c (512 * k) = Some ((0, Some i), c') \<and>
    cache_data c' i = cache_view blk c k \<and> cache_view blk c' = cache_view blk c \<and>
    cache_pins c' = pin (cache_pins c) i k"
  using block_device.get_block_ok [OF assms] by metis

theorem cache_get_block_current_witness:
  "\<exists>i c'. cache_get_block demo_cache 512 = Some ((0, Some i), c') \<and> cache_data c' i = replicate 512 0"
  using cache_get_block_current
    [OF memdev.block_device_axioms demo_cache_facts(1) _ demo_room, of 1]
  by (auto simp: demo_cache_facts demo_io_facts mem_blk_def mem_nblk_def demo_io_def ioinit1_def seg_def)

text \<open>
  C2: \<open>cache_flush\<close> makes the device current: it returns 0, no block a client sees changes, no
  reference is lost, and afterwards every block of the device holds what clients see.
\<close>

theorem cache_flush_durable:
  assumes "block_device f dinv nblk blk" and "cache_inv f dinv nblk blk c"
  shows "\<exists>c'. cache_flush c = Some (0, c') \<and> cache_inv f dinv nblk blk c' \<and>
    cache_view blk c' = cache_view blk c \<and> cache_pins c' = cache_pins c \<and>
    blk (dev (cbkgio c')) = cache_view blk c"
  using block_device.cache_flush_ok [OF assms] by (metis ext)

theorem cache_flush_durable_witness:
  "\<exists>c'. cache_flush demo_cache = Some (0, c') \<and> mem_blk (dev (cbkgio c')) = mem_blk (dev demo_io)"
  using cache_flush_durable [OF memdev.block_device_axioms demo_cache_facts(1)]
  by (auto simp: demo_cache_facts)

end
