(* ===== verification/Ktfs.thy ===== *)
theory Ktfs
  imports Cache
begin

text \<open>
  The file system of kernel/ktfs.c and kernel/ktfs.h, function by function. The globals that
  \<open>ktfs_mount\<close> reads from the superblock are the record \<open>geom\<close>; they, the cache and the table of
  open files make the record \<open>ktfs\<close>. The static functions only read the globals and change the
  cache, so they take both and return the cache. A function that returns 0 and a value through a
  pointer, or an error code, returns \<open>Inr\<close> or \<open>Inl\<close>. A file name is the list of its bytes
  before the terminating zero. \<open>None\<close> is a kernel stopped by an access through a null block
  pointer (a \<open>cache_get_block\<close> that returned 0 without storing one).
\<close>

unbundle bit_operations_syntax

subsection \<open>On-disk structures\<close>

definition KTFS_BLKSZ :: nat where "KTFS_BLKSZ = 512"
definition KTFS_INOSZ :: nat where "KTFS_INOSZ = 32"
definition KTFS_DENSZ :: nat where "KTFS_DENSZ = 16"
definition KTFS_MAX_FILENAME_LEN :: nat where "KTFS_MAX_FILENAME_LEN = 13"
definition KTFS_NUM_DIRECT_DATA_BLOCKS :: nat where "KTFS_NUM_DIRECT_DATA_BLOCKS = 3"
definition KTFS_NUM_DINDIRECT_BLOCKS :: nat where "KTFS_NUM_DINDIRECT_BLOCKS = 2"
definition KTFS_PTRS_PER_BLOCK :: nat where "KTFS_PTRS_PER_BLOCK = 128"
definition KTFS_MAX_OPEN :: nat where "KTFS_MAX_OPEN = 16"

lemmas ktfs_consts =
  KTFS_BLKSZ_def KTFS_INOSZ_def KTFS_DENSZ_def KTFS_MAX_FILENAME_LEN_def
  KTFS_NUM_DIRECT_DATA_BLOCKS_def KTFS_NUM_DINDIRECT_BLOCKS_def KTFS_PTRS_PER_BLOCK_def
  KTFS_MAX_OPEN_def

record ktfs_inode =
  isize :: nat
  iflags :: nat
  iblock :: "nat list"
  iindirect :: nat
  idindirect :: "nat list"

record ktfs_dir_entry =
  de_inode :: nat
  de_name :: "byte list"

text \<open>The packed layouts: an inode is eight 32-bit words, a directory entry a 16-bit word and 14 bytes.\<close>

definition decode_inode :: "byte list \<Rightarrow> ktfs_inode" where
  "decode_inode bs =
     \<lparr>isize = le_nat (seg 0 4 bs), iflags = le_nat (seg 4 4 bs),
      iblock = map (\<lambda>i. le_nat (seg (8 + 4 * i) 4 bs)) [0..<3],
      iindirect = le_nat (seg 20 4 bs),
      idindirect = map (\<lambda>i. le_nat (seg (24 + 4 * i) 4 bs)) [0..<2]\<rparr>"

definition encode_inode :: "ktfs_inode \<Rightarrow> byte list" where
  "encode_inode ino =
     nat_le 4 (isize ino) @ nat_le 4 (iflags ino) @ concat (map (nat_le 4) (iblock ino)) @
     nat_le 4 (iindirect ino) @ concat (map (nat_le 4) (idindirect ino))"

definition zero_inode :: ktfs_inode where
  "zero_inode = \<lparr>isize = 0, iflags = 0, iblock = [0, 0, 0], iindirect = 0, idindirect = [0, 0]\<rparr>"

definition decode_dentry :: "byte list \<Rightarrow> ktfs_dir_entry" where
  "decode_dentry bs = \<lparr>de_inode = le_nat (seg 0 2 bs), de_name = seg 2 14 bs\<rparr>"

definition encode_dentry :: "ktfs_dir_entry \<Rightarrow> byte list" where
  "encode_dentry de = nat_le 2 (de_inode de) @ de_name de"

text \<open>A block read as an array of 32-bit block numbers.\<close>

definition arr_get :: "byte list \<Rightarrow> nat \<Rightarrow> nat" where
  "arr_get d l = le_nat (seg (4 * l) 4 d)"

definition arr_set :: "byte list \<Rightarrow> nat \<Rightarrow> nat \<Rightarrow> byte list" where
  "arr_set d l v = patch (4 * l) (nat_le 4 v) d"

subsection \<open>Globals\<close>

record geom =
  g_block_count :: nat
  g_bitmap_block_count :: nat
  g_inode_block_count :: nat
  g_root_inode_idx :: nat
  g_first_inode_block :: nat
  g_first_data_block :: nat

record ktfs_file =
  kf_inode_idx :: nat
  kf_size :: nat
  kf_in_use :: bool
  kf_name :: "byte list"

record 'd ktfs =
  g_cache :: "'d cache option"
  g_geom :: geom
  g_open_files :: "ktfs_file list"

subsection \<open>One block at a time\<close>

text \<open>
  Most uses of the cache have one shape: get a block (on an error return \<open>err\<close>), look at its
  data, release it clean, or write its data and release it dirty. \<open>body\<close> computes from the data
  the result and, if the block is written, its new contents.
\<close>

definition with_block ::
  "'d cache \<Rightarrow> nat \<Rightarrow> 'a \<Rightarrow> (byte list \<Rightarrow> 'a \<times> byte list option) \<Rightarrow> ('a \<times> 'd cache) option"
where
  "with_block c pos err body =
     do {
       ((rc, blk), c) \<leftarrow> cache_get_block c pos;
       if rc \<noteq> 0 then Some (err, c)
       else do {
         i \<leftarrow> blk;
         case body (cache_data c i) of
           (r, None) \<Rightarrow> Some (r, cache_release_block c (Some i) False)
         | (r, Some data) \<Rightarrow> Some (r, cache_release_block (cache_put c i data) (Some i) True)
       }
     }"

subsection \<open>Inodes and block lookup\<close>

definition read_inode :: "geom \<Rightarrow> nat \<Rightarrow> 'd cache \<Rightarrow> ((int + ktfs_inode) \<times> 'd cache) option" where
  "read_inode G inode_idx c =
     (let per_block = KTFS_BLKSZ div KTFS_INOSZ;
          blk_index = u32 (g_first_inode_block G + inode_idx div per_block);
          blk_off = (inode_idx mod per_block) * KTFS_INOSZ
      in with_block c (blk_index * KTFS_BLKSZ) (Inl (- EIO))
           (\<lambda>d. (Inr (decode_inode (seg blk_off KTFS_INOSZ d)), None)))"

definition write_inode :: "geom \<Rightarrow> nat \<Rightarrow> ktfs_inode \<Rightarrow> 'd cache \<Rightarrow> (int \<times> 'd cache) option" where
  "write_inode G inode_idx ino c =
     (let per_block = KTFS_BLKSZ div KTFS_INOSZ;
          blk_index = u32 (g_first_inode_block G + inode_idx div per_block);
          blk_off = (inode_idx mod per_block) * KTFS_INOSZ
      in with_block c (blk_index * KTFS_BLKSZ) (- EIO)
           (\<lambda>d. (0, Some (patch blk_off (encode_inode ino) d))))"

definition data_blk_to_pos :: "geom \<Rightarrow> nat \<Rightarrow> nat" where
  "data_blk_to_pos G data_blk_idx = u32 (g_first_data_block G + data_blk_idx) * KTFS_BLKSZ"

definition resolve_block :: "geom \<Rightarrow> ktfs_inode \<Rightarrow> nat \<Rightarrow> 'd cache \<Rightarrow> ((int + nat) \<times> 'd cache) option" where
  "resolve_block G ino logical_blk c =
     (if logical_blk < KTFS_NUM_DIRECT_DATA_BLOCKS then Some (Inr (iblock ino ! logical_blk), c)
      else let l = logical_blk - KTFS_NUM_DIRECT_DATA_BLOCKS
      in if l < KTFS_PTRS_PER_BLOCK
         then with_block c (data_blk_to_pos G (iindirect ino)) (Inl (- EIO))
                (\<lambda>d. (Inr (arr_get d l), None))
         else let l = l - KTFS_PTRS_PER_BLOCK;
                  per_indirect = KTFS_PTRS_PER_BLOCK;
                  per_dind = per_indirect * KTFS_PTRS_PER_BLOCK
         in if l \<ge> per_dind * KTFS_NUM_DINDIRECT_BLOCKS then Some (Inl (- EINVAL), c)
            else let which_dind = l div per_dind; into_dind = l mod per_dind;
                     which_ind = into_dind div per_indirect; into_ind = into_dind mod per_indirect
            in do {
                 (r, c) \<leftarrow> with_block c (data_blk_to_pos G (idindirect ino ! which_dind)) (Inl (- EIO))
                             (\<lambda>d. (Inr (arr_get d which_ind), None));
                 case r of
                   Inl rc \<Rightarrow> Some (Inl rc, c)
                 | Inr indirect_blk \<Rightarrow>
                     with_block c (data_blk_to_pos G indirect_blk) (Inl (- EIO))
                       (\<lambda>d. (Inr (arr_get d into_ind), None))
               })"

definition data_block_for_offset ::
  "geom \<Rightarrow> ktfs_inode \<Rightarrow> nat \<Rightarrow> 'd cache \<Rightarrow> ((int + nat) \<times> 'd cache) option"
where
  "data_block_for_offset G ino byte_off c = resolve_block G ino (u32 (byte_off div KTFS_BLKSZ)) c"

subsection \<open>The allocation bitmap\<close>

text \<open>
  The scan of one bitmap block: \<open>Found byte bt n\<close> is the first clear bit of a data block, with
  the number \<open>n\<close> of the block; \<open>Beyond\<close> says that the first clear bit lies past the end of the
  device. Bytes with every bit set are skipped at once.
\<close>

datatype bitmap_scan = NotFound | Beyond | Found nat nat nat | Unreadable

fun scan_bits :: "geom \<Rightarrow> nat \<Rightarrow> nat \<Rightarrow> byte \<Rightarrow> nat list \<Rightarrow> bitmap_scan" where
  "scan_bits G bmp_blk byte b [] = NotFound"
| "scan_bits G bmp_blk byte b (bt # bits) =
     (if b AND push_bit bt 1 \<noteq> 0 then scan_bits G bmp_blk byte b bits
      else let blk_num = u32 (bmp_blk * KTFS_BLKSZ * 8 + byte * 8 + bt)
           in if blk_num < g_first_data_block G then scan_bits G bmp_blk byte b bits
              else if blk_num \<ge> g_block_count G then Beyond
              else Found byte bt blk_num)"

fun scan_bytes :: "geom \<Rightarrow> nat \<Rightarrow> nat \<Rightarrow> byte list \<Rightarrow> bitmap_scan" where
  "scan_bytes G bmp_blk byte [] = NotFound"
| "scan_bytes G bmp_blk byte (b # bs) =
     (if b = 255 then scan_bytes G bmp_blk (Suc byte) bs
      else case scan_bits G bmp_blk byte b [0..<8] of
             NotFound \<Rightarrow> scan_bytes G bmp_blk (Suc byte) bs
           | r \<Rightarrow> r)"

fun alloc_loop :: "geom \<Rightarrow> nat list \<Rightarrow> 'd cache \<Rightarrow> ((int + nat) \<times> 'd cache) option" where
  "alloc_loop G [] c = Some (Inl (- ENOMEM), c)"
| "alloc_loop G (bmp_blk # rest) c =
     do {
       (r, c) \<leftarrow> with_block c ((1 + bmp_blk) * KTFS_BLKSZ) Unreadable
         (\<lambda>bytes. case scan_bytes G bmp_blk 0 bytes of
            Found byte bt n \<Rightarrow> (Found byte bt n, Some (bytes[byte := bytes ! byte OR push_bit bt 1]))
          | r \<Rightarrow> (r, None));
       case r of
         Unreadable \<Rightarrow> Some (Inl (- EIO), c)
       | Beyond \<Rightarrow> Some (Inl (- ENOMEM), c)
       | NotFound \<Rightarrow> alloc_loop G rest c
       | Found byte bt blk_num \<Rightarrow>
           with_block c (blk_num * KTFS_BLKSZ) (Inl (- EIO))
             (\<lambda>_. (Inr (blk_num - g_first_data_block G), Some (replicate KTFS_BLKSZ 0)))
     }"

definition alloc_data_block :: "geom \<Rightarrow> 'd cache \<Rightarrow> ((int + nat) \<times> 'd cache) option" where
  "alloc_data_block G c = alloc_loop G [0..<g_bitmap_block_count G] c"

definition free_data_block :: "geom \<Rightarrow> nat \<Rightarrow> 'd cache \<Rightarrow> (int \<times> 'd cache) option" where
  "free_data_block G data_blk_idx c =
     (let blk_num = u32 (g_first_data_block G + data_blk_idx);
          byte = (blk_num div 8) mod KTFS_BLKSZ;
          bmp_blk = (blk_num div 8) div KTFS_BLKSZ;
          bt = blk_num mod 8
      in if bmp_blk \<ge> g_bitmap_block_count G then Some (- EINVAL, c)
         else with_block c ((1 + bmp_blk) * KTFS_BLKSZ) (- EIO)
                (\<lambda>d. (0, Some (d[byte := d ! byte AND NOT (push_bit bt 1)]))))"

subsection \<open>Lookup with allocation\<close>

text \<open>
  The last level of \<open>resolve_or_alloc\<close>, which the code has twice: entry \<open>l\<close> of the pointer
  block \<open>ind\<close>, allocated when it is 0. The pointer block stays held during the allocation.
\<close>

definition resolve_leaf :: "geom \<Rightarrow> nat \<Rightarrow> nat \<Rightarrow> bool \<Rightarrow> 'd cache \<Rightarrow> ((int + nat) \<times> 'd cache) option" where
  "resolve_leaf G ind l alloc c =
     do {
       ((rc, iblk), c) \<leftarrow> cache_get_block c (data_blk_to_pos G ind);
       if rc \<noteq> 0 then Some (Inl (- EIO), c)
       else do {
         i \<leftarrow> iblk;
         let v = arr_get (cache_data c i) l;
         if v \<noteq> 0 then Some (Inr v, cache_release_block c (Some i) False)
         else if \<not> alloc then Some (Inl (- EINVAL), cache_release_block c (Some i) False)
         else do {
           (r, c) \<leftarrow> alloc_data_block G c;
           case r of
             Inl rc \<Rightarrow> Some (Inl rc, cache_release_block c (Some i) False)
           | Inr new_blk \<Rightarrow>
               Some (Inr new_blk,
                 cache_release_block (cache_put c i (arr_set (cache_data c i) l new_blk)) (Some i) True)
         }
       }
     }"

text \<open>The middle level: entry \<open>l\<close> of the doubly-indirect block, allocated when it is 0.\<close>

definition resolve_middle :: "geom \<Rightarrow> nat \<Rightarrow> nat \<Rightarrow> bool \<Rightarrow> 'd cache \<Rightarrow> ((int + nat) \<times> 'd cache) option" where
  "resolve_middle G dind l alloc c =
     do {
       ((rc, dblk), c) \<leftarrow> cache_get_block c (data_blk_to_pos G dind);
       if rc \<noteq> 0 then Some (Inl (- EIO), c)
       else do {
         i \<leftarrow> dblk;
         (r, c) \<leftarrow>
           (if arr_get (cache_data c i) l = 0
            then if \<not> alloc then Some (Inl (- EINVAL), cache_release_block c (Some i) False)
                 else do {
                   (r, c) \<leftarrow> alloc_data_block G c;
                   case r of
                     Inl rc \<Rightarrow> Some (Inl rc, cache_release_block c (Some i) False)
                   | Inr new_blk \<Rightarrow>
                       Some (Inr (), cache_release_block
                               (cache_put c i (arr_set (cache_data c i) l new_blk)) (Some i) True)
                 }
            else Some (Inr (), cache_release_block c (Some i) False));
         case r of
           Inl rc \<Rightarrow> Some (Inl rc, c)
         | Inr _ \<Rightarrow> with_block c (data_blk_to_pos G dind) (Inl (- EIO)) (\<lambda>d. (Inr (arr_get d l), None))
       }
     }"

text \<open>A pointer held in the inode itself (0 when there is none yet).\<close>

definition resolve_root :: "geom \<Rightarrow> nat \<Rightarrow> bool \<Rightarrow> 'd cache \<Rightarrow> ((int + nat) \<times> 'd cache) option" where
  "resolve_root G ptr alloc c =
     (if ptr \<noteq> 0 then Some (Inr ptr, c)
      else if \<not> alloc then Some (Inl (- EINVAL), c)
      else alloc_data_block G c)"

definition resolve_or_alloc ::
  "geom \<Rightarrow> ktfs_inode \<Rightarrow> nat \<Rightarrow> bool \<Rightarrow> 'd cache \<Rightarrow> (((int + nat) \<times> ktfs_inode) \<times> 'd cache) option"
where
  "resolve_or_alloc G ino logical_blk alloc c =
     (let allocated_blocks = u32 (isize ino + KTFS_BLKSZ - 1) div KTFS_BLKSZ
      in if logical_blk < KTFS_NUM_DIRECT_DATA_BLOCKS
         then if logical_blk < allocated_blocks then Some ((Inr (iblock ino ! logical_blk), ino), c)
              else if \<not> alloc then Some ((Inl (- EINVAL), ino), c)
              else do {
                (r, c) \<leftarrow> alloc_data_block G c;
                case r of
                  Inl rc \<Rightarrow> Some ((Inl rc, ino), c)
                | Inr new_blk \<Rightarrow>
                    let ino = ino\<lparr>iblock := (iblock ino)[logical_blk := new_blk]\<rparr>;
                        end_pos = (logical_blk + 1) * KTFS_BLKSZ;
                        ino = (if end_pos > isize ino then ino\<lparr>isize := end_pos\<rparr> else ino)
                    in Some ((Inr new_blk, ino), c)
              }
         else let l = logical_blk - KTFS_NUM_DIRECT_DATA_BLOCKS
         in if l < KTFS_PTRS_PER_BLOCK
            then do {
              (r, c) \<leftarrow> resolve_root G (iindirect ino) alloc c;
              case r of
                Inl rc \<Rightarrow> Some ((Inl rc, ino), c)
              | Inr ind \<Rightarrow> do {
                  let ino = ino\<lparr>iindirect := ind\<rparr>;
                  (r, c) \<leftarrow> resolve_leaf G ind l alloc c;
                  Some ((r, ino), c)
                }
            }
            else let l = l - KTFS_PTRS_PER_BLOCK;
                     per_dind = KTFS_PTRS_PER_BLOCK * KTFS_PTRS_PER_BLOCK
            in if l \<ge> per_dind * KTFS_NUM_DINDIRECT_BLOCKS then Some ((Inl (- EINVAL), ino), c)
               else let which_dind = l div per_dind; into_dind = l mod per_dind;
                        which_ind = into_dind div KTFS_PTRS_PER_BLOCK;
                        into_ind = into_dind mod KTFS_PTRS_PER_BLOCK
               in do {
                 (r, c) \<leftarrow> resolve_root G (idindirect ino ! which_dind) alloc c;
                 case r of
                   Inl rc \<Rightarrow> Some ((Inl rc, ino), c)
                 | Inr dind \<Rightarrow> do {
                     let ino = ino\<lparr>idindirect := (idindirect ino)[which_dind := dind]\<rparr>;
                     (r, c) \<leftarrow> resolve_middle G dind which_ind alloc c;
                     case r of
                       Inl rc \<Rightarrow> Some ((Inl rc, ino), c)
                     | Inr ind_blk \<Rightarrow> do {
                         (r, c) \<leftarrow> resolve_leaf G ind_blk into_ind alloc c;
                         Some ((r, ino), c)
                       }
                   }
               })"

subsection \<open>Directory lookup\<close>

text \<open>
  The comparison of a stored name with a C string: at most 14 bytes, up to the common terminator.
\<close>

fun name_match :: "byte list \<Rightarrow> byte list \<Rightarrow> bool" where
  "name_match [] name = True"
| "name_match (a # as) name =
     (let b = (case name of [] \<Rightarrow> 0 | x # _ \<Rightarrow> x)
      in if a \<noteq> b then False else if a = 0 then True else name_match as (tl name))"

fun find_dentry_loop ::
  "geom \<Rightarrow> ktfs_inode \<Rightarrow> byte list \<Rightarrow> nat list \<Rightarrow> 'd cache \<Rightarrow> ((int + nat) \<times> 'd cache) option"
where
  "find_dentry_loop G root name [] c = Some (Inl (- ENOENT), c)"
| "find_dentry_loop G root name (d # ds) c =
     (let byte_off = d * KTFS_DENSZ
      in do {
        (r, c) \<leftarrow> resolve_block G root (u32 (byte_off div KTFS_BLKSZ)) c;
        case r of
          Inl _ \<Rightarrow> Some (Inl (- EIO), c)
        | Inr blk \<Rightarrow> do {
            (r, c) \<leftarrow> with_block c (data_blk_to_pos G blk) (Inl (- EIO))
              (\<lambda>dblk. let de = decode_dentry (seg (byte_off mod KTFS_BLKSZ) KTFS_DENSZ dblk)
                      in (Inr (if name_match (de_name de) name then Some (de_inode de) else None), None));
            case r of
              Inl rc \<Rightarrow> Some (Inl rc, c)
            | Inr (Some inode) \<Rightarrow> Some (Inr inode, c)
            | Inr None \<Rightarrow> find_dentry_loop G root name ds c
          }
      })"

definition find_dentry :: "geom \<Rightarrow> byte list \<Rightarrow> 'd cache \<Rightarrow> ((int + nat) \<times> 'd cache) option" where
  "find_dentry G name c =
     do {
       (r, c) \<leftarrow> read_inode G (g_root_inode_idx G) c;
       case r of
         Inl rc \<Rightarrow> Some (Inl rc, c)
       | Inr root \<Rightarrow> find_dentry_loop G root name [0..<isize root div KTFS_DENSZ] c
     }"

subsection \<open>Mounting, opening and closing\<close>

definition mount_geom :: "byte list \<Rightarrow> geom" where
  "mount_geom sb =
     (let block_count = le_nat (seg 0 4 sb); bitmap = le_nat (seg 4 4 sb);
          inodes = le_nat (seg 8 4 sb); root = le_nat (seg 12 2 sb)
      in \<lparr>g_block_count = block_count, g_bitmap_block_count = bitmap, g_inode_block_count = inodes,
          g_root_inode_idx = root, g_first_inode_block = u32 (1 + bitmap),
          g_first_data_block = u32 (u32 (1 + bitmap) + inodes)\<rparr>)"

text \<open>\<open>io = None\<close> is the null endpoint; \<open>alloc\<close> the outcomes of the allocations of \<open>create_cache\<close>.\<close>

definition ktfs_mount ::
  "(nat \<Rightarrow> bool) \<Rightarrow> 'd io option \<Rightarrow> 'd ktfs \<Rightarrow> (int \<times> 'd ktfs) option"
where
  "ktfs_mount alloc io fs =
     (if io = None then Some (- EINVAL, fs)
      else case create_cache alloc io of
        Inl _ \<Rightarrow> Some (- EIO, fs)
      | Inr c \<Rightarrow> do {
          (r, c) \<leftarrow> with_block c 0 None (\<lambda>sb. (Some (mount_geom sb), None));
          case r of
            None \<Rightarrow> Some (- EIO, fs\<lparr>g_cache := Some c\<rparr>)
          | Some g \<Rightarrow>
              Some (0, fs\<lparr>g_cache := Some c, g_geom := g,
                         g_open_files := map (\<lambda>f. f\<lparr>kf_in_use := False\<rparr>) (g_open_files fs)\<rparr>)
        })"

definition ktfs_open ::
  "byte list option \<Rightarrow> 'd ktfs \<Rightarrow> ((int + nat) \<times> 'd ktfs) option"
where
  "ktfs_open name fs =
     (case name of
        None \<Rightarrow> Some (Inl (- EINVAL), fs)
      | Some name \<Rightarrow>
        (case g_cache fs of
           None \<Rightarrow> Some (Inl (- EIO), fs)
         | Some c \<Rightarrow> do {
             let G = g_geom fs;
             (r, c) \<leftarrow> find_dentry G name c;
             case r of
               Inl rc \<Rightarrow> Some (Inl rc, fs\<lparr>g_cache := Some c\<rparr>)
             | Inr inode_idx \<Rightarrow>
                 (case first_idx (\<lambda>f. \<not> kf_in_use f) (g_open_files fs) of
                    None \<Rightarrow> Some (Inl (- ENOMEM), fs\<lparr>g_cache := Some c\<rparr>)
                  | Some slot \<Rightarrow> do {
                      (r, c) \<leftarrow> read_inode G inode_idx c;
                      case r of
                        Inl rc \<Rightarrow> Some (Inl rc, fs\<lparr>g_cache := Some c\<rparr>)
                      | Inr ino \<Rightarrow>
                          let f = \<lparr>kf_inode_idx = inode_idx, kf_size = isize ino, kf_in_use = True,
                                   kf_name = take KTFS_MAX_FILENAME_LEN name\<rparr>
                          in Some (Inr slot, fs\<lparr>g_cache := Some c,
                                                g_open_files := (g_open_files fs)[slot := f]\<rparr>)
                    })
           }))"

definition ktfs_close :: "nat \<Rightarrow> 'd ktfs \<Rightarrow> 'd ktfs" where
  "ktfs_close slot fs =
     fs\<lparr>g_open_files := (g_open_files fs)[slot := (g_open_files fs ! slot)\<lparr>kf_in_use := False\<rparr>]\<rparr>"

definition ktfs_flush :: "'d ktfs \<Rightarrow> (int \<times> 'd ktfs) option" where
  "ktfs_flush fs =
     (case g_cache fs of
        None \<Rightarrow> Some (- EIO, fs)
      | Some c \<Rightarrow> map_option (\<lambda>(rc, c). (rc, fs\<lparr>g_cache := Some c\<rparr>)) (cache_flush c))"

subsection \<open>Reading and writing\<close>

text \<open>
  The chunk of a copy that stays inside one block: from offset \<open>off\<close> of the file, at most
  \<open>rest\<close> bytes.
\<close>

definition chunk_len :: "nat \<Rightarrow> nat \<Rightarrow> nat" where
  "chunk_len off rest =
     (let chunk = KTFS_BLKSZ - off mod KTFS_BLKSZ in if chunk > rest then rest else chunk)"

lemma chunk_len_pos: "rest > 0 \<Longrightarrow> chunk_len off rest > 0"
  by (simp add: chunk_len_def KTFS_BLKSZ_def Let_def)

lemma chunk_len_le: "chunk_len off rest \<le> rest"
  by (simp add: chunk_len_def Let_def)

function readat_loop ::
  "geom \<Rightarrow> ktfs_inode \<Rightarrow> nat \<Rightarrow> nat \<Rightarrow> nat \<Rightarrow> byte list \<Rightarrow> 'd cache \<Rightarrow> ((int \<times> byte list) \<times> 'd cache) option"
where
  "readat_loop G ino pos len copied buf c =
     (if copied < len
      then let byte_off = u64 (pos + copied)
        in do {
          (r, c) \<leftarrow> data_block_for_offset G ino byte_off c;
          case r of
            Inl rc \<Rightarrow> Some ((rc, buf), c)
          | Inr data_blk \<Rightarrow> do {
              (r, c) \<leftarrow> with_block c (data_blk_to_pos G data_blk) None
                 (\<lambda>d. (Some (seg (byte_off mod KTFS_BLKSZ) (chunk_len byte_off (len - copied)) d), None));
              case r of
                None \<Rightarrow> Some ((- EIO, buf), c)
              | Some bs \<Rightarrow>
                  readat_loop G ino pos len (copied + chunk_len byte_off (len - copied)) (buf @ bs) c
            }
        }
      else Some ((int copied, buf), c))"
  by pat_completeness auto
termination
  by (relation "measure (\<lambda>(G, ino, pos, len, copied, buf, c). len - copied)")
     (auto simp: chunk_len_pos diff_less_mono2)

declare readat_loop.simps [simp del]

text \<open>
  \<open>ktfs_readat\<close> of the file in slot \<open>slot\<close>; the result carries the bytes stored in the caller's
  buffer. The file system is mounted whenever a file is open.
\<close>

definition ktfs_readat ::
  "nat \<Rightarrow> nat \<Rightarrow> int \<Rightarrow> 'd ktfs \<Rightarrow> ((int \<times> byte list) \<times> 'd ktfs) option"
where
  "ktfs_readat slot pos len fs =
     (let f = g_open_files fs ! slot
      in if len \<le> 0 then Some ((0, []), fs)
         else if pos \<ge> kf_size f then Some ((0, []), fs)
         else do {
           let avail = kf_size f - pos;
           let n = (if nat len > avail then avail else nat len);
           c \<leftarrow> g_cache fs;
           (r, c) \<leftarrow> read_inode (g_geom fs) (kf_inode_idx f) c;
           case r of
             Inl _ \<Rightarrow> Some ((- EIO, []), fs\<lparr>g_cache := Some c\<rparr>)
           | Inr ino \<Rightarrow>
               map_option (\<lambda>(r, c). (r, fs\<lparr>g_cache := Some c\<rparr>)) (readat_loop (g_geom fs) ino pos n 0 [] c)
         })"

function writeat_loop ::
  "geom \<Rightarrow> ktfs_inode \<Rightarrow> nat \<Rightarrow> byte list \<Rightarrow> nat \<Rightarrow> nat \<Rightarrow> 'd cache \<Rightarrow> (((int + nat) \<times> ktfs_inode) \<times> 'd cache) option"
where
  "writeat_loop G ino pos buf len copied c =
     (if copied < len
      then let byte_off = u64 (pos + copied)
        in do {
          ((r, ino), c) \<leftarrow> resolve_or_alloc G ino (u32 (byte_off div KTFS_BLKSZ)) True c;
          case r of
            Inl rc \<Rightarrow> Some ((Inl rc, ino), c)
          | Inr data_blk \<Rightarrow> do {
              (ok, c) \<leftarrow> with_block c (data_blk_to_pos G data_blk) False
                 (\<lambda>d. (True, Some (patch (byte_off mod KTFS_BLKSZ)
                               (seg copied (chunk_len byte_off (len - copied)) buf) d)));
              if \<not> ok then Some ((Inl (- EIO), ino), c)
              else writeat_loop G ino pos buf len (copied + chunk_len byte_off (len - copied)) c
            }
        }
      else Some ((Inr copied, ino), c))"
  by pat_completeness auto
termination
  by (relation "measure (\<lambda>(G, ino, pos, buf, len, copied, c). len - copied)")
     (auto simp: chunk_len_pos diff_less_mono2)

declare writeat_loop.simps [simp del]

definition ktfs_writeat ::
  "nat \<Rightarrow> nat \<Rightarrow> byte list \<Rightarrow> int \<Rightarrow> 'd ktfs \<Rightarrow> (int \<times> 'd ktfs) option"
where
  "ktfs_writeat slot pos buf len fs =
     (let f = g_open_files fs ! slot; G = g_geom fs
      in if len \<le> 0 then Some (0, fs)
         else case g_cache fs of
           None \<Rightarrow> Some (- EIO, fs)
         | Some c \<Rightarrow> do {
             (r, c) \<leftarrow> read_inode G (kf_inode_idx f) c;
             case r of
               Inl _ \<Rightarrow> Some (- EIO, fs\<lparr>g_cache := Some c\<rparr>)
             | Inr ino \<Rightarrow> do {
                 ((r, ino), c) \<leftarrow> writeat_loop G ino pos buf (nat len) 0 c;
                 case r of
                   Inl rc \<Rightarrow> Some (rc, fs\<lparr>g_cache := Some c\<rparr>)
                 | Inr copied \<Rightarrow> do {
                     let new_size = u64 (pos + copied);
                     let grow = new_size > isize ino;
                     let ino = (if grow then ino\<lparr>isize := u32 new_size\<rparr> else ino);
                     let f = (if grow then f\<lparr>kf_size := isize ino\<rparr> else f);
                     let fs = fs\<lparr>g_open_files := (g_open_files fs)[slot := f]\<rparr>;
                     (rc, c) \<leftarrow> write_inode G (kf_inode_idx f) ino c;
                     if rc \<noteq> 0 then Some (- EIO, fs\<lparr>g_cache := Some c\<rparr>)
                     else do {
                       (_, c) \<leftarrow> cache_flush c;
                       Some (int copied, fs\<lparr>g_cache := Some c\<rparr>)
                     }
                   }
               }
           })"

subsection \<open>Changing the size\<close>

text \<open>The loop that frees the blocks past a new, smaller end; failures are ignored.\<close>

fun shrink_loop :: "geom \<Rightarrow> ktfs_inode \<Rightarrow> nat list \<Rightarrow> 'd cache \<Rightarrow> (ktfs_inode \<times> 'd cache) option" where
  "shrink_loop G ino [] c = Some (ino, c)"
| "shrink_loop G ino (lb # lbs) c =
     do {
       ((r, ino), c) \<leftarrow> resolve_or_alloc G ino lb False c;
       (_, c) \<leftarrow> (case r of Inl rc \<Rightarrow> Some (rc, c) | Inr blk \<Rightarrow> free_data_block G blk c);
       shrink_loop G ino lbs c
     }"

text \<open>The step that zeroes the tail of the last block that survives.\<close>

definition zero_tail :: "geom \<Rightarrow> ktfs_inode \<Rightarrow> nat \<Rightarrow> 'd cache \<Rightarrow> (ktfs_inode \<times> 'd cache) option" where
  "zero_tail G ino new_size c =
     (let new_last_blk = u32 ((new_size + KTFS_BLKSZ - 1) div KTFS_BLKSZ); off = new_size mod KTFS_BLKSZ
      in if off \<noteq> 0 \<and> new_last_blk > 0
         then do {
           ((r, ino), c) \<leftarrow> resolve_or_alloc G ino (new_last_blk - 1) False c;
           case r of
             Inl _ \<Rightarrow> Some (ino, c)
           | Inr blk \<Rightarrow> do {
               (_, c) \<leftarrow> with_block c (data_blk_to_pos G blk) ()
                  (\<lambda>b. ((), Some (patch off (replicate (KTFS_BLKSZ - off) 0) b)));
               Some (ino, c)
             }
         }
         else Some (ino, c))"

definition ktfs_setend :: "nat \<Rightarrow> nat \<Rightarrow> 'd ktfs \<Rightarrow> (int \<times> 'd ktfs) option" where
  "ktfs_setend slot new_size fs =
     (let f = g_open_files fs ! slot; G = g_geom fs
      in if new_size > 4294967295 then Some (- EINVAL, fs)
         else do {
           c \<leftarrow> g_cache fs;
           (r, c) \<leftarrow> read_inode G (kf_inode_idx f) c;
           case r of
             Inl _ \<Rightarrow> Some (- EIO, fs\<lparr>g_cache := Some c\<rparr>)
           | Inr ino \<Rightarrow> do {
               (ino, c) \<leftarrow>
                 (if new_size < isize ino
                  then do {
                    let old_last_blk = u32 ((isize ino + KTFS_BLKSZ - 1) div KTFS_BLKSZ);
                    let new_last_blk = u32 ((new_size + KTFS_BLKSZ - 1) div KTFS_BLKSZ);
                    (ino, c) \<leftarrow> zero_tail G ino new_size c;
                    shrink_loop G ino [new_last_blk..<old_last_blk] c
                  }
                  else Some (ino, c));
               (rc, c) \<leftarrow> write_inode G (kf_inode_idx f) (ino\<lparr>isize := u32 new_size\<rparr>) c;
               if rc \<noteq> 0 then Some (- EIO, fs\<lparr>g_cache := Some c\<rparr>)
               else do {
                 (_, c) \<leftarrow> cache_flush c;
                 Some (0, fs\<lparr>g_cache := Some c,
                            g_open_files := (g_open_files fs)[slot := f\<lparr>kf_size := u32 new_size\<rparr>]\<rparr>)
               }
             }
         })"

definition ktfs_cntl ::
  "nat \<Rightarrow> int \<Rightarrow> nat option \<Rightarrow> 'd ktfs \<Rightarrow> ((int \<times> nat option) \<times> 'd ktfs) option"
where
  "ktfs_cntl slot cmd arg fs =
     (if cmd = IOCTL_GETBLKSZ then Some ((1, arg), fs)
      else if cmd = IOCTL_GETEND then
        Some (case arg of
                None \<Rightarrow> ((- EINVAL, arg), fs)
              | Some _ \<Rightarrow> ((0, Some (kf_size (g_open_files fs ! slot))), fs))
      else if cmd = IOCTL_SETEND then
        (case arg of
           None \<Rightarrow> Some ((- EINVAL, arg), fs)
         | Some new_size \<Rightarrow> map_option (\<lambda>(rc, fs). ((rc, arg), fs)) (ktfs_setend slot new_size fs))
      else Some ((- ENOTSUP, arg), fs))"

subsection \<open>Creating and deleting files\<close>

text \<open>The first inode slot of a block, other than the root's, whose 32 bytes are all zero.\<close>

fun free_slot :: "geom \<Rightarrow> nat \<Rightarrow> byte list \<Rightarrow> nat list \<Rightarrow> nat option" where
  "free_slot G blk b [] = None"
| "free_slot G blk b (i # is) =
     (let inode_idx = u16 (blk * (KTFS_BLKSZ div KTFS_INOSZ) + i)
      in if inode_idx = g_root_inode_idx G then free_slot G blk b is
         else if list_all (\<lambda>x. x = 0) (seg (i * KTFS_INOSZ) KTFS_INOSZ b) then Some inode_idx
         else free_slot G blk b is)"

fun find_free_inode_loop :: "geom \<Rightarrow> nat list \<Rightarrow> 'd cache \<Rightarrow> ((int + nat) \<times> 'd cache) option" where
  "find_free_inode_loop G [] c = Some (Inl (- ENOMEM), c)"
| "find_free_inode_loop G (blk # blks) c =
     do {
       (r, c) \<leftarrow> with_block c (u32 (g_first_inode_block G + blk) * KTFS_BLKSZ) (Inl (- EIO))
                   (\<lambda>b. (Inr (free_slot G blk b [0..<KTFS_BLKSZ div KTFS_INOSZ]), None));
       case r of
         Inl rc \<Rightarrow> Some (Inl rc, c)
       | Inr (Some idx) \<Rightarrow> Some (Inr idx, c)
       | Inr None \<Rightarrow> find_free_inode_loop G blks c
     }"

definition find_free_inode :: "geom \<Rightarrow> 'd cache \<Rightarrow> ((int + nat) \<times> 'd cache) option" where
  "find_free_inode G c = find_free_inode_loop G [0..<g_inode_block_count G] c"

text \<open>The part of \<open>ktfs_create\<close> that appends the entry for inode \<open>new_inode\<close> to the root.\<close>

definition append_dentry :: "geom \<Rightarrow> byte list \<Rightarrow> nat \<Rightarrow> 'd cache \<Rightarrow> (int \<times> 'd cache) option" where
  "append_dentry G name new_inode c =
     do {
       (r, c) \<leftarrow> read_inode G (g_root_inode_idx G) c;
       case r of
         Inl _ \<Rightarrow> Some (- EIO, c)
       | Inr root \<Rightarrow> do {
           let dent_no = isize root div KTFS_DENSZ;
           let logical = (dent_no * KTFS_DENSZ) div KTFS_BLKSZ;
           let blk_off = (dent_no * KTFS_DENSZ) mod KTFS_BLKSZ;
           ((r, root), c) \<leftarrow> resolve_or_alloc G root logical True c;
           case r of
             Inl rc \<Rightarrow> Some (rc, c)
           | Inr data_blk \<Rightarrow> do {
               let de = \<lparr>de_inode = new_inode,
                         de_name = name @ replicate (KTFS_MAX_FILENAME_LEN + 1 - length name) 0\<rparr>;
               (ok, c) \<leftarrow> with_block c (data_blk_to_pos G data_blk) False
                            (\<lambda>d. (True, Some (patch blk_off (encode_dentry de) d)));
               if \<not> ok then Some (- EIO, c)
               else do {
                 (rc, c) \<leftarrow> write_inode G (g_root_inode_idx G)
                              (root\<lparr>isize := u32 (isize root + KTFS_DENSZ)\<rparr>) c;
                 if rc \<noteq> 0 then Some (- EIO, c)
                 else do { (_, c) \<leftarrow> cache_flush c; Some (0, c) }
               }
             }
         }
     }"

definition create_file :: "geom \<Rightarrow> byte list \<Rightarrow> 'd cache \<Rightarrow> (int \<times> 'd cache) option" where
  "create_file G name c =
     (if name = [] \<or> length name > KTFS_MAX_FILENAME_LEN then Some (- EINVAL, c)
      else do {
        (r, c) \<leftarrow> find_dentry G name c;
        case r of
          Inr _ \<Rightarrow> Some (- EINVAL, c)
        | Inl _ \<Rightarrow> do {
            (r, c) \<leftarrow> find_free_inode G c;
            case r of
              Inl rc \<Rightarrow> Some (rc, c)
            | Inr new_inode \<Rightarrow> do {
                (rc, c) \<leftarrow> write_inode G new_inode zero_inode c;
                if rc \<noteq> 0 then Some (- EIO, c) else append_dentry G name new_inode c
              }
          }
      })"

definition ktfs_create :: "byte list option \<Rightarrow> 'd ktfs \<Rightarrow> (int \<times> 'd ktfs) option" where
  "ktfs_create name fs =
     (case (g_cache fs, name) of
        (Some c, Some name) \<Rightarrow>
          map_option (\<lambda>(rc, c). (rc, fs\<lparr>g_cache := Some c\<rparr>)) (create_file (g_geom fs) name c)
      | _ \<Rightarrow> Some (- EINVAL, fs))"

text \<open>Freeing a list of block numbers, skipping the zeros; results are ignored.\<close>

fun free_nonzero :: "geom \<Rightarrow> nat list \<Rightarrow> 'd cache \<Rightarrow> 'd cache option" where
  "free_nonzero G [] c = Some c"
| "free_nonzero G (b # bs) c =
     (if b \<noteq> 0 then do { (_, c) \<leftarrow> free_data_block G b c; free_nonzero G bs c }
      else free_nonzero G bs c)"

text \<open>
  The blocks a deletion frees: the direct ones, those of the indirect block (which stays held
  while they are freed) and the indirect block.
\<close>

definition free_file_blocks :: "geom \<Rightarrow> ktfs_inode \<Rightarrow> 'd cache \<Rightarrow> 'd cache option" where
  "free_file_blocks G ino c =
     do {
       c \<leftarrow> free_nonzero G (iblock ino) c;
       if iindirect ino \<noteq> 0
       then do {
         ((rc, iblk), c) \<leftarrow> cache_get_block c (data_blk_to_pos G (iindirect ino));
         c \<leftarrow> (if rc = 0
               then do {
                 i \<leftarrow> iblk;
                 c \<leftarrow> free_nonzero G (map (arr_get (cache_data c i)) [0..<KTFS_PTRS_PER_BLOCK]) c;
                 Some (cache_release_block c (Some i) False)
               }
               else Some c);
         (_, c) \<leftarrow> free_data_block G (iindirect ino) c;
         Some c
       }
       else Some c
     }"

text \<open>The search for the directory entry of an inode; unreadable entries are passed over.\<close>

fun dentry_of_loop :: "geom \<Rightarrow> ktfs_inode \<Rightarrow> nat \<Rightarrow> nat list \<Rightarrow> 'd cache \<Rightarrow> (nat option \<times> 'd cache) option" where
  "dentry_of_loop G root target [] c = Some (None, c)"
| "dentry_of_loop G root target (i # is) c =
     (let off = i * KTFS_DENSZ
      in do {
        ((r, _), c) \<leftarrow> resolve_or_alloc G root (u32 (off div KTFS_BLKSZ)) False c;
        case r of
          Inl _ \<Rightarrow> dentry_of_loop G root target is c
        | Inr blk \<Rightarrow> do {
            (hit, c) \<leftarrow> with_block c (data_blk_to_pos G blk) False
              (\<lambda>d. (de_inode (decode_dentry (seg (off mod KTFS_BLKSZ) KTFS_DENSZ d)) = target, None));
            if hit then Some (Some i, c) else dentry_of_loop G root target is c
          }
      })"

text \<open>The move of the last entry into the freed place.\<close>

definition move_dentry :: "geom \<Rightarrow> ktfs_inode \<Rightarrow> nat \<Rightarrow> nat \<Rightarrow> 'd cache \<Rightarrow> (int \<times> 'd cache) option" where
  "move_dentry G root from_idx to_idx c =
     (let lastoff = from_idx * KTFS_DENSZ; fndoff = to_idx * KTFS_DENSZ
      in do {
        ((r, _), c) \<leftarrow> resolve_or_alloc G root (u32 (lastoff div KTFS_BLKSZ)) False c;
        case r of
          Inl _ \<Rightarrow> Some (- EIO, c)
        | Inr lblk \<Rightarrow> do {
            (r, c) \<leftarrow> with_block c (data_blk_to_pos G lblk) None
                        (\<lambda>d. (Some (seg (lastoff mod KTFS_BLKSZ) KTFS_DENSZ d), None));
            case r of
              None \<Rightarrow> Some (- EIO, c)
            | Some moved \<Rightarrow> do {
                ((r, _), c) \<leftarrow> resolve_or_alloc G root (u32 (fndoff div KTFS_BLKSZ)) False c;
                case r of
                  Inl _ \<Rightarrow> Some (- EIO, c)
                | Inr fblk \<Rightarrow>
                    with_block c (data_blk_to_pos G fblk) (- EIO)
                      (\<lambda>d. (0, Some (patch (fndoff mod KTFS_BLKSZ) moved d)))
              }
          }
      })"

definition remove_dentry :: "geom \<Rightarrow> nat \<Rightarrow> 'd cache \<Rightarrow> (int \<times> 'd cache) option" where
  "remove_dentry G target_inode c =
     do {
       (r, c) \<leftarrow> read_inode G (g_root_inode_idx G) c;
       case r of
         Inl _ \<Rightarrow> Some (- EIO, c)
       | Inr root \<Rightarrow> do {
           let total = isize root div KTFS_DENSZ;
           (found, c) \<leftarrow> dentry_of_loop G root target_inode [0..<total] c;
           case found of
             None \<Rightarrow> Some (- ENOENT, c)
           | Some found_idx \<Rightarrow> do {
               (rc, c) \<leftarrow> (if found_idx \<noteq> total - 1 then move_dentry G root (total - 1) found_idx c
                           else Some (0, c));
               if rc \<noteq> 0 then Some (rc, c)
               else do {
                 (rc, c) \<leftarrow> write_inode G (g_root_inode_idx G)
                              (root\<lparr>isize := isize root - KTFS_DENSZ\<rparr>) c;
                 if rc \<noteq> 0 then Some (- EIO, c)
                 else do { (_, c) \<leftarrow> cache_flush c; Some (0, c) }
               }
             }
         }
     }"

definition delete_file :: "geom \<Rightarrow> byte list \<Rightarrow> 'd cache \<Rightarrow> (int \<times> 'd cache) option" where
  "delete_file G name c =
     do {
       (r, c) \<leftarrow> find_dentry G name c;
       case r of
         Inl rc \<Rightarrow> Some (rc, c)
       | Inr target_inode \<Rightarrow> do {
           (r, c) \<leftarrow> read_inode G target_inode c;
           case r of
             Inl _ \<Rightarrow> Some (- EIO, c)
           | Inr ino \<Rightarrow> do {
               c \<leftarrow> free_file_blocks G ino c;
               (rc, c) \<leftarrow> write_inode G target_inode zero_inode c;
               if rc \<noteq> 0 then Some (- EIO, c) else remove_dentry G target_inode c
             }
         }
     }"

definition ktfs_delete :: "byte list option \<Rightarrow> 'd ktfs \<Rightarrow> (int \<times> 'd ktfs) option" where
  "ktfs_delete name fs =
     (case (g_cache fs, name) of
        (Some c, Some name) \<Rightarrow>
          map_option (\<lambda>(rc, c). (rc, fs\<lparr>g_cache := Some c\<rparr>)) (delete_file (g_geom fs) name c)
      | _ \<Rightarrow> Some (- EINVAL, fs))"

subsection \<open>The operation table of an open file\<close>

text \<open>
  The endpoint of an open file has the file system and the slot as its private state. The table
  has no \<open>writeat\<close>: \<open>iowriteat\<close> on an open file is not supported.
\<close>

definition ktfs_iointf :: "('d ktfs \<times> nat) iointf" where
  "ktfs_iointf =
     \<lparr>if_close = Some (\<lambda>(fs, slot). Some (ktfs_close slot fs, slot)),
      if_cntl = Some (\<lambda>(fs, slot) cmd arg.
        map_option (\<lambda>(r, fs). (r, (fs, slot))) (ktfs_cntl slot cmd arg fs)),
      if_read = None, if_write = None,
      if_readat = Some (\<lambda>(fs, slot) pos len.
        map_option (\<lambda>(r, fs). (r, (fs, slot))) (ktfs_readat slot pos len fs)),
      if_writeat = None\<rparr>"

end
