(* ===== verification/Ktfs_Read.thy ===== *)
theory Ktfs_Read
  imports Ktfs
begin

text \<open>
  What the file system computes from the image. The first part is a small program logic for clients
  of the cache: \<open>does\<close> says that a computation ends normally with a given result, leaves the
  blocks \<open>V'\<close> and gives back every reference it took. The second part reads the image as
  mathematics: inodes, block maps, file contents and directory entries as functions of the blocks.
  The lemmas show that the lookup functions of ktfs.c compute these functions and change nothing.
\<close>

subsection \<open>Clients of the cache\<close>

definition cache_is ::
  "'d iointf \<Rightarrow> ('d \<Rightarrow> bool) \<Rightarrow> ('d \<Rightarrow> nat) \<Rightarrow> ('d \<Rightarrow> nat \<Rightarrow> byte list) \<Rightarrow>
     nat \<Rightarrow> (nat \<Rightarrow> byte list) \<Rightarrow> (nat \<Rightarrow> (nat \<times> int) option) \<Rightarrow> 'd cache \<Rightarrow> bool"
where
  "cache_is f dinv nblk blk n V P c \<longleftrightarrow>
     cache_inv f dinv nblk blk c \<and> cache_view blk c = V \<and> cache_pins c = P \<and>
     nblk (dev (cbkgio c)) = n"

definition cache_does ::
  "'d iointf \<Rightarrow> ('d \<Rightarrow> bool) \<Rightarrow> ('d \<Rightarrow> nat) \<Rightarrow> ('d \<Rightarrow> nat \<Rightarrow> byte list) \<Rightarrow>
     nat \<Rightarrow> (nat \<Rightarrow> (nat \<times> int) option) \<Rightarrow> ('a \<times> 'd cache) option \<Rightarrow> 'a \<Rightarrow> (nat \<Rightarrow> byte list) \<Rightarrow> bool"
where
  "cache_does f dinv nblk blk n P m r V \<longleftrightarrow>
     (\<exists>c. m = Some (r, c) \<and> cache_is f dinv nblk blk n V P c)"

context block_device
begin

abbreviation cst :: "nat \<Rightarrow> (nat \<Rightarrow> byte list) \<Rightarrow> (nat \<Rightarrow> (nat \<times> int) option) \<Rightarrow> 'd cache \<Rightarrow> bool" where
  "cst \<equiv> cache_is f dinv nblk blk"

abbreviation does ::
  "nat \<Rightarrow> (nat \<Rightarrow> (nat \<times> int) option) \<Rightarrow> ('a \<times> 'd cache) option \<Rightarrow> 'a \<Rightarrow> (nat \<Rightarrow> byte list) \<Rightarrow> bool"
where
  "does \<equiv> cache_does f dinv nblk blk"

lemma cst_length: "cst n V P c \<Longrightarrow> k < n \<Longrightarrow> length (V k) = 512"
  using view_length by (auto simp: cache_is_def)

lemma does_return: "cst n V P c \<Longrightarrow> does n P (Some (r, c)) r V"
  by (simp add: cache_does_def)

lemma does_bind:
  assumes "does n P m r V" and "\<And>c. cst n V P c \<Longrightarrow> does n P (K (r, c)) r' V'"
  shows "does n P (m \<bind> K) r' V'"
  using assms by (auto simp: cache_does_def)

lemma does_map:
  assumes "does n P m r V"
  obtains c where "m = Some (r, c)" "cst n V P c"
  using assms by (auto simp: cache_does_def)

text \<open>Holding a block: the fetch, the view through the pointer, and the two releases.\<close>

definition compat :: "(nat \<Rightarrow> (nat \<times> int) option) \<Rightarrow> nat \<Rightarrow> nat \<Rightarrow> bool" where
  "compat P i k \<longleftrightarrow> (\<forall>k' m. P i = Some (k', m) \<longrightarrow> k' = k \<and> m > 0)"

lemma unpin_compat: "compat P i k \<Longrightarrow> unpin (pin P i k) i = P"
  by (auto simp: compat_def)

lemma pin_held: "compat P i k \<Longrightarrow> \<exists>m. pin P i k i = Some (k, m)"
  by (auto simp: pin_def)

lemma does_get:
  assumes c: "cst n V P c" and k: "k < n" and room: "pins_room 1 P"
    and K: "\<And>i c'. cst n V (pin P i k) c' \<Longrightarrow> compat P i k \<Longrightarrow> does n P (K ((0, Some i), c')) r V'"
  shows "does n P (cache_get_block c (512 * k) \<bind> K) r V'"
proof -
  obtain i c' where "cache_get_block c (512 * k) = Some ((0, Some i), c')"
    "cst n V (pin P i k) c'" "compat P i k"
    using get_block_ok [of c k] c k room unfolding cache_is_def compat_def by metis
  with K show ?thesis by simp
qed

lemma held_data:
  assumes "cst n V P c" and "P i = Some (k, m)"
  shows "cache_data c i = V k"
  using assms pinned_entry [of c i k m] view_entry [of c i k] by (auto simp: cache_is_def cache_data_def)

lemma held_release:
  assumes "cst n V (pin P i k) c" and "compat P i k"
  shows "cst n V P (cache_release_block c (Some i) False)"
proof -
  obtain m where "pin P i k i = Some (k, m)"
    using pin_held [OF assms(2)] ..
  then show ?thesis
    using assms(1) release_clean [of c i k m] unpin_compat [OF assms(2)] by (auto simp: cache_is_def)
qed

lemma held_write:
  assumes "cst n V (pin P i k) c" and "compat P i k" and "length bs = 512"
  shows "cst n (V(k := bs)) P (cache_release_block (cache_put c i bs) (Some i) True)"
proof -
  obtain m where "pin P i k i = Some (k, m)"
    using pin_held [OF assms(2)] ..
  then show ?thesis
    using assms(1) release_gen [of c i k m bs True, OF _ _ assms(3)] unpin_compat [OF assms(2)]
    by (auto simp: cache_is_def)
qed

lemma does_with_block:
  assumes c: "cst n V P c" and k: "k < n" "pos = 512 * k" and room: "pins_room 1 P"
    and body: "body (V k) = (r, upd)" and len: "\<And>bs. upd = Some bs \<Longrightarrow> length bs = 512"
  shows "does n P (with_block c pos err body) r (case upd of None \<Rightarrow> V | Some bs \<Rightarrow> V(k := bs))"
  unfolding with_block_def k(2)
proof (rule does_get [OF c k(1) room], goal_cases)
  case (1 i c')
  then have "cache_data c' i = V k"
    using pin_held held_data by blast
  with held_release [OF 1] held_write [OF 1] body len show ?case
    by (cases upd) (auto intro!: does_return)
qed

lemma does_look:
  assumes "cst n V P c" and "k < n" "pos = 512 * k" and "pins_room 1 P" and "body (V k) = (r, None)"
  shows "does n P (with_block c pos err body) r V"
  using does_with_block [of n V P c k pos body r None, OF assms] by simp

lemma does_change:
  assumes "cst n V P c" and "k < n" "pos = 512 * k" and "pins_room 1 P"
    and "body (V k) = (r, Some bs)" and "length bs = 512"
  shows "does n P (with_block c pos err body) r (V(k := bs))"
  using does_with_block [of n V P c k pos body r "Some bs", OF assms(1-5)] assms(6) by simp

lemma does_flush:
  assumes "cst n V P c"
  shows "does n P (cache_flush c) 0 V"
proof -
  obtain c' where "cache_flush c = Some (0, c')" "cinv c'" "cview c' = cview c" "cnblk c' = cnblk c"
    "cache_pins c' = cache_pins c"
    by (rule cache_flush_ok [of c]) (use assms in \<open>auto simp: cache_is_def\<close>)
  with assms show ?thesis
    by (auto simp: cache_does_def cache_is_def)
qed

end

subsection \<open>The image as a function of its blocks\<close>

text \<open>The geometry a well-formed image of at most \<open>n\<close> blocks has.\<close>

definition geom_ok :: "geom \<Rightarrow> nat \<Rightarrow> bool" where
  "geom_ok G n \<longleftrightarrow>
     g_first_inode_block G = 1 + g_bitmap_block_count G \<and>
     g_first_data_block G = g_first_inode_block G + g_inode_block_count G \<and>
     g_first_data_block G \<le> g_block_count G \<and> g_block_count G \<le> n \<and> n < 4294967296 \<and>
     g_block_count G \<le> 4096 * g_bitmap_block_count G \<and> 4096 * g_bitmap_block_count G < 4294967296 \<and>
     g_root_inode_idx G < 16 * g_inode_block_count G"

definition dblk :: "geom \<Rightarrow> (nat \<Rightarrow> byte list) \<Rightarrow> nat \<Rightarrow> byte list" where
  "dblk G V b = V (g_first_data_block G + b)"

definition ptr_ok :: "geom \<Rightarrow> nat \<Rightarrow> bool" where
  "ptr_ok G b \<longleftrightarrow> g_first_data_block G + b < g_block_count G"

definition inode_at :: "geom \<Rightarrow> (nat \<Rightarrow> byte list) \<Rightarrow> nat \<Rightarrow> ktfs_inode" where
  "inode_at G V idx = decode_inode (seg ((idx mod 16) * 32) 32 (V (g_first_inode_block G + idx div 16)))"

text \<open>The block map of an inode: direct, indirect and doubly-indirect pointers.\<close>

definition block_map :: "geom \<Rightarrow> (nat \<Rightarrow> byte list) \<Rightarrow> ktfs_inode \<Rightarrow> nat \<Rightarrow> nat option" where
  "block_map G V ino l =
     (if l < 3 then Some (iblock ino ! l)
      else if l < 131 then
        (if ptr_ok G (iindirect ino) then Some (arr_get (dblk G V (iindirect ino)) (l - 3)) else None)
      else if l < 32899 then
        (let l = l - 131; dind = idindirect ino ! (l div 16384)
         in if ptr_ok G dind
            then let ind = arr_get (dblk G V dind) (l mod 16384 div 128)
                 in if ptr_ok G ind then Some (arr_get (dblk G V ind) (l mod 16384 mod 128)) else None
            else None)
      else None)"

definition file_ok :: "geom \<Rightarrow> (nat \<Rightarrow> byte list) \<Rightarrow> ktfs_inode \<Rightarrow> bool" where
  "file_ok G V ino \<longleftrightarrow> isize ino < 4294967296 \<and>
     (\<forall>l < (isize ino + 511) div 512. case block_map G V ino l of None \<Rightarrow> False | Some b \<Rightarrow> ptr_ok G b)"

text \<open>Block \<open>l\<close> of a file and the contents of the file.\<close>

definition file_blk :: "geom \<Rightarrow> (nat \<Rightarrow> byte list) \<Rightarrow> ktfs_inode \<Rightarrow> nat \<Rightarrow> byte list" where
  "file_blk G V ino l = dblk G V (the (block_map G V ino l))"

definition file_data :: "geom \<Rightarrow> (nat \<Rightarrow> byte list) \<Rightarrow> ktfs_inode \<Rightarrow> byte list" where
  "file_data G V ino = map (\<lambda>i. file_blk G V ino (i div 512) ! (i mod 512)) [0..<isize ino]"

text \<open>The directory: the entries of the root and the lookup of a name in them.\<close>

definition dentry_at :: "geom \<Rightarrow> (nat \<Rightarrow> byte list) \<Rightarrow> ktfs_inode \<Rightarrow> nat \<Rightarrow> ktfs_dir_entry" where
  "dentry_at G V root d =
     decode_dentry (seg (d * 16 mod 512) 16 (file_blk G V root (d * 16 div 512)))"

definition dentries :: "geom \<Rightarrow> (nat \<Rightarrow> byte list) \<Rightarrow> ktfs_dir_entry list" where
  "dentries G V =
     (let root = inode_at G V (g_root_inode_idx G)
      in map (dentry_at G V root) [0..<isize root div 16])"

definition dir_lookup :: "geom \<Rightarrow> (nat \<Rightarrow> byte list) \<Rightarrow> byte list \<Rightarrow> nat option" where
  "dir_lookup G V name =
     map_option de_inode (find (\<lambda>de. name_match (de_name de) name) (dentries G V))"

lemma geom_okD:
  assumes "geom_ok G n"
  shows "idx < 16 * g_inode_block_count G \<Longrightarrow> g_first_inode_block G + idx div 16 < n"
    and "idx < 16 * g_inode_block_count G \<Longrightarrow> g_first_inode_block G + idx div 16 < 4294967296"
    and "ptr_ok G b \<Longrightarrow> g_first_data_block G + b < n"
    and "ptr_ok G b \<Longrightarrow> data_blk_to_pos G b = 512 * (g_first_data_block G + b)"
proof -
  have "idx div 16 < g_inode_block_count G" if "idx < 16 * g_inode_block_count G"
    by (rule less_mult_imp_div_less) (use that in \<open>simp add: mult.commute\<close>)
  then show "idx < 16 * g_inode_block_count G \<Longrightarrow> g_first_inode_block G + idx div 16 < n"
    "idx < 16 * g_inode_block_count G \<Longrightarrow> g_first_inode_block G + idx div 16 < 4294967296"
    using assms by (fastforce simp: geom_ok_def)+
  show "ptr_ok G b \<Longrightarrow> g_first_data_block G + b < n"
    using assms by (simp add: geom_ok_def ptr_ok_def)
  then show "ptr_ok G b \<Longrightarrow> data_blk_to_pos G b = 512 * (g_first_data_block G + b)"
    using assms by (simp add: geom_ok_def ptr_ok_def data_blk_to_pos_def u32_def KTFS_BLKSZ_def)
qed

lemma isize_inode_at: "isize (inode_at G V idx) < 4294967296"
  using le_nat_seg_bound [of 0 4] by (simp add: inode_at_def decode_inode_def)

lemma file_okD:
  assumes "file_ok G V ino" and "512 * l < isize ino"
  obtains b where "block_map G V ino l = Some b" "ptr_ok G b" "file_blk G V ino l = dblk G V b"
proof -
  have "l < (isize ino + 511) div 512"
    using assms(2) less_eq_div_iff_mult_less_eq [of 512 "Suc l" "isize ino + 511"] by simp
  then show thesis
    using assms(1) that by (auto simp: file_ok_def file_blk_def split: option.splits)
qed

lemma length_file_data [simp]: "length (file_data G V ino) = isize ino"
  by (simp add: file_data_def)

text \<open>A run of bytes inside one block is a run of the file.\<close>

lemma seg_file_data:
  assumes "off + m \<le> isize ino" and "off mod 512 + m \<le> 512" and "length (file_blk G V ino (off div 512)) = 512"
  shows "seg off m (file_data G V ino) = seg (off mod 512) m (file_blk G V ino (off div 512))"
proof (rule nth_equalityI)
  fix i
  assume "i < length (seg off m (file_data G V ino))"
  then have i: "i < m"
    using assms(1) by simp
  then have "(off + i) div 512 = off div 512" "(off + i) mod 512 = off mod 512 + i"
    using assms(2) by (intro div_mod_run; simp)+
  with i assms show "seg off m (file_data G V ino) ! i =
      seg (off mod 512) m (file_blk G V ino (off div 512)) ! i"
    by (simp add: file_data_def)
qed (use assms in simp)

subsection \<open>The lookups compute these functions\<close>

context block_device
begin

lemma read_inode_ok:
  assumes "cst n V P c" and G: "geom_ok G n" and "idx < 16 * g_inode_block_count G" and "pins_room 1 P"
  shows "does n P (read_inode G idx c) (Inr (inode_at G V idx)) V"
  unfolding read_inode_def Let_def
  by (rule does_look [OF assms(1) geom_okD(1) [OF G assms(3)] _ assms(4)])
     (use geom_okD(2) [OF G assms(3)] in \<open>simp_all add: ktfs_consts u32_def inode_at_def\<close>)

lemma data_block_look:
  assumes "cst n V P c" and G: "geom_ok G n" and b: "ptr_ok G b" and "pins_room 1 P"
    and "body (dblk G V b) = (r, None)"
  shows "does n P (with_block c (data_blk_to_pos G b) err body) r V"
  by (rule does_look [OF assms(1) geom_okD(3,4) [OF G b] assms(4)]) (use assms(5) in \<open>simp add: dblk_def\<close>)

lemma resolve_block_ok:
  assumes c: "cst n V P c" and G: "geom_ok G n" and room: "pins_room 1 P"
    and map: "block_map G V ino l = Some b"
  shows "does n P (resolve_block G ino l c) (Inr b) V"
proof -
  consider "l < 3" | "3 \<le> l" "l < 131" | "131 \<le> l" by linarith
  then show ?thesis
  proof cases
    case 1
    then show ?thesis
      using c map by (auto simp: resolve_block_def block_map_def ktfs_consts intro!: does_return)
  next
    case 2
    then have "l - 3 < 128" by linarith
    with 2 map show ?thesis
      by (auto simp: resolve_block_def block_map_def ktfs_consts split: if_splits
               intro!: data_block_look [OF c G _ room])
  next
    case 3
    define m where "m = l - 131"
    define dind where "dind = idindirect ino ! (m div 16384)"
    define ind where "ind = arr_get (dblk G V dind) (m mod 16384 div 128)"
    have l: "l < 32899" and p: "ptr_ok G dind" "ptr_ok G ind"
      and b: "b = arr_get (dblk G V ind) (m mod 16384 mod 128)"
      using 3 map by (auto simp: block_map_def Let_def m_def dind_def ind_def split: if_splits)
    have ge: "\<not> l < 3" "\<not> l - 3 < 128" "\<not> 32768 \<le> m"
      using 3 l by (simp_all add: m_def)
    have "resolve_block G ino l c = with_block c (data_blk_to_pos G dind) (Inl (- EIO))
            (\<lambda>d. (Inr (arr_get d (m mod 16384 div 128)), None)) \<bind>
          (\<lambda>(r, c). case r of Inl rc \<Rightarrow> Some (Inl rc, c) | Inr indirect_blk \<Rightarrow>
              with_block c (data_blk_to_pos G indirect_blk) (Inl (- EIO))
                (\<lambda>d. (Inr (arr_get d (m mod 16384 mod 128)), None)))"
      using ge by (simp add: resolve_block_def ktfs_consts Let_def m_def [symmetric] dind_def
                         cong: sum.case_cong)
    then show ?thesis
      by (simp only:) (rule does_bind [OF data_block_look [OF c G p(1) room refl]],
          auto simp: ind_def [symmetric] b intro!: data_block_look [OF _ G p(2) room])
  qed
qed

lemma offset_block:
  assumes "file_ok G V ino" and "off < isize ino"
  obtains b where "block_map G V ino (off div 512) = Some b" "ptr_ok G b"
    "file_blk G V ino (off div 512) = dblk G V b" "u32 (off div 512) = off div 512" "u64 off = off"
proof -
  have "512 * (off div 512) < isize ino"
    using assms(2) mult_div_mod_eq [of 512 off] by linarith
  moreover have "off < 4294967296"
    using assms by (simp add: file_ok_def)
  then have "u64 off = off" "u32 (off div 512) = off div 512"
    by (simp_all add: u64_def u32_def order.strict_trans1 [OF div_le_dividend])
  ultimately show thesis
    using file_okD [OF assms(1)] that by metis
qed

text \<open>The loop of \<open>ktfs_readat\<close> delivers the run of the file it was asked for.\<close>

lemma readat_loop_ok:
  assumes c: "cst n V P c" and G: "geom_ok G n" and room: "pins_room 1 P" and ok: "file_ok G V ino"
    and len: "pos + len \<le> isize ino" and copied: "copied \<le> len"
    and buf: "buf = seg pos copied (file_data G V ino)"
  shows "does n P (readat_loop G ino pos len copied buf c) (int len, seg pos len (file_data G V ino)) V"
  using c copied buf
proof (induction "len - copied" arbitrary: copied buf c rule: less_induct)
  case less
  note c = less.prems(1)
  show ?case
  proof (cases "copied < len")
    case False
    then show ?thesis
      using less.prems by (subst readat_loop.simps) (auto intro!: does_return)
  next
    case True
    define off where "off = pos + copied"
    define m where "m = chunk_len off (len - copied)"
    have off: "off < isize ino" and m: "0 < m" "copied + m \<le> len" "off mod 512 + m \<le> 512"
      using True len chunk_len_pos [of "len - copied" off] chunk_len_le [of off "len - copied"]
      by (auto simp: off_def m_def chunk_len_def KTFS_BLKSZ_def Let_def)
    obtain b where b: "block_map G V ino (off div 512) = Some b" "ptr_ok G b"
      "file_blk G V ino (off div 512) = dblk G V b" "u32 (off div 512) = off div 512" "u64 off = off"
      by (rule offset_block [OF ok off])
    have blen: "length (file_blk G V ino (off div 512)) = 512"
      using cst_length [OF c geom_okD(3) [OF G b(2)]] b(3) by (simp add: dblk_def)
    have "seg off m (file_data G V ino) = seg (off mod 512) m (dblk G V b)"
      using seg_file_data [of off m] blen b(3) m len by (simp add: off_def)
    then have buf: "buf @ seg (off mod 512) m (dblk G V b) = seg pos (copied + m) (file_data G V ino)"
      using seg_append [of pos copied "file_data G V ino" m] less.prems(3) by (simp add: off_def)
    show ?thesis
      using True
      apply (subst readat_loop.simps)
      apply (simp add: Let_def data_block_for_offset_def KTFS_BLKSZ_def off_def [symmetric] b m_def [symmetric]
          cong: sum.case_cong option.case_cong)
      apply (rule does_bind [OF resolve_block_ok [OF c G room b(1)]])
      apply simp
      apply (rule does_bind)
       apply (rule data_block_look [OF _ G b(2) room], assumption, simp)
      apply (simp add: buf)
      apply (rule less.hyps)
      using m by auto
  qed
qed

text \<open>\<open>find_dentry\<close> finds the first entry that matches.\<close>

lemma find_dentry_loop_ok:
  assumes "cst n V P c" and G: "geom_ok G n" and room: "pins_room 1 P" and ok: "file_ok G V root"
    and "\<And>d. d \<in> set ds \<Longrightarrow> d * 16 < isize root"
  shows "does n P (find_dentry_loop G root name ds c)
    (case find (\<lambda>de. name_match (de_name de) name) (map (dentry_at G V root) ds) of
       None \<Rightarrow> Inl (- ENOENT) | Some de \<Rightarrow> Inr (de_inode de)) V"
  using assms(1,5)
proof (induction ds arbitrary: c)
  case Nil
  then show ?case by (auto intro: does_return)
next
  case (Cons d ds)
  obtain b where b: "block_map G V root (d * 16 div 512) = Some b" "ptr_ok G b"
    "file_blk G V root (d * 16 div 512) = dblk G V b" "u32 (d * 16 div 512) = d * 16 div 512"
    using offset_block [OF ok, of "d * 16"] Cons.prems(2) by auto
  have de: "decode_dentry (seg (d * 16 mod 512) 16 (dblk G V b)) = dentry_at G V root d"
    by (simp only: dentry_at_def b(3))
  show ?case
    unfolding find_dentry_loop.simps Let_def ktfs_consts b(4)
  proof (rule does_bind [OF resolve_block_ok [OF Cons.prems(1) G room b(1)]], simp only: prod.case sum.case,
      rule does_bind [OF data_block_look [OF _ G b(2) room refl]], assumption)
    fix c'
    assume "cst n V P c'"
    then show "does n P
       (case (Inr (if name_match (de_name (decode_dentry (seg (d * 16 mod 512) 16 (dblk G V b)))) name
              then Some (de_inode (decode_dentry (seg (d * 16 mod 512) 16 (dblk G V b)))) else None), c') of
        (r, c) \<Rightarrow> case r of Inl rc \<Rightarrow> Some (Inl rc, c)
          | Inr None \<Rightarrow> find_dentry_loop G root name ds c
          | Inr (Some inode) \<Rightarrow> Some (Inr inode, c))
       (case find (\<lambda>de. name_match (de_name de) name) (map (dentry_at G V root) (d # ds)) of
          None \<Rightarrow> Inl (- ENOENT) | Some de \<Rightarrow> Inr (de_inode de)) V"
      using Cons.IH Cons.prems(2) by (auto simp: de intro: does_return)
  qed
qed

lemma find_dentry_ok:
  assumes c: "cst n V P c" and G: "geom_ok G n" and room: "pins_room 1 P"
    and ok: "file_ok G V (inode_at G V (g_root_inode_idx G))"
  shows "does n P (find_dentry G name c)
    (case dir_lookup G V name of None \<Rightarrow> Inl (- ENOENT) | Some idx \<Rightarrow> Inr idx) V"
proof -
  let ?root = "inode_at G V (g_root_inode_idx G)"
  have root: "g_root_inode_idx G < 16 * g_inode_block_count G"
    using G by (simp add: geom_ok_def)
  have "d * 16 < isize ?root" if "d < isize ?root div 16" for d
    using that less_eq_div_iff_mult_less_eq [of 16 "Suc d" "isize ?root"] by simp
  then have loop: "does n P (find_dentry_loop G ?root name [0..<isize ?root div 16] c')
    (case dir_lookup G V name of None \<Rightarrow> Inl (- ENOENT) | Some idx \<Rightarrow> Inr idx) V"
    if "cst n V P c'" for c'
    using find_dentry_loop_ok [OF that G room ok, of "[0..<isize ?root div 16]" name]
    by (simp add: dir_lookup_def dentries_def Let_def split: option.splits)
  show ?thesis
    unfolding find_dentry_def
    by (rule does_bind [OF read_inode_ok [OF c G root room]]) (simp add: loop KTFS_DENSZ_def)
qed

end

subsection \<open>Open files\<close>

text \<open>A mounted file system whose blocks are \<open>V\<close>, and a slot that holds an open, readable file.\<close>

definition fs_is ::
  "'d iointf \<Rightarrow> ('d \<Rightarrow> bool) \<Rightarrow> ('d \<Rightarrow> nat) \<Rightarrow> ('d \<Rightarrow> nat \<Rightarrow> byte list) \<Rightarrow>
     nat \<Rightarrow> (nat \<Rightarrow> byte list) \<Rightarrow> (nat \<Rightarrow> (nat \<times> int) option) \<Rightarrow> 'd ktfs \<Rightarrow> bool"
where
  "fs_is f dinv nblk blk n V P fs \<longleftrightarrow>
     geom_ok (g_geom fs) n \<and>
     (case g_cache fs of None \<Rightarrow> False | Some c \<Rightarrow> cache_is f dinv nblk blk n V P c)"

definition slot_ok :: "(nat \<Rightarrow> byte list) \<Rightarrow> 'd ktfs \<Rightarrow> nat \<Rightarrow> bool" where
  "slot_ok V fs slot \<longleftrightarrow>
     slot < length (g_open_files fs) \<and>
     (let f = g_open_files fs ! slot; G = g_geom fs; ino = inode_at G V (kf_inode_idx f)
      in kf_in_use f \<and> kf_inode_idx f < 16 * g_inode_block_count G \<and>
         kf_size f = isize ino \<and> file_ok G V ino)"

text \<open>The contents of the file in a slot.\<close>

definition slot_data :: "(nat \<Rightarrow> byte list) \<Rightarrow> 'd ktfs \<Rightarrow> nat \<Rightarrow> byte list" where
  "slot_data V fs slot =
     file_data (g_geom fs) V (inode_at (g_geom fs) V (kf_inode_idx (g_open_files fs ! slot)))"

context block_device
begin

lemma fs_isE:
  assumes "fs_is f dinv nblk blk n V P fs"
  obtains c where "g_cache fs = Some c" "cst n V P c" "geom_ok (g_geom fs) n"
  using assms by (auto simp: fs_is_def split: option.splits)

lemma fs_is_same [simp]: "cst n V P c \<Longrightarrow> geom_ok (g_geom fs) n \<Longrightarrow>
    fs_is f dinv nblk blk n V P (fs\<lparr>g_cache := Some c, g_open_files := fl\<rparr>)"
  "cst n V P c \<Longrightarrow> geom_ok (g_geom fs) n \<Longrightarrow> fs_is f dinv nblk blk n V P (fs\<lparr>g_cache := Some c\<rparr>)"
  by (simp_all add: fs_is_def)

lemma readat_ok:
  fixes pos :: nat and len :: int
  assumes fs: "fs_is f dinv nblk blk n V P fs" and room: "pins_room 1 P" and slot: "slot_ok V fs slot"
  defines "m \<equiv> min (nat len) (length (slot_data V fs slot) - pos)"
  obtains c' where "ktfs_readat slot pos len fs =
      Some ((int m, seg pos m (slot_data V fs slot)), fs\<lparr>g_cache := Some c'\<rparr>)" "cst n V P c'"
proof -
  obtain c where c: "g_cache fs = Some c" "cst n V P c" "geom_ok (g_geom fs) n"
    using fs by (rule fs_isE)
  let ?f = "g_open_files fs ! slot" and ?G = "g_geom fs"
  let ?ino = "inode_at ?G V (kf_inode_idx ?f)"
  have f: "kf_inode_idx ?f < 16 * g_inode_block_count ?G" "kf_size ?f = isize ?ino" "file_ok ?G V ?ino"
    using slot by (simp_all add: slot_ok_def Let_def)
  have m: "m = min (nat len) (isize ?ino - pos)"
    by (simp add: m_def slot_data_def)
  show thesis
  proof (cases "len \<le> 0 \<or> isize ?ino \<le> pos")
    case True
    then have "fs\<lparr>g_cache := Some c\<rparr> = fs" "m = 0"
      using c(1) m by auto
    then show thesis
      using that [of c] True f c by (auto simp: ktfs_readat_def Let_def)
  next
    case False
    have "does n P (read_inode ?G (kf_inode_idx ?f) c \<bind> (\<lambda>(r, c'). case r of
            Inl _ \<Rightarrow> None | Inr ino \<Rightarrow> readat_loop ?G ino pos m 0 [] c')) (int m, seg pos m (file_data ?G V ?ino)) V"
      by (rule does_bind [OF read_inode_ok [OF c(2,3) f(1) room]], simp,
          rule readat_loop_ok [OF _ c(3) room f(3)]) (use m False in auto)
    then obtain c1 c' where rd: "read_inode ?G (kf_inode_idx ?f) c = Some (Inr ?ino, c1)"
      "readat_loop ?G ?ino pos m 0 [] c1 = Some ((int m, seg pos m (file_data ?G V ?ino)), c')" "cst n V P c'"
      using read_inode_ok [OF c(2,3) f(1) room] by (auto simp: cache_does_def)
    have "(if isize ?ino - pos < nat len then isize ?ino - pos else nat len) = m"
      using m by simp
    with rd False f(2) c(1) have "ktfs_readat slot pos len fs =
      Some ((int m, seg pos m (slot_data V fs slot)), fs\<lparr>g_cache := Some c'\<rparr>)"
      by (simp add: ktfs_readat_def slot_data_def Let_def split del: if_split)
    with that rd(3) show thesis by blast
  qed
qed

lemma open_ok:
  assumes fs: "fs_is f dinv nblk blk n V P fs" and room: "pins_room 1 P"
    and root: "file_ok (g_geom fs) V (inode_at (g_geom fs) V (g_root_inode_idx (g_geom fs)))"
    and idx: "\<And>idx. dir_lookup (g_geom fs) V name = Some idx \<Longrightarrow> idx < 16 * g_inode_block_count (g_geom fs)"
  obtains c' where "cst n V P c'" "ktfs_open (Some name) fs = Some
    (case dir_lookup (g_geom fs) V name of
       None \<Rightarrow> (Inl (- ENOENT), fs\<lparr>g_cache := Some c'\<rparr>)
     | Some idx \<Rightarrow>
        (case first_idx (\<lambda>f. \<not> kf_in_use f) (g_open_files fs) of
           None \<Rightarrow> (Inl (- ENOMEM), fs\<lparr>g_cache := Some c'\<rparr>)
         | Some slot \<Rightarrow> (Inr slot, fs\<lparr>g_cache := Some c', g_open_files := (g_open_files fs)[slot :=
             \<lparr>kf_inode_idx = idx, kf_size = isize (inode_at (g_geom fs) V idx), kf_in_use = True,
              kf_name = take KTFS_MAX_FILENAME_LEN name\<rparr>]\<rparr>)))"
proof -
  obtain c where c: "g_cache fs = Some c" "cst n V P c" "geom_ok (g_geom fs) n"
    using fs by (rule fs_isE)
  obtain c1 where fd: "find_dentry (g_geom fs) name c =
      Some (case dir_lookup (g_geom fs) V name of None \<Rightarrow> Inl (- ENOENT) | Some idx \<Rightarrow> Inr idx, c1)"
    and c1: "cst n V P c1"
    using find_dentry_ok [OF c(2,3) room root] by (auto simp: cache_does_def)
  show thesis
  proof (cases "dir_lookup (g_geom fs) V name")
    case None
    then show thesis
      using that [OF c1] fd c(1) by (simp add: ktfs_open_def)
  next
    case (Some idx)
    obtain c2 where "read_inode (g_geom fs) idx c1 = Some (Inr (inode_at (g_geom fs) V idx), c2)"
      and "cst n V P c2"
      using read_inode_ok [OF c1 c(3) assms(4) [OF Some] room] by (auto simp: cache_does_def)
    then show thesis
      using that [OF c1] that [of c2] fd c(1) Some
      by (cases "first_idx (\<lambda>f. \<not> kf_in_use f) (g_open_files fs)") (simp_all add: ktfs_open_def Let_def)
  qed
qed

lemma mount_ok:
  assumes io: "intf io = f" "dinv (dev io)" "0 < nblk (dev io)" and alloc: "\<And>i. alloc i"
  obtains c' where "cst (nblk (dev io)) (blk (dev io)) Map.empty c'"
    "ktfs_mount alloc (Some io) fs = Some (0, fs\<lparr>g_cache := Some c', g_geom := mount_geom (blk (dev io) 0),
       g_open_files := map (\<lambda>f. f\<lparr>kf_in_use := False\<rparr>) (g_open_files fs)\<rparr>)"
proof -
  obtain c where c: "create_cache alloc (Some io) = Inr c"
    using alloc by (simp add: create_cache_def list_all_iff)
  then have c0: "cst (nblk (dev io)) (blk (dev io)) Map.empty c"
    using create_cache_ok [OF c io(1,2)] by (simp add: cache_is_def)
  have "pins_room 1 (Map.empty :: nat \<Rightarrow> (nat \<times> int) option)"
    by (simp add: pins_room_def CACHE_NENT_def)
  then have "does (nblk (dev io)) Map.empty (with_block c 0 None (\<lambda>sb. (Some (mount_geom sb), None)))
      (Some (mount_geom (blk (dev io) 0))) (blk (dev io))"
    by (intro does_look [OF c0 io(3)]) auto
  then show thesis
    using that c by (auto simp: cache_does_def ktfs_mount_def)
qed

end

end
