(* ===== verification/Ktfs_Open.thy ===== *)
theory Ktfs_Open
  imports Ktfs_Read
begin

text \<open>
  Mounting, opening and reading: the properties of the lookup side of the file system, and a small
  image on a memory endpoint that makes them concrete.
\<close>

subsection \<open>A small image\<close>

text \<open>
  Six blocks: superblock, bitmap (blocks 0 to 4 in use), inodes (the root with one entry and a file
  of five bytes), the root's entry \<open>a\<close> for inode 1, its contents \<open>hello\<close>, and a free block.
\<close>

definition pad_block :: "byte list \<Rightarrow> byte list" where
  "pad_block bs = bs @ replicate (512 - length bs) 0"

definition demo_root :: ktfs_inode where
  "demo_root = \<lparr>isize = 16, iflags = 0, iblock = [0, 0, 0], iindirect = 0, idindirect = [0, 0]\<rparr>"

definition demo_file :: ktfs_inode where
  "demo_file = \<lparr>isize = 5, iflags = 0, iblock = [1, 0, 0], iindirect = 0, idindirect = [0, 0]\<rparr>"

definition demo_blocks :: "byte list list" where
  "demo_blocks =
     [pad_block (nat_le 4 6 @ nat_le 4 1 @ nat_le 4 1 @ nat_le 2 0),
      pad_block [31],
      pad_block (encode_inode demo_root @ encode_inode demo_file),
      pad_block (encode_dentry \<lparr>de_inode = 1, de_name = 97 # replicate 13 0\<rparr>),
      pad_block [104, 101, 108, 108, 111],
      replicate 512 255]"

definition demo_geom :: geom where
  "demo_geom = \<lparr>g_block_count = 6, g_bitmap_block_count = 1, g_inode_block_count = 1,
                g_root_inode_idx = 0, g_first_inode_block = 2, g_first_data_block = 3\<rparr>"

definition demo_disk :: "memio io" where
  "demo_disk = ioinit1 \<lparr>mbuf = concat demo_blocks, msize = 3072, mlive = True\<rparr> memio_iointf"

definition demo_fs :: "memio ktfs" where
  "demo_fs = \<lparr>g_cache = None, g_geom = demo_geom, g_open_files = replicate KTFS_MAX_OPEN
     \<lparr>kf_inode_idx = 0, kf_size = 0, kf_in_use = False, kf_name = []\<rparr>\<rparr>"

lemma seg_concat_block:
  assumes "\<And>b. b \<in> set bs \<Longrightarrow> length b = n" and "k < length bs"
  shows "seg (n * k) n (concat bs) = bs ! k"
  using assms
proof (induction bs arbitrary: k)
  case (Cons b bs)
  then show ?case
    by (cases k) (simp_all add: seg_def)
qed simp

lemma length_demo_blocks: "b \<in> set demo_blocks \<Longrightarrow> length b = 512"
  by (auto simp: demo_blocks_def pad_block_def encode_inode_def encode_dentry_def demo_root_def demo_file_def)

abbreviation demo_V :: "nat \<Rightarrow> byte list" where
  "demo_V \<equiv> mem_blk (dev demo_disk)"

lemma demo_V_block: "k < 6 \<Longrightarrow> demo_V k = demo_blocks ! k"
  using seg_concat_block [where bs = demo_blocks and n = 512 and k = k] length_demo_blocks
  by (simp add: mem_blk_def demo_disk_def ioinit1_def demo_blocks_def)

lemma length_concat_demo: "length (concat demo_blocks) = 3072"
  by (simp add: demo_blocks_def pad_block_def encode_inode_def encode_dentry_def demo_root_def demo_file_def)

lemma demo_disk_facts:
  "intf demo_disk = memio_iointf" "memio_wf (dev demo_disk)" "mem_nblk (dev demo_disk) = 6"
  using length_concat_demo by (simp_all add: demo_disk_def ioinit1_def memio_wf_def mem_nblk_def)

lemma demo_blocks_nth [simp]:
  "demo_V 0 = pad_block (nat_le 4 6 @ nat_le 4 1 @ nat_le 4 1 @ nat_le 2 0)"
  "demo_V 2 = pad_block (encode_inode demo_root @ encode_inode demo_file)"
  "demo_V 3 = pad_block (encode_dentry \<lparr>de_inode = 1, de_name = 97 # replicate 13 0\<rparr>)"
  "demo_V 4 = pad_block [104, 101, 108, 108, 111]"
  by (simp_all add: demo_V_block) (simp_all add: demo_blocks_def)

lemma seg_pad: "off + n \<le> length bs \<Longrightarrow> seg off n (pad_block bs) = seg off n bs"
  by (simp add: pad_block_def seg_def)

lemma length_encode_inode_demo:
  "length (encode_inode demo_root) = 32" "length (encode_inode demo_file) = 32"
  by (simp_all add: encode_inode_def demo_root_def demo_file_def)

lemma demo_mount_geom: "mount_geom (demo_V 0) = demo_geom"
proof -
  let ?sb = "nat_le 4 6 @ nat_le 4 1 @ nat_le 4 1 @ nat_le 2 0"
  have "le_nat (seg 0 4 ?sb) = 6" "le_nat (seg 4 4 ?sb) = 1" "le_nat (seg 8 4 ?sb) = 1"
    "le_nat (seg 12 2 ?sb) = 0"
    by code_simp+
  then show ?thesis
    unfolding demo_blocks_nth mount_geom_def Let_def by (simp add: seg_pad demo_geom_def u32_def)
qed

lemma demo_geom_ok: "geom_ok demo_geom 6"
  by (simp add: geom_ok_def demo_geom_def)

lemma demo_inodes: "inode_at demo_geom demo_V 0 = demo_root" "inode_at demo_geom demo_V 1 = demo_file"
proof -
  have e: "inode_at demo_geom demo_V i = decode_inode (seg (i * 32) 32 (encode_inode demo_root @ encode_inode demo_file))"
    if "i < 2" for i
    using that by (simp add: inode_at_def demo_geom_def seg_pad length_encode_inode_demo)
  have "decode_inode (seg 0 32 (encode_inode demo_root @ encode_inode demo_file)) = demo_root"
    "decode_inode (seg 32 32 (encode_inode demo_root @ encode_inode demo_file)) = demo_file"
    by code_simp+
  then show "inode_at demo_geom demo_V 0 = demo_root" "inode_at demo_geom demo_V 1 = demo_file"
    using e [of 0] e [of 1] by simp_all
qed

lemma demo_files_ok: "file_ok demo_geom demo_V demo_root" "file_ok demo_geom demo_V demo_file"
  by (simp_all add: file_ok_def demo_root_def demo_file_def block_map_def ptr_ok_def demo_geom_def)

lemma demo_dentries: "dentries demo_geom demo_V = [\<lparr>de_inode = 1, de_name = 97 # replicate 13 0\<rparr>]"
proof -
  have "dentries demo_geom demo_V = [dentry_at demo_geom demo_V demo_root 0]"
    using demo_inodes(1) by (simp add: dentries_def demo_geom_def Let_def) (simp add: demo_root_def)
  also have "dentry_at demo_geom demo_V demo_root 0 =
      decode_dentry (seg 0 16 (encode_dentry \<lparr>de_inode = 1, de_name = 97 # replicate 13 0\<rparr>))"
    by (simp add: dentry_at_def file_blk_def block_map_def demo_root_def dblk_def demo_geom_def
          seg_pad encode_dentry_def)
  also have "\<dots> = \<lparr>de_inode = 1, de_name = 97 # replicate 13 0\<rparr>"
    by code_simp
  finally show ?thesis .
qed

lemma demo_dir: "dir_lookup demo_geom demo_V [97] = Some 1"
proof -
  have "name_match (97 # replicate 13 0) [97]"
    by code_simp
  then show ?thesis
    by (simp add: dir_lookup_def demo_dentries)
qed

lemma demo_hello: "file_data demo_geom demo_V demo_file = [104, 101, 108, 108, 111]"
proof -
  have "file_data demo_geom demo_V demo_file = seg 0 5 (demo_V 4)"
    using seg_file_data [of 0 5 demo_file demo_geom demo_V]
    by (simp add: demo_file_def file_blk_def block_map_def dblk_def demo_geom_def file_data_def seg_def pad_block_def)
  then show ?thesis
    by (simp add: seg_pad) (simp add: seg_def)
qed

text \<open>The image mounted: the cache is fresh and every slot is free.\<close>

definition demo_mounted :: "memio ktfs" where
  "demo_mounted = demo_fs\<lparr>g_cache := Some \<lparr>cbkgio = demo_disk, ents = replicate CACHE_NENT zero_entry\<rparr>\<rparr>"

lemma demo_room_empty: "pins_room 1 Map.empty"
  by (simp add: pins_room_def CACHE_NENT_def)

lemma demo_mounted_is: "fs_is memio_iointf memio_wf mem_nblk mem_blk 6 demo_V Map.empty demo_mounted"
proof -
  have "create_cache (\<lambda>_. True) (Some demo_disk) = Inr \<lparr>cbkgio = demo_disk, ents = replicate CACHE_NENT zero_entry\<rparr>"
    by (simp add: create_cache_def list_all_iff)
  from memdev.create_cache_ok [OF this demo_disk_facts(1,2)] demo_disk_facts(3) demo_geom_ok
  show ?thesis
    by (simp add: fs_is_def demo_mounted_def demo_fs_def cache_is_def)
qed

definition demo_opened :: "memio ktfs" where
  "demo_opened = demo_mounted\<lparr>g_open_files := (g_open_files demo_mounted)[0 :=
     \<lparr>kf_inode_idx = 1, kf_size = 5, kf_in_use = True, kf_name = [97]\<rparr>]\<rparr>"

lemma demo_opened_is: "fs_is memio_iointf memio_wf mem_nblk mem_blk 6 demo_V Map.empty demo_opened"
  using demo_mounted_is by (simp add: fs_is_def demo_opened_def)

lemma demo_opened_geom: "g_geom demo_opened = demo_geom" "g_geom demo_mounted = demo_geom"
  by (simp_all add: demo_opened_def demo_mounted_def demo_fs_def)

lemma demo_slot0: "g_open_files demo_opened ! 0 =
    \<lparr>kf_inode_idx = 1, kf_size = 5, kf_in_use = True, kf_name = [97]\<rparr>" "0 < length (g_open_files demo_opened)"
  by (simp_all add: demo_opened_def demo_mounted_def demo_fs_def KTFS_MAX_OPEN_def)

lemma demo_slot_ok: "slot_ok demo_V demo_opened 0"
  using demo_slot0 demo_inodes(2) demo_files_ok(2)
  by (simp add: slot_ok_def demo_opened_geom Let_def) (simp add: demo_geom_def demo_file_def)

lemma demo_slot_data: "slot_data demo_V demo_opened 0 = [104, 101, 108, 108, 111]"
  using demo_slot0 demo_inodes(2) demo_hello by (simp add: slot_data_def demo_opened_geom)

subsection \<open>Properties\<close>

text \<open>
  C3: Reading is exact. On a mounted image over any block device, \<open>ktfs_readat\<close> of an open file
  (through direct, indirect and doubly-indirect blocks, in chunks) returns the number of bytes
  available from \<open>pos\<close>, at most \<open>len\<close>, and stores exactly those bytes of the file; no block of
  the image changes and no reference is kept.
\<close>

theorem ktfs_readat_exact:
  assumes "block_device f dinv nblk blk" and "fs_is f dinv nblk blk n V P fs" and "pins_room 1 P"
    and "slot_ok V fs slot"
  shows "\<exists>c'. ktfs_readat slot pos len fs =
      Some ((int (min (nat len) (length (slot_data V fs slot) - pos)),
             seg pos (min (nat len) (length (slot_data V fs slot) - pos)) (slot_data V fs slot)),
            fs\<lparr>g_cache := Some c'\<rparr>) \<and>
    cache_is f dinv nblk blk n V P c'"
  by (rule block_device.readat_ok [OF assms]) (rule exI, rule conjI, assumption+)

theorem ktfs_readat_exact_witness:
  "\<exists>c'. ktfs_readat 0 1 100 demo_opened = Some ((4, [101, 108, 108, 111]), demo_opened\<lparr>g_cache := Some c'\<rparr>)"
  using ktfs_readat_exact [OF memdev.block_device_axioms demo_opened_is demo_room_empty demo_slot_ok, of 1 100]
  by (auto simp: demo_slot_data seg_def)

text \<open>
  C4: \<open>ktfs_open\<close> follows the directory. It looks the name up among the root's entries: no match
  gives \<open>-ENOENT\<close>, no free slot \<open>-ENOMEM\<close>; otherwise the first free slot becomes the file of the
  first matching entry, with the size of its inode, and the other slots and the image are untouched.
\<close>

theorem ktfs_open_lookup:
  assumes "block_device f dinv nblk blk" and "fs_is f dinv nblk blk n V P fs" and "pins_room 1 P"
    and "file_ok (g_geom fs) V (inode_at (g_geom fs) V (g_root_inode_idx (g_geom fs)))"
    and "\<And>idx. dir_lookup (g_geom fs) V name = Some idx \<Longrightarrow> idx < 16 * g_inode_block_count (g_geom fs)"
  shows "\<exists>c'. cache_is f dinv nblk blk n V P c' \<and> ktfs_open (Some name) fs = Some
    (case dir_lookup (g_geom fs) V name of
       None \<Rightarrow> (Inl (- ENOENT), fs\<lparr>g_cache := Some c'\<rparr>)
     | Some idx \<Rightarrow>
        (case first_idx (\<lambda>f. \<not> kf_in_use f) (g_open_files fs) of
           None \<Rightarrow> (Inl (- ENOMEM), fs\<lparr>g_cache := Some c'\<rparr>)
         | Some slot \<Rightarrow> (Inr slot, fs\<lparr>g_cache := Some c', g_open_files := (g_open_files fs)[slot :=
             \<lparr>kf_inode_idx = idx, kf_size = isize (inode_at (g_geom fs) V idx), kf_in_use = True,
              kf_name = take KTFS_MAX_FILENAME_LEN name\<rparr>]\<rparr>)))"
  by (rule block_device.open_ok [OF assms(1-4)], rule assms(5), assumption) (rule exI, rule conjI, assumption+)

theorem ktfs_open_lookup_witness:
  "\<exists>c'. ktfs_open (Some [97]) demo_mounted = Some (Inr 0, demo_opened\<lparr>g_cache := Some c'\<rparr>)"
proof -
  have "first_idx (\<lambda>f. \<not> kf_in_use f) (g_open_files demo_mounted) = Some 0"
    by (simp add: demo_mounted_def demo_fs_def KTFS_MAX_OPEN_def first_idx_Some)
  moreover have "file_ok demo_geom demo_V (inode_at demo_geom demo_V (g_root_inode_idx demo_geom))"
    using demo_inodes(1) demo_files_ok(1) by (simp add: demo_geom_def)
  moreover have "1 < 16 * g_inode_block_count demo_geom"
    by (simp add: demo_geom_def)
  ultimately obtain c' where "ktfs_open (Some [97]) demo_mounted = Some (Inr 0, demo_mounted\<lparr>g_cache := Some c',
      g_open_files := (g_open_files demo_mounted)[0 := \<lparr>kf_inode_idx = 1,
        kf_size = isize (inode_at demo_geom demo_V 1), kf_in_use = True,
        kf_name = take KTFS_MAX_FILENAME_LEN [97]\<rparr>]\<rparr>)"
    using ktfs_open_lookup [OF memdev.block_device_axioms demo_mounted_is demo_room_empty, of "[97]",
        unfolded demo_opened_geom demo_dir option.case] by (auto simp del: demo_blocks_nth)
  then show ?thesis
    unfolding demo_inodes(2)
    by (intro exI [of _ c'])
       (simp add: demo_opened_def demo_mounted_def demo_file_def KTFS_MAX_FILENAME_LEN_def)
qed

text \<open>
  \<open>ktfs_mount\<close> of a device with a superblock succeeds whenever its allocations do: the globals
  become the superblock's fields and the derived block numbers, every slot is freed, and the cache
  shows exactly the device, with no reference held.
\<close>

theorem ktfs_mount_reads_superblock:
  assumes "block_device f dinv nblk blk" and "intf io = f" and "dinv (dev io)" and "0 < nblk (dev io)"
    and "\<And>i. alloc i"
  shows "\<exists>c'. cache_is f dinv nblk blk (nblk (dev io)) (blk (dev io)) Map.empty c' \<and>
    ktfs_mount alloc (Some io) fs = Some (0, fs\<lparr>g_cache := Some c',
      g_geom := mount_geom (blk (dev io) 0),
      g_open_files := map (\<lambda>f. f\<lparr>kf_in_use := False\<rparr>) (g_open_files fs)\<rparr>)"
  by (rule block_device.mount_ok [OF assms]) (rule exI, rule conjI, assumption+)

theorem ktfs_mount_reads_superblock_witness:
  "\<exists>c'. cache_is memio_iointf memio_wf mem_nblk mem_blk 6 demo_V Map.empty c' \<and>
     ktfs_mount (\<lambda>_. True) (Some demo_disk) demo_fs = Some (0, demo_fs\<lparr>g_cache := Some c'\<rparr>)"
proof -
  have "map (\<lambda>f. f\<lparr>kf_in_use := False\<rparr>) (g_open_files demo_fs) = g_open_files demo_fs"
    by (simp add: demo_fs_def)
  moreover have "demo_fs\<lparr>g_cache := Some c, g_geom := demo_geom, g_open_files := g_open_files demo_fs\<rparr> =
      demo_fs\<lparr>g_cache := Some c\<rparr>" for c
    by (simp add: demo_fs_def)
  ultimately show ?thesis
    using ktfs_mount_reads_superblock [OF memdev.block_device_axioms demo_disk_facts(1,2), of "\<lambda>_. True" demo_fs,
        unfolded demo_disk_facts(3) demo_mount_geom] by simp
qed

end
