(* ===== verification/Ktfs_Alloc.thy ===== *)
theory Ktfs_Alloc
  imports Ktfs_Open
begin

text \<open>
  The writing side of the metadata: inodes and directory entries as packed bytes, and the
  allocation bitmap. The scan of \<open>alloc_data_block\<close> is shown equal to the search for the lowest
  free data block, \<open>write_inode\<close> to the update of one inode.
\<close>

unbundle bit_operations_syntax

subsection \<open>Packed structures\<close>

definition inode_wf :: "ktfs_inode \<Rightarrow> bool" where
  "inode_wf ino \<longleftrightarrow> isize ino < 4294967296 \<and> iflags ino < 4294967296 \<and>
     length (iblock ino) = 3 \<and> (\<forall>b \<in> set (iblock ino). b < 4294967296) \<and>
     iindirect ino < 4294967296 \<and>
     length (idindirect ino) = 2 \<and> (\<forall>b \<in> set (idindirect ino). b < 4294967296)"

lemma length3E:
  assumes "length xs = 3"
  obtains a b c where "xs = [a, b, c]"
  using assms by (auto simp: numeral_3_eq_3 length_Suc_conv)

lemma length2E:
  assumes "length xs = 2"
  obtains a b where "xs = [a, b]"
  using assms by (auto simp: numeral_2_eq_2 length_Suc_conv)

lemma length_encode_inode: "inode_wf ino \<Longrightarrow> length (encode_inode ino) = 32"
  by (auto simp: inode_wf_def encode_inode_def elim!: length3E length2E)

text \<open>Reading a field of a concatenation of fields.\<close>

lemma seg_append_skip: "length xs \<le> off \<Longrightarrow> seg off n (xs @ ys) = seg (off - length xs) n ys"
  by (simp add: seg_def)

lemma seg_append_here: "length xs = n \<Longrightarrow> seg 0 n (xs @ ys) = xs"
  by (simp add: seg_def)

lemma seg_self: "length xs = n \<Longrightarrow> seg 0 n xs = xs"
  by (simp add: seg_def)

lemmas field_simps = seg_append_skip seg_append_here seg_self

lemma decode_encode_inode:
  assumes "inode_wf ino"
  shows "decode_inode (encode_inode ino) = ino"
proof -
  obtain a b c where b: "iblock ino = [a, b, c]"
    using assms by (auto simp: inode_wf_def elim: length3E)
  obtain d e where d: "idindirect ino = [d, e]"
    using assms by (auto simp: inode_wf_def elim: length2E)
  have "[0..<3] = [0, 1, 2]" "[0..<2] = [0, 1::nat]"
    by (simp_all add: upt_rec)
  with assms b d show ?thesis
    by (cases ino) (simp add: inode_wf_def decode_inode_def encode_inode_def field_simps)
qed

lemma encode_decode_inode:
  assumes "length bs = 32"
  shows "encode_inode (decode_inode bs) = bs" and "inode_wf (decode_inode bs)"
proof -
  have upt: "[0..<3] = [0, 1, 2]" "[0..<2] = [0, 1::nat]"
    by (simp_all add: upt_rec)
  have s: "nat_le 4 (le_nat (seg i 4 bs)) = seg i 4 bs" if "i + 4 \<le> 32" for i
    using nat_le_le_nat [of "seg i 4 bs"] assms that by simp
  have "seg 0 4 bs @ seg 4 4 bs @ seg 8 4 bs @ seg 12 4 bs @ seg 16 4 bs @ seg 20 4 bs @
        seg 24 4 bs @ seg 28 4 bs = seg 0 32 bs"
    using seg_append [of 0 4 bs 28] seg_append [of 4 4 bs 24] seg_append [of 8 4 bs 20]
      seg_append [of 12 4 bs 16] seg_append [of 16 4 bs 12] seg_append [of 20 4 bs 8]
      seg_append [of 24 4 bs 4] by simp
  then show "encode_inode (decode_inode bs) = bs"
    using s assms by (simp add: encode_inode_def decode_inode_def upt seg_self)
  show "inode_wf (decode_inode bs)"
    using le_nat_seg_bound [of _ 4 bs] by (simp add: inode_wf_def decode_inode_def upt)
qed

lemma decode_encode_dentry:
  assumes "de_inode de < 65536" and "length (de_name de) = 14"
  shows "decode_dentry (encode_dentry de) = de"
  using assms by (cases de) (simp add: decode_dentry_def encode_dentry_def field_simps)

subsection \<open>Writing inodes\<close>

definition put_inode :: "geom \<Rightarrow> (nat \<Rightarrow> byte list) \<Rightarrow> nat \<Rightarrow> ktfs_inode \<Rightarrow> (nat \<Rightarrow> byte list)" where
  "put_inode G V idx ino =
     (let k = g_first_inode_block G + idx div 16
      in V(k := patch (idx mod 16 * 32) (encode_inode ino) (V k)))"

lemma inode_slot_inside: "idx mod 16 * 32 + 32 \<le> (512 :: nat)"
proof -
  have "idx mod 16 \<le> 15" by simp
  then have "idx mod 16 * 32 \<le> 15 * 32" by (rule mult_le_mono1)
  then show ?thesis by simp
qed

lemma inode_at_put_same:
  assumes "inode_wf ino" and "length (V (g_first_inode_block G + idx div 16)) = 512"
  shows "inode_at G (put_inode G V idx ino) idx = ino"
  using assms inode_slot_inside [of idx] length_encode_inode [OF assms(1)]
  by (simp add: inode_at_def put_inode_def Let_def decode_encode_inode)

lemma inode_at_put_other:
  assumes "inode_wf ino" and "length (V (g_first_inode_block G + idx div 16)) = 512" and "idx' \<noteq> idx"
  shows "inode_at G (put_inode G V idx ino) idx' = inode_at G V idx'"
proof (cases "idx' div 16 = idx div 16")
  case True
  then have "idx' mod 16 \<noteq> idx mod 16"
    using assms(3) by (metis div_mod_decomp)
  then have "idx' mod 16 * 32 + 32 \<le> idx mod 16 * 32 \<or> idx mod 16 * 32 + 32 \<le> idx' mod 16 * 32"
    by linarith
  with True assms(2) inode_slot_inside [of idx] length_encode_inode [OF assms(1)] show ?thesis
    by (simp add: inode_at_def put_inode_def Let_def seg_patch_other)
qed (simp add: inode_at_def put_inode_def Let_def)

lemma put_inode_same:
  assumes "length (V (g_first_inode_block G + idx div 16)) = 512"
  shows "put_inode G V idx (inode_at G V idx) = V"
proof -
  have "patch off (seg off 32 xs) xs = xs" if "off + 32 \<le> length xs" for off and xs :: "byte list"
    using that by (intro nth_equalityI) (auto simp: nth_patch)
  then show ?thesis
    using assms inode_slot_inside [of idx] by (simp add: put_inode_def inode_at_def Let_def encode_decode_inode)
qed

context block_device
begin

lemma write_inode_ok:
  assumes "cst n V P c" and G: "geom_ok G n" and idx: "idx < 16 * g_inode_block_count G" and "pins_room 1 P"
    and ino: "inode_wf ino"
  shows "does n P (write_inode G idx ino c) 0 (put_inode G V idx ino)"
  unfolding write_inode_def put_inode_def Let_def
  by (rule does_change [OF assms(1) geom_okD(1) [OF G idx] _ assms(4)])
     (use geom_okD(2) [OF G idx] inode_slot_inside [of idx] length_encode_inode [OF ino]
        cst_length [OF assms(1) geom_okD(1) [OF G idx]]
      in \<open>simp_all add: ktfs_consts u32_def\<close>)

end

subsection \<open>The allocation bitmap\<close>

definition block_used :: "(nat \<Rightarrow> byte list) \<Rightarrow> nat \<Rightarrow> bool" where
  "block_used V b \<longleftrightarrow> bit (V (1 + b div 4096) ! (b mod 4096 div 8)) (b mod 8)"

definition mark_used :: "(nat \<Rightarrow> byte list) \<Rightarrow> nat \<Rightarrow> (nat \<Rightarrow> byte list)" where
  "mark_used V b =
     (let k = 1 + b div 4096; byte = b mod 4096 div 8
      in V(k := (V k)[byte := V k ! byte OR push_bit (b mod 8) 1]))"

definition mark_free :: "(nat \<Rightarrow> byte list) \<Rightarrow> nat \<Rightarrow> (nat \<Rightarrow> byte list)" where
  "mark_free V b =
     (let k = 1 + b div 4096; byte = b mod 4096 div 8
      in V(k := (V k)[byte := V k ! byte AND NOT (push_bit (b mod 8) 1)]))"

text \<open>The reference: the lowest data block that is not in use.\<close>

definition lowest_free :: "geom \<Rightarrow> (nat \<Rightarrow> byte list) \<Rightarrow> nat option" where
  "lowest_free G V = find (\<lambda>b. \<not> block_used V b) [g_first_data_block G..<g_block_count G]"

text \<open>
  What a scan of the block numbers from \<open>lo\<close> up to \<open>hi\<close> has found, \<open>used\<close> being the bits.
\<close>

fun scan_spec :: "geom \<Rightarrow> (nat \<Rightarrow> bool) \<Rightarrow> nat \<Rightarrow> nat \<Rightarrow> bitmap_scan \<Rightarrow> bool" where
  "scan_spec G used lo hi NotFound \<longleftrightarrow> (\<forall>b. lo \<le> b \<and> b < hi \<and> g_first_data_block G \<le> b \<longrightarrow> used b)"
| "scan_spec G used lo hi (Found byte bt n) \<longleftrightarrow>
     lo \<le> n \<and> n < hi \<and> g_first_data_block G \<le> n \<and> n < g_block_count G \<and> \<not> used n \<and>
     byte = n mod 4096 div 8 \<and> bt = n mod 8 \<and>
     (\<forall>b. lo \<le> b \<and> b < n \<and> g_first_data_block G \<le> b \<longrightarrow> used b)"
| "scan_spec G used lo hi Beyond \<longleftrightarrow>
     (\<forall>b. lo \<le> b \<and> b < hi \<and> g_first_data_block G \<le> b \<and> b < g_block_count G \<longrightarrow> used b) \<and>
     g_block_count G < hi"
| "scan_spec G used lo hi Unreadable \<longleftrightarrow> False"

lemma scan_spec_append:
  assumes "scan_spec G used lo mid NotFound" and "scan_spec G used mid hi r" and "lo \<le> mid" "mid \<le> hi"
  shows "scan_spec G used lo hi r"
  using assms by (cases r; simp; meson leI order.trans order.strict_trans1)

lemma scan_bits_spec:
  assumes "bmp * 4096 + byte * 8 + 8 < 4294967296" and "byte < 512" and "j \<le> 8"
    and "\<And>i. i < 8 \<Longrightarrow> used (bmp * 4096 + byte * 8 + i) = bit b i"
  shows "scan_spec G used (bmp * 4096 + byte * 8 + j) (bmp * 4096 + byte * 8 + 8) (scan_bits G bmp byte b [j..<8])"
  using assms(3)
proof (induction "8 - j" arbitrary: j)
  case 0
  then show ?case by auto
next
  case (Suc m)
  then have j: "j < 8" "[j..<8] = j # [Suc j..<8]"
    by (simp_all add: upt_conv_Cons)
  let ?N = "bmp * 4096 + byte * 8"
  have IH: "scan_spec G used (?N + Suc j) (?N + 8) (scan_bits G bmp byte b [Suc j..<8])"
    using Suc.hyps(1) [of "Suc j"] Suc.hyps(2) j by simp
  have n: "u32 (bmp * KTFS_BLKSZ * 8 + byte * 8 + j) = ?N + j"
    using assms(1) j by (simp add: u32_def KTFS_BLKSZ_def)
  have "?N + j = j + 8 * (bmp * 512 + byte)"
    by simp
  then have "(?N + j) mod 8 = j"
    using j by (simp only: mod_mult_self2) simp
  then have mods: "(?N + j) mod 4096 div 8 = byte" "(?N + j) mod 8 = j"
    using assms(2) j by (simp_all add: add.assoc)
  have one: "scan_spec G used (?N + j) (?N + Suc j) NotFound" if "used (?N + j) \<or> ?N + j < g_first_data_block G"
    using that by (auto simp: less_Suc_eq_le dest!: le_antisym)
  have step: "scan_spec G used (?N + j) (?N + 8) (scan_bits G bmp byte b [Suc j..<8])"
    if "used (?N + j) \<or> ?N + j < g_first_data_block G"
    by (rule scan_spec_append [OF one [OF that] IH]) (use j in auto)
  have bt: "b AND push_bit j 1 \<noteq> 0 \<longleftrightarrow> used (?N + j)"
    using assms(4) [OF j(1)] by (simp add: bit_iff_and_push_bit_not_eq_0)
  show ?case
    unfolding j(2) scan_bits.simps n Let_def bt
    using step mods j by auto
qed

lemma all_bits_byte: "i < 8 \<Longrightarrow> bit (255 :: byte) i"
proof -
  have "(255 :: byte) = - 1" by simp
  then show "i < 8 \<Longrightarrow> bit (255 :: byte) i" by (simp only:) simp
qed

lemma scan_bytes_spec:
  assumes "bmp * 4096 + 4096 < 4294967296" and "length bs = 512" and "byte \<le> 512"
    and "\<And>b. b < 4096 \<Longrightarrow> used (bmp * 4096 + b) = bit (bs ! (b div 8)) (b mod 8)"
  shows "scan_spec G used (bmp * 4096 + byte * 8) (bmp * 4096 + 4096) (scan_bytes G bmp byte (drop byte bs))"
  using assms(3)
proof (induction "512 - byte" arbitrary: byte)
  case 0
  then show ?case using assms(2) by auto
next
  case (Suc m)
  then have byte: "byte < 512" "drop byte bs = bs ! byte # drop (Suc byte) bs"
    using assms(2) by (simp_all add: Cons_nth_drop_Suc)
  let ?lo = "bmp * 4096 + byte * 8" and ?hi = "bmp * 4096 + 4096"
  have IH: "scan_spec G used (?lo + 8) ?hi (scan_bytes G bmp (Suc byte) (drop (Suc byte) bs))"
    using Suc.hyps(1) [of "Suc byte"] Suc.hyps(2) byte by (simp add: ac_simps)
  have used: "used (?lo + i) = bit (bs ! byte) i" if "i < 8" for i
    using assms(4) [of "byte * 8 + i"] byte that by (simp add: add.assoc)
  have step: "scan_spec G used ?lo ?hi r" if "scan_spec G used ?lo (?lo + 8) NotFound" "scan_spec G used (?lo + 8) ?hi r" for r
    by (rule scan_spec_append [OF that]) (use byte in auto)
  have wide: "scan_spec G used ?lo ?hi r" if "scan_spec G used ?lo (?lo + 8) r" "r \<noteq> NotFound" for r
    using that byte by (cases r) auto
  show ?case
  proof (cases "bs ! byte = 255")
    case True
    have "used b" if "?lo \<le> b" "b < ?lo + 8" for b
      using used [of "b - ?lo"] all_bits_byte [of "b - ?lo"] that True by simp
    then have "scan_spec G used ?lo (?lo + 8) NotFound" by simp
    with True step IH show ?thesis by (simp add: byte(2))
  next
    case False
    let ?r = "scan_bits G bmp byte (bs ! byte) [0..<8]"
    have r: "scan_spec G used ?lo (?lo + 8) ?r"
      using scan_bits_spec [of bmp byte 0 used "bs ! byte" G] used assms(1) byte(1) by simp
    have "scan_bytes G bmp byte (drop byte bs) =
        (if ?r = NotFound then scan_bytes G bmp (Suc byte) (drop (Suc byte) bs) else ?r)"
      using False by (cases ?r) (simp_all add: byte(2) del: upt_rec_numeral)
    then show ?thesis
      using r step IH wide by (cases "?r = NotFound") (simp_all del: scan_spec.simps upt_rec_numeral)
  qed
qed

lemma lowest_free_None:
  assumes "scan_spec G (block_used V) 0 hi NotFound" and "g_block_count G \<le> hi"
  shows "lowest_free G V = None"
  using assms by (auto simp: lowest_free_def find_None_iff)

lemma lowest_free_Beyond:
  "scan_spec G (block_used V) 0 hi Beyond \<Longrightarrow> lowest_free G V = None"
  by (auto simp: lowest_free_def find_None_iff)

lemma lowest_free_Found:
  assumes "scan_spec G (block_used V) 0 hi (Found byte bt b)"
  shows "lowest_free G V = Some b"
proof -
  let ?xs = "[g_first_data_block G..<g_block_count G]" and ?i = "b - g_first_data_block G"
  have "?i < length ?xs" "\<not> block_used V (?xs ! ?i)" "b = ?xs ! ?i"
    "\<And>j. j < ?i \<Longrightarrow> block_used V (?xs ! j)"
    using assms by auto
  then show ?thesis
    unfolding lowest_free_def find_Some_iff by blast
qed

lemma scan_bytes_block:
  assumes "geom_ok G n" and "k < g_bitmap_block_count G" and "length (V (1 + k)) = 512"
    and "scan_spec G (block_used V) 0 (k * 4096) NotFound"
  shows "scan_spec G (block_used V) 0 ((k + 1) * 4096) (scan_bytes G k 0 (V (1 + k)))"
    and "\<And>byte bt b. scan_bytes G k 0 (V (1 + k)) = Found byte bt b \<Longrightarrow>
           b div 4096 = k \<and> byte = b mod 4096 div 8 \<and> bt = b mod 8 \<and> g_first_data_block G \<le> b \<and> b < g_block_count G"
proof -
  have "k * 4096 + 4096 < 4294967296"
    using assms(1,2) by (simp add: geom_ok_def)
  moreover have "block_used V (k * 4096 + b) = bit (V (1 + k) ! (b div 8)) (b mod 8)" if "b < 4096" for b
  proof -
    have "(k * 4096 + b) mod 8 = b mod 8"
      using mod_mult_self2 [of b 8 "k * 512"] by (simp add: add.commute mult.commute)
    with that show ?thesis by (simp add: block_used_def)
  qed
  ultimately have "scan_spec G (block_used V) (k * 4096) (k * 4096 + 4096) (scan_bytes G k 0 (V (1 + k)))"
    using scan_bytes_spec [of k "V (1 + k)" 0 "block_used V" G] assms(3) by simp
  note sp = this
  show "scan_spec G (block_used V) 0 ((k + 1) * 4096) (scan_bytes G k 0 (V (1 + k)))"
    using scan_spec_append [OF assms(4) sp] by (simp add: add.commute)
  show "b div 4096 = k \<and> byte = b mod 4096 div 8 \<and> bt = b mod 8 \<and> g_first_data_block G \<le> b \<and> b < g_block_count G"
    if "scan_bytes G k 0 (V (1 + k)) = Found byte bt b" for byte bt b
  proof -
    have "k * 4096 \<le> b" "b < k * 4096 + 4096"
      using sp that by auto
    then have "b div 4096 = k"
      using div_nat_eqI [of k 4096 b] by simp
    with sp that show ?thesis by auto
  qed
qed

context block_device
begin

lemma alloc_loop_ok:
  assumes "cst n V P c" and G: "geom_ok G n" and room: "pins_room 1 P"
    and "scan_spec G (block_used V) 0 (k * 4096) NotFound" and "k \<le> g_bitmap_block_count G"
  shows "does n P (alloc_loop G [k..<g_bitmap_block_count G] c)
      (case lowest_free G V of None \<Rightarrow> Inl (- ENOMEM) | Some b \<Rightarrow> Inr (b - g_first_data_block G))
      (case lowest_free G V of None \<Rightarrow> V | Some b \<Rightarrow> (mark_used V b)(b := replicate 512 0))"
  using assms(1,4,5)
proof (induction "g_bitmap_block_count G - k" arbitrary: k c)
  case 0
  then have "lowest_free G V = None"
    using G by (intro lowest_free_None [of G V "k * 4096"]) (auto simp: geom_ok_def)
  with 0 show ?case by (auto intro: does_return)
next
  case (Suc m)
  then have k: "k < g_bitmap_block_count G" "[k..<g_bitmap_block_count G] = k # [Suc k..<g_bitmap_block_count G]"
    by (simp_all add: upt_conv_Cons)
  have kn: "1 + k < n"
    using G k(1) by (simp add: geom_ok_def)
  note scan = scan_bytes_block [OF G k(1) cst_length [OF Suc.prems(1) kn] Suc.prems(2)]
  let ?r = "scan_bytes G k 0 (V (1 + k))"
  show ?case
  proof (cases ?r)
    case NotFound
    then have "scan_spec G (block_used V) 0 (Suc k * 4096) NotFound"
      using scan(1) by (simp add: add.commute)
    with Suc k NotFound show ?thesis
      unfolding k(2) alloc_loop.simps
      by (auto intro!: does_bind [OF does_look [OF Suc.prems(1) kn _ room]] simp: KTFS_BLKSZ_def)
  next
    case Beyond
    then have "lowest_free G V = None"
      using scan(1) lowest_free_Beyond by simp
    with Beyond show ?thesis
      unfolding k(2) alloc_loop.simps
      by (auto intro!: does_bind [OF does_look [OF Suc.prems(1) kn _ room]] does_return simp: KTFS_BLKSZ_def)
  next
    case (Found byte bt b)
    then have free: "lowest_free G V = Some b"
      using scan(1) by (auto intro: lowest_free_Found)
    have b: "b div 4096 = k" "byte = b mod 4096 div 8" "bt = b mod 8" "b < n"
      using scan(2) [OF Found] G by (auto simp: geom_ok_def)
    let ?V1 = "V(1 + k := (V (1 + k))[byte := V (1 + k) ! byte OR push_bit bt 1])"
    have V1: "?V1 = mark_used V b"
      by (simp add: mark_used_def b Let_def)
    have "does n P (with_block c ((1 + k) * KTFS_BLKSZ) Unreadable
         (\<lambda>bytes. case scan_bytes G k 0 bytes of
            Found byte bt n \<Rightarrow> (Found byte bt n, Some (bytes[byte := bytes ! byte OR push_bit bt 1]))
          | r \<Rightarrow> (r, None))) (Found byte bt b) ?V1"
      by (rule does_change [OF Suc.prems(1) kn _ room])
         (use Found cst_length [OF Suc.prems(1) kn] in \<open>simp_all add: KTFS_BLKSZ_def\<close>)
    then show ?thesis
      unfolding k(2) alloc_loop.simps free option.case V1
      by (rule does_bind) (auto intro!: does_change [OF _ b(4) _ room] simp: KTFS_BLKSZ_def mult.commute)
  next
    case Unreadable
    then show ?thesis using scan(1) by simp
  qed
qed

lemma alloc_data_block_ok:
  assumes "cst n V P c" and "geom_ok G n" and "pins_room 1 P"
  shows "does n P (alloc_data_block G c)
      (case lowest_free G V of None \<Rightarrow> Inl (- ENOMEM) | Some b \<Rightarrow> Inr (b - g_first_data_block G))
      (case lowest_free G V of None \<Rightarrow> V | Some b \<Rightarrow> (mark_used V b)(b := replicate 512 0))"
  unfolding alloc_data_block_def by (rule alloc_loop_ok [OF assms]) auto

lemma free_data_block_ok:
  assumes c: "cst n V P c" and G: "geom_ok G n" and room: "pins_room 1 P" and b: "ptr_ok G b"
  shows "does n P (free_data_block G b c) 0 (mark_free V (g_first_data_block G + b))"
proof -
  let ?b = "g_first_data_block G + b"
  have lt: "?b < 4294967296" "?b < 4096 * g_bitmap_block_count G"
    using G b by (auto simp: geom_ok_def ptr_ok_def)
  have k: "?b div 4096 < g_bitmap_block_count G"
    using lt(2) by (simp add: less_mult_imp_div_less mult.commute)
  have kn: "1 + ?b div 4096 < n"
    using G k by (simp add: geom_ok_def)
  have idx: "?b div 8 mod 512 = ?b mod 4096 div 8" "?b div 8 div 512 = ?b div 4096"
    using div_mult2_eq [of ?b 8 512] mod_mult2_eq [of ?b 8 512] by simp_all
  have "free_data_block G b c = with_block c ((1 + ?b div 4096) * 512) (- EIO)
      (\<lambda>d. (0, Some (d[?b mod 4096 div 8 := d ! (?b mod 4096 div 8) AND NOT (push_bit (?b mod 8) 1)])))"
    using k lt idx by (simp add: free_data_block_def u32_def KTFS_BLKSZ_def Let_def)
  then show ?thesis
    unfolding mark_free_def Let_def
    by (simp only:) (rule does_change [OF c kn _ room], use cst_length [OF c kn] in simp_all)
qed

end

lemma same_bit_position:
  "(b :: nat) div 4096 = b' div 4096 \<Longrightarrow> b mod 4096 div 8 = b' mod 4096 div 8 \<Longrightarrow> b mod 8 = b' mod 8 \<Longrightarrow> b = b'"
proof -
  assume a: "b div 4096 = b' div 4096" "b mod 4096 div 8 = b' mod 4096 div 8" "b mod 8 = b' mod 8"
  have "x mod 4096 mod 8 = x mod 8" for x :: nat
    by (rule mod_mod_cancel) simp
  with a have "b mod 4096 = b' mod 4096"
    by (metis div_mod_decomp)
  with a(1) show "b = b'"
    by (metis div_mod_decomp)
qed

lemma bit_byte_one: "j < 8 \<Longrightarrow> i < 8 \<Longrightarrow> bit (2 ^ j :: byte) i \<longleftrightarrow> i = j"
  by (auto simp: bit_exp_iff)

lemma block_used_mark:
  assumes "length (V (1 + b div 4096)) = 512"
  shows "block_used (mark_used V b) b' \<longleftrightarrow> b' = b \<or> block_used V b'"
    and "block_used (mark_free V b) b' \<longleftrightarrow> b' \<noteq> b \<and> block_used V b'"
proof -
  have lt: "b mod 4096 div 8 < 512"
    by (simp add: less_mult_imp_div_less)
  have key: "b' = b \<longleftrightarrow> b' div 4096 = b div 4096 \<and> b' mod 4096 div 8 = b mod 4096 div 8 \<and> b' mod 8 = b mod 8"
    using same_bit_position by blast
  show "block_used (mark_used V b) b' \<longleftrightarrow> b' = b \<or> block_used V b'"
    unfolding key block_used_def mark_used_def Let_def using assms lt
    by (cases "b' div 4096 = b div 4096"; cases "b' mod 4096 div 8 = b mod 4096 div 8")
       (simp_all add: bit_or_iff bit_byte_one disj_commute)
  show "block_used (mark_free V b) b' \<longleftrightarrow> b' \<noteq> b \<and> block_used V b'"
    unfolding key block_used_def mark_free_def Let_def using assms lt
    by (cases "b' div 4096 = b div 4096"; cases "b' mod 4096 div 8 = b mod 4096 div 8")
       (simp_all add: bit_and_iff bit_not_iff bit_byte_one conj_commute)
qed

text \<open>Data blocks are not bitmap blocks, so writing one leaves every bit of the bitmap.\<close>

lemma block_used_data:
  assumes "geom_ok G n" and "g_first_data_block G \<le> k" and "b < g_block_count G"
  shows "block_used (V(k := bs)) b = block_used V b"
proof -
  have "b div 4096 < g_bitmap_block_count G"
    using assms by (intro less_mult_imp_div_less) (simp add: geom_ok_def mult.commute)
  then have "1 + b div 4096 \<noteq> k"
    using assms(1,2) by (simp add: geom_ok_def)
  then show ?thesis
    by (simp add: block_used_def)
qed

lemma lowest_freeD:
  assumes "lowest_free G V = Some b"
  shows "g_first_data_block G \<le> b" "b < g_block_count G" "\<not> block_used V b"
    "\<And>b'. g_first_data_block G \<le> b' \<Longrightarrow> b' < b \<Longrightarrow> block_used V b'"
proof -
  obtain i where i: "i < g_block_count G - g_first_data_block G" "\<not> block_used V (g_first_data_block G + i)"
    "b = g_first_data_block G + i" "\<And>j. j < i \<Longrightarrow> block_used V (g_first_data_block G + j)"
    using assms by (auto simp: lowest_free_def find_Some_iff)
  then show "g_first_data_block G \<le> b" "b < g_block_count G" "\<not> block_used V b"
    by auto
  show "block_used V b'" if "g_first_data_block G \<le> b'" "b' < b" for b'
    using i(4) [of "b' - g_first_data_block G"] i(3) that by auto
qed

lemma lowest_free_NoneD:
  "lowest_free G V = None \<Longrightarrow> g_first_data_block G \<le> b \<Longrightarrow> b < g_block_count G \<Longrightarrow> block_used V b"
  by (auto simp: lowest_free_def find_None_iff)

subsection \<open>Properties\<close>

text \<open>
  C5: The bitmap scan is the search for the lowest free block. \<open>alloc_data_block\<close> returns
  \<open>-ENOMEM\<close> and changes nothing when every data block is in use; otherwise it returns the lowest
  one that is not (as its data-relative number), marks it used, fills it with zeros, and leaves
  every other block of the image.
\<close>

theorem alloc_data_block_lowest:
  assumes "block_device f dinv nblk blk" and "cache_is f dinv nblk blk n V P c" and "geom_ok G n"
    and "pins_room 1 P"
  shows "\<exists>c'. (case lowest_free G V of
      None \<Rightarrow> alloc_data_block G c = Some (Inl (- ENOMEM), c') \<and> cache_is f dinv nblk blk n V P c'
    | Some b \<Rightarrow> alloc_data_block G c = Some (Inr (b - g_first_data_block G), c') \<and>
        cache_is f dinv nblk blk n ((mark_used V b)(b := replicate 512 0)) P c')"
  using block_device.alloc_data_block_ok [OF assms] by (cases "lowest_free G V") (auto simp: cache_does_def)

lemma demo_bitmap: "demo_V 1 = pad_block [31]"
  by (simp add: demo_V_block) (simp add: demo_blocks_def)

lemma demo_lowest_free: "lowest_free demo_geom demo_V = Some 5"
proof -
  have "block_used demo_V 3" "block_used demo_V 4" "\<not> block_used demo_V 5"
    by (simp_all add: block_used_def demo_bitmap [simplified] pad_block_def bit_numeral_rec)
  then show ?thesis
    by (simp add: lowest_free_def demo_geom_def upt_rec)
qed

lemma demo_cache_is: "\<exists>c. cache_is memio_iointf memio_wf mem_nblk mem_blk 6 demo_V Map.empty c"
  using demo_mounted_is by (auto simp: fs_is_def split: option.splits)

theorem alloc_data_block_lowest_witness:
  "\<exists>c c'. alloc_data_block demo_geom c = Some (Inr 2, c') \<and>
     cache_is memio_iointf memio_wf mem_nblk mem_blk 6 ((mark_used demo_V 5)(5 := replicate 512 0)) Map.empty c'"
proof -
  obtain c where c: "cache_is memio_iointf memio_wf mem_nblk mem_blk 6 demo_V Map.empty c"
    using demo_cache_is ..
  show ?thesis
    using alloc_data_block_lowest [OF memdev.block_device_axioms c demo_geom_ok demo_room_empty]
    by (auto simp: demo_lowest_free) (auto simp: demo_geom_def)
qed



text \<open>
  An inode that is written is read back, and no other inode changes. For an inode inside the
  inode blocks, \<open>write_inode\<close> returns 0, \<open>read_inode\<close> of the same number then returns exactly
  the inode written, and every other inode of the image is what it was.
\<close>

theorem write_inode_read_inode:
  assumes "block_device f dinv nblk blk" and "cache_is f dinv nblk blk n V P c" and "geom_ok G n"
    and "pins_room 1 P" and "idx < 16 * g_inode_block_count G" and "inode_wf ino"
  shows "\<exists>V1 c1 c2. write_inode G idx ino c = Some (0, c1) \<and> cache_is f dinv nblk blk n V1 P c1 \<and>
    read_inode G idx c1 = Some (Inr ino, c2) \<and> cache_is f dinv nblk blk n V1 P c2 \<and>
    (\<forall>idx'. idx' \<noteq> idx \<longrightarrow> inode_at G V1 idx' = inode_at G V idx')"
proof -
  let ?V1 = "put_inode G V idx ino"
  obtain c1 where c1: "write_inode G idx ino c = Some (0, c1)" "cache_is f dinv nblk blk n ?V1 P c1"
    using block_device.write_inode_ok [OF assms(1-3) assms(5,4,6)] by (auto simp: cache_does_def)
  obtain c2 where c2: "read_inode G idx c1 = Some (Inr (inode_at G ?V1 idx), c2)"
    "cache_is f dinv nblk blk n ?V1 P c2"
    using block_device.read_inode_ok [OF assms(1) c1(2) assms(3,5,4)] by (auto simp: cache_does_def)
  have len: "length (V (g_first_inode_block G + idx div 16)) = 512"
    by (rule block_device.cst_length [OF assms(1,2) geom_okD(1) [OF assms(3,5)]])
  show ?thesis
    using c1 c2 inode_at_put_same [where V = V, OF assms(6) len] inode_at_put_other [where V = V, OF assms(6) len] by metis
qed

theorem write_inode_read_inode_witness:
  "\<exists>(c :: memio cache) c1 c2. write_inode demo_geom 1 demo_root c = Some (0, c1) \<and> read_inode demo_geom 1 c1 = Some (Inr demo_root, c2)"
proof -
  obtain c where c: "cache_is memio_iointf memio_wf mem_nblk mem_blk 6 demo_V Map.empty c"
    using demo_cache_is ..
  have "1 < 16 * g_inode_block_count demo_geom" "inode_wf demo_root"
    by (simp_all add: demo_geom_def inode_wf_def demo_root_def)
  from write_inode_read_inode [OF memdev.block_device_axioms c demo_geom_ok demo_room_empty this]
  show ?thesis by blast
qed

end
