(* ===== verification/Ktfs_Write.thy ===== *)
theory Ktfs_Write
  imports Ktfs_Alloc
begin

text \<open>
  Overwriting the contents of a file. The theory follows \<open>resolve_or_alloc\<close> on blocks that are
  already there and the copy loop of \<open>ktfs_writeat\<close>, and shows that a write inside a file is the
  corresponding update of its contents, with a frame: no other block of the image changes.
\<close>

subsection \<open>Files that own their blocks\<close>

text \<open>The pointer blocks that the map of logical block \<open>l\<close> goes through.\<close>

definition map_path :: "geom \<Rightarrow> (nat \<Rightarrow> byte list) \<Rightarrow> ktfs_inode \<Rightarrow> nat \<Rightarrow> nat list" where
  "map_path G V ino l =
     (if l < 3 then []
      else if l < 131 then [iindirect ino]
      else let dind = idindirect ino ! ((l - 131) div 16384)
           in [dind, arr_get (dblk G V dind) ((l - 131) mod 16384 div 128)])"

text \<open>
  A file that can be overwritten: every block of it is mapped without a zero pointer on the way,
  different blocks are different places, and none of them is a pointer block of the file.
\<close>

definition file_owned :: "geom \<Rightarrow> (nat \<Rightarrow> byte list) \<Rightarrow> ktfs_inode \<Rightarrow> bool" where
  "file_owned G V ino \<longleftrightarrow> file_ok G V ino \<and> isize ino + 511 < 4294967296 \<and>
     (let nb = (isize ino + 511) div 512
      in inj_on (\<lambda>l. the (block_map G V ino l)) {..<nb} \<and>
         (\<forall>l < nb. 3 \<le> l \<longrightarrow> block_map G V ino l \<noteq> Some 0 \<and> 0 \<notin> set (map_path G V ino l)) \<and>
         (\<forall>l < nb. \<forall>l' < nb. the (block_map G V ino l) \<notin> set (map_path G V ino l')))"

text \<open>Logical blocks of a file and the places of their contents.\<close>

definition file_blocks :: "geom \<Rightarrow> (nat \<Rightarrow> byte list) \<Rightarrow> ktfs_inode \<Rightarrow> nat set" where
  "file_blocks G V ino =
     (\<lambda>l. g_first_data_block G + the (block_map G V ino l)) ` {..<(isize ino + 511) div 512}"

text \<open>The map depends on the pointer blocks alone.\<close>

lemma block_map_frame:
  assumes "\<And>p. p \<in> set (map_path G V ino l) \<Longrightarrow> dblk G V' p = dblk G V p"
  shows "block_map G V' ino l = block_map G V ino l" and "map_path G V' ino l = map_path G V ino l"
  using assms by (auto simp: block_map_def map_path_def Let_def)

context block_device
begin

lemma resolve_root_nz:
  assumes "cst n V P c" and "ptr \<noteq> 0"
  shows "does n P (resolve_root G ptr alloc c) (Inr ptr) V"
  using assms by (simp add: resolve_root_def does_return)

lemma resolve_leaf_nz:
  assumes c: "cst n V P c" and G: "geom_ok G n" and room: "pins_room 1 P" and p: "ptr_ok G ind"
    and nz: "arr_get (dblk G V ind) l \<noteq> 0"
  shows "does n P (resolve_leaf G ind l alloc c) (Inr (arr_get (dblk G V ind) l)) V"
  unfolding resolve_leaf_def geom_okD(4) [OF G p]
proof (rule does_get [OF c geom_okD(3) [OF G p] room], goal_cases)
  case (1 i c')
  then have "cache_data c' i = dblk G V ind"
    using pin_held held_data by (metis dblk_def)
  with held_release [OF 1] nz show ?case
    by (auto intro!: does_return)
qed

lemma resolve_middle_nz:
  assumes c: "cst n V P c" and G: "geom_ok G n" and room: "pins_room 1 P" and p: "ptr_ok G dind"
    and nz: "arr_get (dblk G V dind) l \<noteq> 0"
  shows "does n P (resolve_middle G dind l alloc c) (Inr (arr_get (dblk G V dind) l)) V"
  unfolding resolve_middle_def geom_okD(4) [OF G p]
proof (rule does_get [OF c geom_okD(3) [OF G p] room], goal_cases)
  case (1 i c')
  then have "cache_data c' i = dblk G V dind"
    using pin_held held_data by (metis dblk_def)
  with held_release [OF 1] nz show ?case
    by (auto intro!: does_look [OF _ geom_okD(3) [OF G p] _ room] simp: dblk_def)
qed

text \<open>On a block that is there, \<open>resolve_or_alloc\<close> is the map and allocates nothing.\<close>

lemma resolve_or_alloc_there:
  assumes c: "cst n V P c" and G: "geom_ok G n" and room: "pins_room 1 P"
    and own: "file_owned G V ino" and l: "l < (isize ino + 511) div 512"
    and map: "block_map G V ino l = Some b"
  shows "does n P (resolve_or_alloc G ino l alloc c) (Inr b, ino) V"
proof -
  have nz: "3 \<le> l \<Longrightarrow> b \<noteq> 0 \<and> 0 \<notin> set (map_path G V ino l)"
    using own l map by (auto simp: file_owned_def Let_def)
  have sz: "u32 (511 + isize ino) = isize ino + 511"
    using own by (simp add: file_owned_def u32_def)
  consider "l < 3" | "3 \<le> l" "l < 131" | "131 \<le> l" by linarith
  then show ?thesis
  proof cases
    case 1
    then show ?thesis
      using c map l sz by (auto simp: resolve_or_alloc_def block_map_def ktfs_consts intro!: does_return)
  next
    case 2
    then have l3: "\<not> l < 3" "l - 3 < 128" by linarith+
    have p: "ptr_ok G (iindirect ino)" and b: "b = arr_get (dblk G V (iindirect ino)) (l - 3)" and i0: "iindirect ino \<noteq> 0"
      using 2 map nz by (auto simp: block_map_def map_path_def split: if_splits)
    have "does n P (resolve_root G (iindirect ino) alloc c) (Inr (iindirect ino)) V"
      by (rule resolve_root_nz [OF c i0])
    then show ?thesis
      using l3 b nz 2
      by (auto simp: resolve_or_alloc_def ktfs_consts Let_def
               intro!: does_bind does_return resolve_leaf_nz [OF _ G room p])
  next
    case 3
    define m where "m = l - 131"
    define dind where "dind = idindirect ino ! (m div 16384)"
    define ind where "ind = arr_get (dblk G V dind) (m mod 16384 div 128)"
    have l': "l < 32899" and p: "ptr_ok G dind" "ptr_ok G ind"
      and b: "b = arr_get (dblk G V ind) (m mod 16384 mod 128)"
      using 3 map by (auto simp: block_map_def Let_def m_def dind_def ind_def split: if_splits)
    have nz': "dind \<noteq> 0" "ind \<noteq> 0" "b \<noteq> 0"
      using nz 3 by (auto simp: map_path_def Let_def m_def dind_def ind_def)
    have ge: "\<not> l < 3" "\<not> l - 3 < 128" "\<not> 32768 \<le> m"
      using 3 l' by (simp_all add: m_def)
    have same: "ino\<lparr>idindirect := (idindirect ino)[m div 16384 := dind]\<rparr> = ino"
      by (simp add: dind_def)
    have "resolve_or_alloc G ino l alloc c = resolve_root G dind alloc c \<bind> (\<lambda>(r, c). case r of
        Inl rc \<Rightarrow> Some ((Inl rc, ino), c)
      | Inr dind \<Rightarrow> resolve_middle G dind (m mod 16384 div 128) alloc c \<bind> (\<lambda>(r, c). case r of
          Inl rc \<Rightarrow> Some ((Inl rc, ino\<lparr>idindirect := (idindirect ino)[m div 16384 := dind]\<rparr>), c)
        | Inr ind_blk \<Rightarrow> resolve_leaf G ind_blk (m mod 16384 mod 128) alloc c \<bind>
            (\<lambda>(r, c). Some ((r, ino\<lparr>idindirect := (idindirect ino)[m div 16384 := dind]\<rparr>), c))))"
      using ge by (simp add: resolve_or_alloc_def ktfs_consts Let_def m_def [symmetric] dind_def cong: sum.case_cong)
    also have "does n P \<dots> (Inr b, ino) V"
    proof (rule does_bind [OF resolve_root_nz [OF c nz'(1)]], simp only: prod.case sum.case,
        rule does_bind [OF resolve_middle_nz [OF _ G room p(1)]], assumption)
      show "arr_get (dblk G V dind) (m mod 16384 div 128) \<noteq> 0"
        using nz'(2) by (simp add: ind_def)
    next
      fix c'
      assume c': "cst n V P c'"
      have "does n P (resolve_leaf G ind (m mod 16384 mod 128) alloc c') (Inr b) V"
        using resolve_leaf_nz [OF c' G room p(2)] nz'(3) by (simp add: b)
      then show "does n P (case (Inr (arr_get (dblk G V dind) (m mod 16384 div 128)), c') of (r, c) \<Rightarrow> case r of
          Inl rc \<Rightarrow> Some ((Inl rc, ino\<lparr>idindirect := (idindirect ino)[m div 16384 := dind]\<rparr>), c)
        | Inr ind_blk \<Rightarrow> resolve_leaf G ind_blk (m mod 16384 mod 128) alloc c \<bind>
            (\<lambda>(r, c). Some ((r, ino\<lparr>idindirect := (idindirect ino)[m div 16384 := dind]\<rparr>), c))) (Inr b, ino) V"
        by (auto simp: same ind_def [symmetric] intro!: does_bind does_return)
    qed
    finally show ?thesis .
  qed
qed

end

subsection \<open>One chunk of a write\<close>

text \<open>
  \<open>writes G V V' ino pos bs\<close>: from \<open>V\<close> to \<open>V'\<close> the bytes \<open>bs\<close> have been written at
  \<open>pos\<close> of the file and nothing else has changed.
\<close>

definition writes ::
  "geom \<Rightarrow> (nat \<Rightarrow> byte list) \<Rightarrow> (nat \<Rightarrow> byte list) \<Rightarrow> ktfs_inode \<Rightarrow> nat \<Rightarrow> byte list \<Rightarrow> bool"
where
  "writes G V V' ino pos bs \<longleftrightarrow>
     (\<forall>k. k \<notin> file_blocks G V ino \<longrightarrow> V' k = V k) \<and>
     file_data G V' ino = patch pos bs (file_data G V ino)"

lemma writes_metadata:
  "writes G V V' ino pos bs \<Longrightarrow> k < g_first_data_block G \<Longrightarrow> V' k = V k"
proof -
  assume "writes G V V' ino pos bs" and "k < g_first_data_block G"
  moreover from this(2) have "k \<notin> file_blocks G V ino"
    by (auto simp: file_blocks_def)
  ultimately show "V' k = V k"
    unfolding writes_def by blast
qed

lemma owned_frame:
  assumes own: "file_owned G V ino" and fr: "\<And>k. k \<notin> file_blocks G V ino \<Longrightarrow> V' k = V k"
    and l: "l < (isize ino + 511) div 512"
  shows "block_map G V' ino l = block_map G V ino l" and "map_path G V' ino l = map_path G V ino l"
proof -
  have "dblk G V' p = dblk G V p" if "p \<in> set (map_path G V ino l)" for p
  proof -
    have "g_first_data_block G + p \<notin> file_blocks G V ino"
      using own l that by (auto simp: file_owned_def Let_def file_blocks_def)
    with fr show ?thesis by (simp add: dblk_def)
  qed
  then show "block_map G V' ino l = block_map G V ino l" and "map_path G V' ino l = map_path G V ino l"
    using block_map_frame by blast+
qed

lemma owned_after:
  assumes own: "file_owned G V ino" and fr: "\<And>k. k \<notin> file_blocks G V ino \<Longrightarrow> V' k = V k"
  shows "file_owned G V' ino" and "file_blocks G V' ino = file_blocks G V ino"
proof -
  note m = owned_frame [OF own fr]
  have "inj_on (\<lambda>l. the (block_map G V' ino l)) {..<(isize ino + 511) div 512}"
    using own m by (auto simp: file_owned_def Let_def inj_on_def)
  then show "file_owned G V' ino"
    using own m by (auto simp: file_owned_def Let_def file_ok_def)
  show "file_blocks G V' ino = file_blocks G V ino"
    using m by (auto simp: file_blocks_def)
qed

lemma patch_patch:
  assumes "pos + length xs + length ys \<le> length zs"
  shows "patch (pos + length xs) ys (patch pos xs zs) = patch pos (xs @ ys) zs"
  using assms by (intro nth_equalityI) (auto simp: nth_patch nth_append)

lemma block_index:
  assumes "off < isize ino"
  shows "off div 512 < (isize ino + 511) div 512"
proof -
  have "Suc (off div 512) * 512 \<le> isize ino + 511"
    using assms mult_div_mod_eq [of 512 off] unfolding mult_Suc by linarith
  then show ?thesis
    using less_eq_div_iff_mult_less_eq [of 512 "Suc (off div 512)" "isize ino + 511"] by simp
qed

lemma write_chunk:
  assumes own: "file_owned G V ino" and off: "off + length bs \<le> isize ino" "off mod 512 + length bs \<le> 512" "bs \<noteq> []"
    and b: "block_map G V ino (off div 512) = Some b" and len: "length (dblk G V b) = 512"
  shows "writes G V (V(g_first_data_block G + b := patch (off mod 512) bs (dblk G V b))) ino off bs"
proof -
  let ?k = "g_first_data_block G + b"
  let ?V' = "V(?k := patch (off mod 512) bs (dblk G V b))"
  have lt: "off div 512 < (isize ino + 511) div 512"
    using off by (intro block_index) (auto simp: neq_Nil_conv)
  then have in_file: "?k \<in> file_blocks G V ino"
    using b by (force simp: file_blocks_def)
  then have fr: "?V' k = V k" if "k \<notin> file_blocks G V ino" for k
    using that by auto
  have m: "block_map G ?V' ino l = block_map G V ino l" if "l < (isize ino + 511) div 512" for l
    by (rule owned_frame(1) [OF own fr that])
  have "file_blk G ?V' ino (i div 512) ! (i mod 512) = patch off bs (file_data G V ino) ! i" if i: "i < isize ino" for i
  proof -
    have il: "i div 512 < (isize ino + 511) div 512"
      by (rule block_index [OF i])
    have old: "file_data G V ino ! i = file_blk G V ino (i div 512) ! (i mod 512)"
      using i by (simp add: file_data_def)
    have in_chunk: "off \<le> i \<and> i < off + length bs \<longleftrightarrow>
        i div 512 = off div 512 \<and> off mod 512 \<le> i mod 512 \<and> i mod 512 < off mod 512 + length bs"
    proof
      assume "off \<le> i \<and> i < off + length bs"
      then show "i div 512 = off div 512 \<and> off mod 512 \<le> i mod 512 \<and> i mod 512 < off mod 512 + length bs"
        using div_mod_run [of off 512 "i - off"] off(2) by auto
    next
      assume a: "i div 512 = off div 512 \<and> off mod 512 \<le> i mod 512 \<and> i mod 512 < off mod 512 + length bs"
      then show "off \<le> i \<and> i < off + length bs"
        using mult_div_mod_eq [of 512 i] mult_div_mod_eq [of 512 off] by linarith
    qed
    show ?thesis
    proof (cases "i div 512 = off div 512")
      case True
      have "i - off = i mod 512 - off mod 512" if "off mod 512 \<le> i mod 512"
        using mult_div_mod_eq [of 512 i] mult_div_mod_eq [of 512 off] True that by linarith
      with True b len off i old in_chunk m [OF lt] show ?thesis
        by (simp add: file_blk_def dblk_def nth_patch)
    next
      case False
      have "the (block_map G V ino (i div 512)) \<noteq> b"
        using own False lt il b unfolding file_owned_def Let_def inj_on_def by (metis lessThan_iff option.sel)
      with False i off old in_chunk m [OF il] show ?thesis
        by (auto simp: file_blk_def dblk_def nth_patch)
    qed
  qed
  then have "file_data G ?V' ino = patch off bs (file_data G V ino)"
    using off by (intro nth_equalityI) (simp_all add: file_data_def)
  with fr show ?thesis
    unfolding writes_def by blast
qed

lemma writes_trans:
  assumes own: "file_owned G V ino" and "writes G V V1 ino pos xs" and "writes G V1 V2 ino (pos + length xs) ys"
    and "pos + length xs + length ys \<le> isize ino"
  shows "writes G V V2 ino pos (xs @ ys)"
  using assms owned_after(2) [OF own, of V1] by (auto simp: writes_def patch_patch)

subsection \<open>The loop and the operation\<close>

context block_device
begin

lemma writeat_loop_ok:
  assumes c: "cst n V P c" and G: "geom_ok G n" and room: "pins_room 1 P" and own: "file_owned G V ino"
    and len: "pos + len \<le> isize ino" "len \<le> length buf" and copied: "copied \<le> len"
  shows "\<exists>V'. does n P (writeat_loop G ino pos buf len copied c) (Inr len, ino) V' \<and>
    writes G V V' ino (pos + copied) (seg copied (len - copied) buf)"
  using c own copied
proof (induction "len - copied" arbitrary: copied c V rule: less_induct)
  case less
  note c = less.prems(1) and own = less.prems(2)
  show ?case
  proof (cases "copied < len")
    case False
    then have "writes G V V ino (pos + copied) (seg copied (len - copied) buf)"
      by (simp add: writes_def)
    with False less.prems show ?thesis
      by (subst writeat_loop.simps) (auto intro!: exI [of _ V] does_return)
  next
    case True
    define off where "off = pos + copied"
    define m where "m = chunk_len off (len - copied)"
    have off: "off < isize ino" and m: "0 < m" "copied + m \<le> len" "off mod 512 + m \<le> 512"
      using True len chunk_len_pos [of "len - copied" off] chunk_len_le [of off "len - copied"]
      by (auto simp: off_def m_def chunk_len_def KTFS_BLKSZ_def Let_def)
    have ok: "file_ok G V ino"
      using own by (simp add: file_owned_def)
    obtain b where b: "block_map G V ino (off div 512) = Some b" "ptr_ok G b"
      "u32 (off div 512) = off div 512" "u64 off = off"
      using offset_block [OF ok off] by metis
    have blen: "length (dblk G V b) = 512"
      using cst_length [OF c geom_okD(3) [OF G b(2)]] by (simp add: dblk_def)
    let ?bs = "seg copied m buf"
    let ?V1 = "V(g_first_data_block G + b := patch (off mod 512) ?bs (dblk G V b))"
    have bs: "length ?bs = m" using m len by simp
    then have "?bs \<noteq> []" using m(1) by (metis list.size(3) less_irrefl)
    then have w1: "writes G V ?V1 ino off ?bs"
      using m len bs by (intro write_chunk [OF own _ _ _ b(1) blen]) (simp_all add: off_def)
    then have own1: "file_owned G ?V1 ino"
      using owned_after(1) [OF own] unfolding writes_def by blast
    obtain c1 where r1: "resolve_or_alloc G ino (off div 512) True c = Some ((Inr b, ino), c1)" and c1: "cst n V P c1"
      by (rule does_map [OF resolve_or_alloc_there [OF c G room own block_index [OF off] b(1)]])
    have "does n P (with_block c1 (data_blk_to_pos G b) False (\<lambda>d. (True, Some (patch (off mod 512) ?bs d)))) True ?V1"
      by (rule does_change [OF c1 geom_okD(3,4) [OF G b(2)] room])
         (use m bs blen in \<open>auto simp: dblk_def\<close>)
    then obtain c2 where r2: "with_block c1 (data_blk_to_pos G b) False
        (\<lambda>d. (True, Some (patch (off mod 512) ?bs d))) = Some (True, c2)" and c2: "cst n ?V1 P c2"
      by (rule does_map)
    have "len - (copied + m) < len - copied"
      using m by linarith
    then obtain V' where V': "does n P (writeat_loop G ino pos buf len (copied + m) c2) (Inr len, ino) V'"
      "writes G ?V1 V' ino (pos + (copied + m)) (seg (copied + m) (len - (copied + m)) buf)"
      using less.hyps [OF _ c2 own1 m(2)] by blast
    have "writeat_loop G ino pos buf len copied c = writeat_loop G ino pos buf len (copied + m) c2"
      by (subst writeat_loop.simps)
         (use True r1 r2 in \<open>simp add: Let_def KTFS_BLKSZ_def off_def [symmetric] b m_def [symmetric] cong: sum.case_cong\<close>)
    moreover have "writes G V V' ino (pos + copied) (?bs @ seg (copied + m) (len - (copied + m)) buf)"
      using writes_trans [OF own w1] V'(2) m len bs by (simp add: off_def add.assoc)
    moreover have "?bs @ seg (copied + m) (len - (copied + m)) buf = seg copied (len - copied) buf"
      using seg_append [of copied m buf] m by simp
    ultimately show ?thesis
      using V'(1) by auto
  qed
qed

lemma writeat_ok:
  fixes pos :: nat and len :: int
  assumes fs: "fs_is f dinv nblk blk n V P fs" and room: "pins_room 1 P" and slot: "slot_ok V fs slot"
    and own: "file_owned (g_geom fs) V (inode_at (g_geom fs) V (kf_inode_idx (g_open_files fs ! slot)))"
    and len: "0 < len" "nat len \<le> length buf" "pos + nat len \<le> length (slot_data V fs slot)"
  obtains c' V' where "ktfs_writeat slot pos buf len fs = Some (len, fs\<lparr>g_cache := Some c'\<rparr>)"
    "cst n V' P c'" "writes (g_geom fs) V V' (inode_at (g_geom fs) V (kf_inode_idx (g_open_files fs ! slot))) pos (take (nat len) buf)"
proof -
  let ?f = "g_open_files fs ! slot" and ?G = "g_geom fs"
  let ?ino = "inode_at ?G V (kf_inode_idx ?f)"
  obtain c where c: "g_cache fs = Some c" "cst n V P c" and G: "geom_ok ?G n"
    using fs by (rule fs_isE)
  have f: "kf_inode_idx ?f < 16 * g_inode_block_count ?G" and sl: "slot < length (g_open_files fs)"
    using slot by (simp_all add: slot_ok_def Let_def)
  have inside: "pos + nat len \<le> isize ?ino"
    using len(3) by (simp add: slot_data_def)
  obtain c1 where r1: "read_inode ?G (kf_inode_idx ?f) c = Some (Inr ?ino, c1)" and c1: "cst n V P c1"
    by (rule does_map [OF read_inode_ok [OF c(2) G f room]])
  obtain V' where d2: "does n P (writeat_loop ?G ?ino pos buf (nat len) 0 c1) (Inr (nat len), ?ino) V'"
    and w: "writes ?G V V' ?ino pos (take (nat len) buf)"
    using writeat_loop_ok [OF c1 G room own inside len(2), of 0] by (auto simp: seg_def)
  obtain c2 where r2: "writeat_loop ?G ?ino pos buf (nat len) 0 c1 = Some ((Inr (nat len), ?ino), c2)"
    and c2: "cst n V' P c2"
    using d2 by (rule does_map)
  have ib: "g_first_inode_block ?G + kf_inode_idx ?f div 16 < n"
    by (rule geom_okD(1) [OF G f])
  have "V' (g_first_inode_block ?G + kf_inode_idx ?f div 16) = V (g_first_inode_block ?G + kf_inode_idx ?f div 16)"
  proof (rule writes_metadata [OF w])
    have "kf_inode_idx ?f div 16 < g_inode_block_count ?G"
      using f by (simp add: less_mult_imp_div_less mult.commute)
    then show "g_first_inode_block ?G + kf_inode_idx ?f div 16 < g_first_data_block ?G"
      using G by (simp add: geom_ok_def)
  qed
  then have ino': "inode_at ?G V' (kf_inode_idx ?f) = ?ino"
    by (simp add: inode_at_def)
  have wf: "inode_wf ?ino"
    using encode_decode_inode(2) cst_length [OF c(2) ib] inode_slot_inside by (simp add: inode_at_def)
  have "put_inode ?G V' (kf_inode_idx ?f) ?ino = V'"
    using put_inode_same [of V' ?G "kf_inode_idx ?f"] cst_length [OF c2 ib] ino' by simp
  then have "does n P (write_inode ?G (kf_inode_idx ?f) ?ino c2) 0 V'"
    using write_inode_ok [OF c2 G f room wf] by simp
  then obtain c3 where r3: "write_inode ?G (kf_inode_idx ?f) ?ino c2 = Some (0, c3)" and c3: "cst n V' P c3"
    by (rule does_map)
  obtain c4 where r4: "cache_flush c3 = Some (0, c4)" and c4: "cst n V' P c4"
    by (rule does_map [OF does_flush [OF c3]])
  have u: "\<not> isize ?ino < u64 (pos + nat len)"
    using inside isize_inode_at [of ?G V "kf_inode_idx ?f"] by (simp add: u64_def)
  have same: "fs\<lparr>g_open_files := (g_open_files fs)[slot := ?f]\<rparr> = fs"
    by simp
  have "ktfs_writeat slot pos buf len fs = Some (len, fs\<lparr>g_cache := Some c4\<rparr>)"
    using len(1) c(1) r1 r2 r3 r4 u by (simp add: ktfs_writeat_def Let_def same)
  then show thesis
    using that c4 w by blast
qed

end

subsection \<open>Properties\<close>


lemma demo_file_owned: "file_owned demo_geom demo_V demo_file"
  using demo_files_ok(2) by (simp add: file_owned_def demo_file_def inj_on_def map_path_def)


end
