(* ===== verification/Ktfs_Create.thy ===== *)
theory Ktfs_Create
  imports Ktfs_Write
begin

text \<open>
  Creating a file: the search for a free inode, the new directory entry, and what happens to the
  directory. The entry is appended to the root; when the root ends exactly at the end of a block
  the code grows it by a whole block, which is shown at the end.
\<close>

subsection \<open>A free inode\<close>

definition inode_free :: "geom \<Rightarrow> (nat \<Rightarrow> byte list) \<Rightarrow> nat \<Rightarrow> bool" where
  "inode_free G V i \<longleftrightarrow> i \<noteq> g_root_inode_idx G \<and>
     list_all (\<lambda>x. x = 0) (seg (i mod 16 * 32) 32 (V (g_first_inode_block G + i div 16)))"

definition lowest_free_inode :: "geom \<Rightarrow> (nat \<Rightarrow> byte list) \<Rightarrow> nat option" where
  "lowest_free_inode G V = find (inode_free G V) [0..<16 * g_inode_block_count G]"

lemma find_append: "find Q (xs @ ys) = (case find Q xs of None \<Rightarrow> find Q ys | Some x \<Rightarrow> Some x)"
  by (induction xs) auto

lemma free_slot_find:
  assumes "16 * k + 16 \<le> 65536" and "set is \<subseteq> {..<16}"
  shows "free_slot G k (V (g_first_inode_block G + k)) is = find (inode_free G V) (map (\<lambda>i. 16 * k + i) is)"
  using assms(2)
proof (induction "is")
  case (Cons i "is")
  then have i: "i < 16" by simp
  then have "u16 (k * (KTFS_BLKSZ div KTFS_INOSZ) + i) = 16 * k + i"
    using assms(1) by (simp add: u16_def ktfs_consts mult.commute)
  moreover have "(16 * k + i) mod 16 = i" "(16 * k + i) div 16 = k"
    using i by auto
  ultimately show ?case
    using Cons by (simp add: inode_free_def ktfs_consts Let_def)
qed simp

lemma upt_block: "k < m \<Longrightarrow> [16 * k..<16 * m] = map (\<lambda>i. 16 * k + i) [0..<16] @ [16 * Suc k..<16 * m]"
proof -
  assume "k < m"
  then have "[16 * k..<16 * m] = [16 * k..<16 * k + 16] @ [16 * k + 16..<16 * m]"
    using upt_add_eq_append [of "16 * k" "16 * k + 16" "16 * m - (16 * k + 16)"] by simp
  moreover have "[16 * k..<16 * k + 16] = map (\<lambda>i. 16 * k + i) [0..<16]"
    using map_add_upt [of "16 * k" 16] by (simp only: add.commute)
  ultimately show ?thesis by (simp add: add.commute)
qed

definition new_dentry :: "byte list \<Rightarrow> nat \<Rightarrow> ktfs_dir_entry" where
  "new_dentry name idx = \<lparr>de_inode = idx, de_name = name @ replicate (14 - length name) 0\<rparr>"

lemma length_new_dentry: "length name \<le> 13 \<Longrightarrow> length (encode_dentry (new_dentry name idx)) = 16"
  by (simp add: encode_dentry_def new_dentry_def)

lemma dentry_slot_inside: "d * 16 mod 512 + 16 \<le> (512 :: nat)"
proof -
  have "d * 16 mod 512 = 16 * (d mod 32)"
    using mult_mod_right [of 16 d 32] by (simp add: mult.commute)
  moreover have "d mod 32 \<le> 31" by simp
  ultimately show ?thesis by linarith
qed

context block_device
begin

lemma find_free_inode_loop_ok:
  assumes "cst n V P c" and G: "geom_ok G n" and room: "pins_room 1 P"
    and small: "16 * g_inode_block_count G \<le> 65536" and "k \<le> g_inode_block_count G"
  shows "does n P (find_free_inode_loop G [k..<g_inode_block_count G] c)
    (case find (inode_free G V) [16 * k..<16 * g_inode_block_count G] of
       None \<Rightarrow> Inl (- ENOMEM) | Some i \<Rightarrow> Inr i) V"
  using assms(1,5)
proof (induction "g_inode_block_count G - k" arbitrary: k c)
  case 0
  then show ?case by (auto intro: does_return)
next
  case (Suc m)
  then have k: "k < g_inode_block_count G" "[k..<g_inode_block_count G] = k # [Suc k..<g_inode_block_count G]"
    by (simp_all add: upt_conv_Cons)
  have kn: "g_first_inode_block G + k < n" and u: "u32 (g_first_inode_block G + k) = g_first_inode_block G + k"
    using G k(1) by (simp_all add: geom_ok_def u32_def)
  let ?r = "free_slot G k (V (g_first_inode_block G + k)) [0..<16]"
  have r: "?r = find (inode_free G V) (map (\<lambda>i. 16 * k + i) [0..<16])"
    using small k(1) by (intro free_slot_find) auto
  have look: "does n P (with_block c (u32 (g_first_inode_block G + k) * KTFS_BLKSZ) (Inl (- EIO))
      (\<lambda>b. (Inr (free_slot G k b [0..<KTFS_BLKSZ div KTFS_INOSZ]), None))) (Inr ?r) V"
    by (rule does_look [OF Suc.prems(1) kn _ room]) (simp_all add: u ktfs_consts del: upt_rec_numeral)
  have IH: "does n P (find_free_inode_loop G [Suc k..<g_inode_block_count G] c')
    (case find (inode_free G V) [16 * Suc k..<16 * g_inode_block_count G] of
       None \<Rightarrow> Inl (- ENOMEM) | Some i \<Rightarrow> Inr i) V" if "cst n V P c'" for c'
    using Suc.hyps(1) [of "Suc k" c'] Suc.hyps(2) that k(1) by simp
  show ?case
    unfolding k(2) find_free_inode_loop.simps upt_block [OF k(1)] find_append r [symmetric]
    by (rule does_bind [OF look], cases ?r) (use IH in \<open>auto intro: does_return\<close>)
qed

lemma find_free_inode_ok:
  assumes "cst n V P c" and "geom_ok G n" and "pins_room 1 P" and "16 * g_inode_block_count G \<le> 65536"
  shows "does n P (find_free_inode G c)
    (case lowest_free_inode G V of None \<Rightarrow> Inl (- ENOMEM) | Some i \<Rightarrow> Inr i) V"
  using find_free_inode_loop_ok [OF assms, of 0] by (simp add: find_free_inode_def lowest_free_inode_def)

text \<open>
  The append, once the block for the new entry has been found: the entry is written there and the
  root's size grows by one entry.
\<close>

lemma append_dentry_ok:
  fixes idx :: nat
  assumes c: "cst n V P c" and G: "geom_ok G n" and room: "pins_room 1 P" and name: "length name \<le> 13"
  defines "root \<equiv> inode_at G V (g_root_inode_idx G)"
  defines "d \<equiv> isize root div 16"
  assumes roa: "\<And>c'. cst n V P c' \<Longrightarrow> does n P (resolve_or_alloc G root (d * 16 div 512) True c') (Inr b, root1) V1"
    and b: "ptr_ok G b" and root1: "inode_wf root1"
  defines "V2 \<equiv> V1(g_first_data_block G + b :=
                  patch (d * 16 mod 512) (encode_dentry (new_dentry name idx)) (dblk G V1 b))"
  shows "does n P (append_dentry G name idx c) 0
    (put_inode G V2 (g_root_inode_idx G) (root1\<lparr>isize := u32 (isize root1 + 16)\<rparr>))"
proof -
  let ?ri = "g_root_inode_idx G"
  have ri: "?ri < 16 * g_inode_block_count G"
    using G by (simp add: geom_ok_def)
  obtain c1 where r1: "read_inode G ?ri c = Some (Inr root, c1)" and c1: "cst n V P c1"
    unfolding root_def by (rule does_map [OF read_inode_ok [OF c G ri room]])
  obtain c2 where r2: "resolve_or_alloc G root (d * 16 div 512) True c1 = Some ((Inr b, root1), c2)" and c2: "cst n V1 P c2"
    by (rule does_map [OF roa [OF c1]])
  have "length (dblk G V1 b) = 512"
    using cst_length [OF c2 geom_okD(3) [OF G b]] by (simp add: dblk_def)
  then have "does n P (with_block c2 (data_blk_to_pos G b) False
      (\<lambda>e. (True, Some (patch (d * 16 mod 512) (encode_dentry (new_dentry name idx)) e)))) True V2"
    unfolding V2_def
    by (intro does_change [OF c2 geom_okD(3,4) [OF G b] room])
       (use dentry_slot_inside [of d] length_new_dentry [OF name] in \<open>simp_all add: dblk_def\<close>)
  then obtain c3 where r3: "with_block c2 (data_blk_to_pos G b) False
      (\<lambda>e. (True, Some (patch (d * 16 mod 512) (encode_dentry (new_dentry name idx)) e))) = Some (True, c3)"
    and c3: "cst n V2 P c3"
    by (rule does_map)
  let ?root2 = "root1\<lparr>isize := u32 (isize root1 + 16)\<rparr>"
  have wf: "inode_wf ?root2"
    using root1 by (simp add: inode_wf_def u32_def)
  obtain c4 where r4: "write_inode G ?ri ?root2 c3 = Some (0, c4)" and c4: "cst n (put_inode G V2 ?ri ?root2) P c4"
    by (rule does_map [OF write_inode_ok [OF c3 G ri room wf]])
  obtain c5 where r5: "cache_flush c4 = Some (0, c5)" and c5: "cst n (put_inode G V2 ?ri ?root2) P c5"
    by (rule does_map [OF does_flush [OF c4]])
  have "append_dentry G name idx c = Some (0, c5)"
    using r1 r2 r3 r4 r5 by (simp add: append_dentry_def Let_def ktfs_consts d_def new_dentry_def)
  with c5 show ?thesis
    by (simp add: cache_does_def)
qed

text \<open>The whole creation, up to the block the entry goes to.\<close>

lemma create_file_ok:
  assumes c: "cst n V P c" and G: "geom_ok G n" and room: "pins_room 1 P"
    and small: "16 * g_inode_block_count G \<le> 65536"
    and name: "name \<noteq> []" "length name \<le> 13"
    and root_ok: "file_ok G V (inode_at G V (g_root_inode_idx G))"
    and new: "dir_lookup G V name = None" and free: "lowest_free_inode G V = Some idx"
    and app: "\<And>c'. cst n (put_inode G V idx zero_inode) P c' \<Longrightarrow> does n P (append_dentry G name idx c') 0 V'"
  shows "does n P (create_file G name c) 0 V'"
proof -
  have idx: "idx < 16 * g_inode_block_count G"
    using free by (auto simp: lowest_free_inode_def find_Some_iff)
  have wf: "inode_wf zero_inode"
    by (simp add: inode_wf_def zero_inode_def)
  have fd: "does n P (find_dentry G name c) (Inl (- ENOENT)) V"
    using find_dentry_ok [OF c G room root_ok, of name] new by simp
  have ff: "does n P (find_free_inode G c') (Inr idx) V" if "cst n V P c'" for c'
    using find_free_inode_ok [OF that G room small] free by simp
  have ok: "\<not> (name = [] \<or> length name > KTFS_MAX_FILENAME_LEN)"
    using name by (simp add: KTFS_MAX_FILENAME_LEN_def)
  show ?thesis
    unfolding create_file_def if_not_P [OF ok]
    by (rule does_bind [OF fd], simp only: prod.case sum.case,
        rule does_bind [OF ff], assumption, simp only: prod.case sum.case,
        rule does_bind [OF write_inode_ok [OF _ G idx room wf]], assumption) (simp add: app)
qed

end

subsection \<open>The effect on the directory\<close>

lemma name_match_self:
  assumes "0 \<notin> set name"
  shows "name_match (name @ replicate (Suc k) 0) name"
  using assms
proof (induction name)
  case (Cons x xs)
  then show ?case by (auto simp del: replicate_Suc)
qed simp

lemma block_map_isize [simp]: "block_map G V (ino\<lparr>isize := s\<rparr>) l = block_map G V ino l"
  by (simp add: block_map_def)

lemma put_inode_data [simp]:
  assumes "geom_ok G n" and "idx < 16 * g_inode_block_count G"
  shows "dblk G (put_inode G V idx ino) p = dblk G V p"
proof -
  have "idx div 16 < g_inode_block_count G"
    using assms(2) by (simp add: less_mult_imp_div_less mult.commute)
  then show ?thesis
    using assms(1) by (simp add: dblk_def put_inode_def Let_def geom_ok_def)
qed

lemma put_data_inode [simp]:
  assumes "geom_ok G n" and "idx < 16 * g_inode_block_count G"
  shows "inode_at G (V(g_first_data_block G + b := bs)) idx = inode_at G V idx"
proof -
  have "idx div 16 < g_inode_block_count G"
    using assms(2) by (simp add: less_mult_imp_div_less mult.commute)
  then show ?thesis
    using assms(1) by (simp add: inode_at_def geom_ok_def)
qed

text \<open>
  The directory after the entry \<open>bs\<close> has been put in place \<open>d\<close>, the first one past the end, of a
  root that owns its blocks and has room in its last block.
\<close>

lemma dentry_appended:
  assumes own: "file_owned G V root" and sz: "isize root = 16 * d" "isize root mod 512 \<noteq> 0"
    and b: "block_map G V root (d * 16 div 512) = Some b" and len: "length (dblk G V b) = 512" and bs: "length bs = 16"
    and same: "\<And>p. dblk G V' p = (if p = b then patch (d * 16 mod 512) bs (dblk G V b) else dblk G V p)"
    and e: "e \<le> d"
  shows "dentry_at G V' (root\<lparr>isize := s\<rparr>) e = (if e = d then decode_dentry bs else dentry_at G V root e)"
proof -
  let ?nb = "(isize root + 511) div 512"
  have lt: "d * 16 div 512 < ?nb"
  proof -
    have "512 * (d * 16 div 512) < isize root"
      using sz mult_div_mod_eq [of 512 "isize root"] by (simp add: mult.commute)
    then show ?thesis
      using less_eq_div_iff_mult_less_eq [of 512 "Suc (d * 16 div 512)" "isize root + 511"] by simp
  qed
  have le: "e * 16 div 512 \<le> d * 16 div 512"
    using e by (intro div_le_mono mult_le_mono1)
  then have lte: "e * 16 div 512 < ?nb"
    using lt by linarith
  have path: "dblk G V' p = dblk G V p" if "p \<in> set (map_path G V root (e * 16 div 512))" for p
  proof -
    have "b \<notin> set (map_path G V root (e * 16 div 512))"
      using own lt lte b unfolding file_owned_def Let_def by (metis option.sel)
    with that same show ?thesis by auto
  qed
  have map: "block_map G V' root (e * 16 div 512) = block_map G V root (e * 16 div 512)"
    by (rule block_map_frame(1) [OF path])
  show ?thesis
  proof (cases "e * 16 div 512 = d * 16 div 512")
    case True
    have "seg (e * 16 mod 512) 16 (patch (d * 16 mod 512) bs (dblk G V b)) = seg (e * 16 mod 512) 16 (dblk G V b)" if "e \<noteq> d"
    proof (rule seg_patch_other)
      have "e * 16 + 16 \<le> d * 16"
        using e that by linarith
      then show "e * 16 mod 512 + 16 \<le> d * 16 mod 512 \<or> d * 16 mod 512 + length bs \<le> e * 16 mod 512"
        using True mult_div_mod_eq [of 512 "e * 16"] mult_div_mod_eq [of 512 "d * 16"] by linarith
    qed (use len bs dentry_slot_inside [of d] in simp)
    then show ?thesis
      using True map b same [of b] bs len dentry_slot_inside [of d]
      by (auto simp: dentry_at_def file_blk_def)
  next
    case False
    then have "the (block_map G V root (e * 16 div 512)) \<noteq> b"
      using own lt lte b unfolding file_owned_def Let_def inj_on_def by (metis lessThan_iff option.sel)
    with False map same show ?thesis
      by (auto simp: dentry_at_def file_blk_def)
  qed
qed

text \<open>The image after a creation: the new inode is cleared, the entry written, the root grown.\<close>

definition created :: "geom \<Rightarrow> (nat \<Rightarrow> byte list) \<Rightarrow> byte list \<Rightarrow> nat \<Rightarrow> nat \<Rightarrow> (nat \<Rightarrow> byte list)" where
  "created G V name idx b =
     (let root = inode_at G V (g_root_inode_idx G); d = isize root div 16; V0 = put_inode G V idx zero_inode
      in put_inode G
           (V0(g_first_data_block G + b :=
              patch (d * 16 mod 512) (encode_dentry (new_dentry name idx)) (dblk G V0 b)))
           (g_root_inode_idx G) (root\<lparr>isize := isize root + 16\<rparr>))"

lemma lowest_free_inodeD:
  "lowest_free_inode G V = Some idx \<Longrightarrow> idx < 16 * g_inode_block_count G \<and> idx \<noteq> g_root_inode_idx G"
  by (auto simp: lowest_free_inode_def find_Some_iff inode_free_def)

lemma zero_inode_wf: "inode_wf zero_inode"
  by (simp add: inode_wf_def zero_inode_def)

context block_device
begin

lemma inode_at_wf:
  assumes "cst n V P c" and "geom_ok G n" and "idx < 16 * g_inode_block_count G"
  shows "inode_wf (inode_at G V idx)" and "length (V (g_first_inode_block G + idx div 16)) = 512"
proof -
  show len: "length (V (g_first_inode_block G + idx div 16)) = 512"
    using cst_length [OF assms(1) geom_okD(1) [OF assms(2,3)]] .
  show "inode_wf (inode_at G V idx)"
    using encode_decode_inode(2) len inode_slot_inside by (simp add: inode_at_def)
qed

lemma create_in_block:
  assumes c: "cst n V P c" and G: "geom_ok G n" and room: "pins_room 1 P"
    and small: "16 * g_inode_block_count G \<le> 65536"
    and name: "name \<noteq> []" "length name \<le> 13"
  defines "root \<equiv> inode_at G V (g_root_inode_idx G)"
  assumes own: "file_owned G V root" and sz: "isize root mod 16 = 0" "isize root mod 512 \<noteq> 0"
    and new: "dir_lookup G V name = None" and free: "lowest_free_inode G V = Some idx"
  obtains b where "block_map G V root (isize root div 512) = Some b" "ptr_ok G b"
    "does n P (create_file G name c) 0 (created G V name idx b)"
proof -
  let ?ri = "g_root_inode_idx G" and ?d = "isize root div 16" and ?V0 = "put_inode G V idx zero_inode"
  have idx: "idx < 16 * g_inode_block_count G" "idx \<noteq> ?ri" and ri: "?ri < 16 * g_inode_block_count G"
    using lowest_free_inodeD [OF free] G by (auto simp: geom_ok_def)
  have d: "?d * 16 = isize root"
    using sz(1) div_mult_mod_eq [of "isize root" 16] by simp
  have "512 * (isize root div 512) < isize root"
    using sz(2) mult_div_mod_eq [of 512 "isize root"] by linarith
  then obtain b where b: "block_map G V root (isize root div 512) = Some b" "ptr_ok G b"
    using file_okD own by (metis file_owned_def)
  have lt: "isize root div 512 < (isize root + 511) div 512"
    using \<open>512 * (isize root div 512) < isize root\<close>
      less_eq_div_iff_mult_less_eq [of 512 "Suc (isize root div 512)" "isize root + 511"] by simp
  have root0: "inode_at G ?V0 ?ri = root"
    using inode_at_put_other [where V = V, OF zero_inode_wf inode_at_wf(2) [OF c G idx(1)]] idx(2)
    by (simp add: root_def)
  have map0: "block_map G ?V0 root l = block_map G V root l" "map_path G ?V0 root l = map_path G V root l" for l
    using block_map_frame [of G V root l ?V0] put_inode_data [OF G idx(1)] by blast+
  have own0: "file_owned G ?V0 root"
    using own by (simp add: file_owned_def file_ok_def map0)
  have wf: "inode_wf root"
    unfolding root_def by (rule inode_at_wf(1) [OF c G ri])
  have small_root: "u32 (isize root + 16) = isize root + 16"
    using own by (simp add: file_owned_def u32_def)
  have app: "does n P (append_dentry G name idx c') 0 (created G V name idx b)" if c': "cst n ?V0 P c'" for c'
  proof -
    have "does n P (resolve_or_alloc G root (isize root div 512) True c2) (Inr b, root) ?V0" if "cst n ?V0 P c2" for c2
      by (rule resolve_or_alloc_there [OF that G room own0 lt]) (simp add: map0 b)
    with append_dentry_ok [OF c' G room name(2), of b root ?V0 idx] b(2) wf show ?thesis
      by (simp add: root0 d created_def root_def [symmetric] Let_def small_root)
  qed
  have "does n P (create_file G name c) 0 (created G V name idx b)"
    by (rule create_file_ok [OF c G room small name _ new free app])
       (use own in \<open>simp add: root_def file_owned_def\<close>)
  with b that show thesis by blast
qed

lemma created_dentries:
  assumes c: "cst n V P c" and G: "geom_ok G n" and small: "16 * g_inode_block_count G \<le> 65536"
    and name: "length name \<le> 13"
  defines "root \<equiv> inode_at G V (g_root_inode_idx G)"
  assumes own: "file_owned G V root" and sz: "isize root mod 16 = 0" "isize root mod 512 \<noteq> 0"
    and idx: "idx < 16 * g_inode_block_count G" "idx \<noteq> g_root_inode_idx G"
    and b: "block_map G V root (isize root div 512) = Some b" "ptr_ok G b"
  shows "dentries G (created G V name idx b) = dentries G V @ [new_dentry name idx]"
    and "inode_at G (created G V name idx b) idx = zero_inode"
    and "\<And>i. i < 16 * g_inode_block_count G \<Longrightarrow> i \<noteq> idx \<Longrightarrow> i \<noteq> g_root_inode_idx G \<Longrightarrow>
           inode_at G (created G V name idx b) i = inode_at G V i"
proof -
  let ?ri = "g_root_inode_idx G" and ?d = "isize root div 16" and ?V0 = "put_inode G V idx zero_inode"
  let ?bs = "encode_dentry (new_dentry name idx)"
  let ?V2 = "?V0(g_first_data_block G + b := patch (?d * 16 mod 512) ?bs (dblk G ?V0 b))"
  let ?root2 = "root\<lparr>isize := isize root + 16\<rparr>"
  have V': "created G V name idx b = put_inode G ?V2 ?ri ?root2"
    by (simp add: created_def root_def Let_def)
  have ri: "?ri < 16 * g_inode_block_count G"
    using G by (simp add: geom_ok_def)
  have d: "isize root = 16 * ?d" "?d * 16 = isize root"
    using sz(1) div_mult_mod_eq [of "isize root" 16] by simp_all
  have len: "length (dblk G V b) = 512"
    using cst_length [OF c geom_okD(3) [OF G b(2)]] by (simp add: dblk_def)
  have wf: "inode_wf ?root2"
    using inode_at_wf(1) [OF c G ri] own by (simp add: inode_wf_def root_def file_owned_def)
  have iblen: "length (?V2 (g_first_inode_block G + i div 16)) = 512" if "i < 16 * g_inode_block_count G" for i
  proof -
    have "g_first_inode_block G + i div 16 \<noteq> g_first_data_block G + b"
      using that G by (simp add: geom_ok_def)
    then show ?thesis
      using inode_at_wf(2) [OF c G that] inode_at_wf(2) [OF c G idx(1)] inode_slot_inside [of idx]
        length_encode_inode [OF zero_inode_wf]
      by (simp add: put_inode_def Let_def)
  qed
  have put0: "inode_at G ?V2 i = inode_at G ?V0 i" if "i < 16 * g_inode_block_count G" for i
    by (rule put_data_inode [OF G that])
  have root': "inode_at G (created G V name idx b) ?ri = ?root2"
    unfolding V' by (rule inode_at_put_same [where V = ?V2, OF wf iblen [OF ri]])
  have other: "inode_at G (created G V name idx b) i = inode_at G ?V0 i" if "i < 16 * g_inode_block_count G" "i \<noteq> ?ri" for i
    unfolding V' using inode_at_put_other [where V = ?V2, OF wf iblen [OF ri] that(2)] put0 [OF that(1)] by simp
  show "inode_at G (created G V name idx b) idx = zero_inode"
    using other [OF idx] inode_at_put_same [where V = V, OF zero_inode_wf inode_at_wf(2) [OF c G idx(1)]] by simp
  show "inode_at G (created G V name idx b) i = inode_at G V i"
    if "i < 16 * g_inode_block_count G" "i \<noteq> idx" "i \<noteq> ?ri" for i
    using other [OF that(1,3)] inode_at_put_other [where V = V, OF zero_inode_wf inode_at_wf(2) [OF c G idx(1)] that(2)] by simp
  have data: "dblk G (created G V name idx b) p = (if p = b then patch (?d * 16 mod 512) ?bs (dblk G V b) else dblk G V p)" for p
    unfolding V' put_inode_data [OF G ri] using put_inode_data [OF G idx(1), of V zero_inode]
    by (auto simp: dblk_def)
  have de: "dentry_at G (created G V name idx b) ?root2 e = (if e = ?d then new_dentry name idx else dentry_at G V root e)"
    if "e \<le> ?d" for e
  proof -
    have "decode_dentry ?bs = new_dentry name idx"
      using name idx(1) small by (intro decode_encode_dentry) (simp_all add: new_dentry_def)
    then show ?thesis
      using dentry_appended [OF own d(1) sz(2) _ len length_new_dentry [OF name] data that] b(1) by (simp add: d(2))
  qed
  have "(isize root + 16) div 16 = Suc ?d" by simp
  then show "dentries G (created G V name idx b) = dentries G V @ [new_dentry name idx]"
    using de by (simp add: dentries_def root' root_def [symmetric] Let_def)
qed

text \<open>
  The case the code treats differently: the root ends at a block boundary. The block for the entry
  is allocated, and its allocation has already grown the root to the end of that block when the
  size of one entry is added.
\<close>

lemma create_at_boundary:
  assumes c: "cst n V P c" and G: "geom_ok G n" and room: "pins_room 1 P"
    and small: "16 * g_inode_block_count G \<le> 65536"
    and name: "name \<noteq> []" "length name \<le> 13"
  defines "root \<equiv> inode_at G V (g_root_inode_idx G)"
  assumes ok: "file_ok G V root" and sz: "isize root = 512 * l" "l < 3"
    and new: "dir_lookup G V name = None" and free: "lowest_free_inode G V = Some idx"
    and blk: "lowest_free G V \<noteq> None"
  obtains V' where "does n P (create_file G name c) 0 V'"
    "isize (inode_at G V' (g_root_inode_idx G)) = isize root + 512 + 16"
proof -
  let ?ri = "g_root_inode_idx G" and ?V0 = "put_inode G V idx zero_inode"
  have idx: "idx < 16 * g_inode_block_count G" "idx \<noteq> ?ri" and ri: "?ri < 16 * g_inode_block_count G"
    using lowest_free_inodeD [OF free] G by (auto simp: geom_ok_def)
  have root0: "inode_at G ?V0 ?ri = root"
    using inode_at_put_other [where V = V, OF zero_inode_wf inode_at_wf(2) [OF c G idx(1)]] idx(2)
    by (simp add: root_def)
  have used0: "block_used ?V0 b = block_used V b" if "b < g_block_count G" for b
  proof -
    have "b div 4096 < g_bitmap_block_count G"
      using G that by (intro less_mult_imp_div_less) (simp add: geom_ok_def mult.commute)
    then show ?thesis
      using G by (simp add: block_used_def put_inode_def Let_def geom_ok_def)
  qed
  obtain b0 where b0: "lowest_free G V = Some b0"
    using blk by auto
  have "lowest_free G ?V0 = lowest_free G V"
    unfolding lowest_free_def by (rule find_cong) (use used0 in auto)
  then have lf: "lowest_free G ?V0 = Some b0"
    using b0 by simp
  note fr = lowest_freeD [OF b0]
  let ?b = "b0 - g_first_data_block G" and ?V1 = "(mark_used ?V0 b0)(b0 := replicate 512 0)"
  let ?root1 = "root\<lparr>iblock := (iblock root)[l := ?b], isize := (l + 1) * 512\<rparr>"
  have roa: "does n P (resolve_or_alloc G root l True c') (Inr ?b, ?root1) ?V1" if "cst n ?V0 P c'" for c'
  proof -
    have al: "does n P (alloc_data_block G c') (Inr ?b) ?V1"
      using alloc_data_block_ok [OF that G room] lf by simp
    have "\<not> l < u32 (isize root + KTFS_BLKSZ - 1) div KTFS_BLKSZ"
      using sz by (auto simp: u32_def KTFS_BLKSZ_def)
    then have "resolve_or_alloc G root l True c' = alloc_data_block G c' \<bind> (\<lambda>(r, c). case r of
        Inl rc \<Rightarrow> Some ((Inl rc, root), c)
      | Inr new_blk \<Rightarrow> Some ((Inr new_blk, root\<lparr>iblock := (iblock root)[l := new_blk], isize := (l + 1) * 512\<rparr>), c))"
      using sz by (simp add: resolve_or_alloc_def ktfs_consts Let_def cong: sum.case_cong)
    then show ?thesis
      by (simp only:) (rule does_bind [OF al], simp add: does_return)
  qed
  have p: "ptr_ok G ?b"
    using fr by (simp add: ptr_ok_def)
  have "inode_wf root"
    unfolding root_def by (rule inode_at_wf(1) [OF c G ri])
  moreover have "b0 < 4294967296"
    using fr(2) G by (simp add: geom_ok_def)
  then have "?b < 4294967296"
    by (rule le_less_trans [OF diff_le_self])
  ultimately have wf: "inode_wf ?root1"
    using sz(2) by (auto simp: inode_wf_def dest!: subsetD [OF set_update_subset_insert])
  have l: "isize root div 16 * 16 div 512 = l"
    using sz(1) by simp
  let ?V2 = "?V1(g_first_data_block G + ?b := patch (isize root div 16 * 16 mod 512)
               (encode_dentry (new_dentry name idx)) (dblk G ?V1 ?b))"
  let ?root2 = "?root1\<lparr>isize := u32 (isize ?root1 + 16)\<rparr>"
  have app: "does n P (append_dentry G name idx c') 0 (put_inode G ?V2 ?ri ?root2)" if c': "cst n ?V0 P c'" for c'
    using append_dentry_ok [OF c' G room name(2), of ?b ?root1 ?V1 idx] roa p wf unfolding root0 l by blast
  have "?V2 (g_first_inode_block G + ?ri div 16) = ?V0 (g_first_inode_block G + ?ri div 16)"
  proof -
    have "?ri div 16 < g_inode_block_count G" "b0 div 4096 < g_bitmap_block_count G"
      using ri fr(2) G by (auto simp: geom_ok_def less_mult_imp_div_less mult.commute)
    then show ?thesis
      using fr(1) G by (simp add: geom_ok_def mark_used_def Let_def)
  qed
  moreover have "length (?V0 (g_first_inode_block G + ?ri div 16)) = 512"
    using inode_at_wf(2) [OF c G ri] inode_at_wf(2) [OF c G idx(1)] inode_slot_inside [of idx]
      length_encode_inode [OF zero_inode_wf] by (simp add: put_inode_def Let_def)
  moreover have "inode_wf ?root2"
    using wf by (simp add: inode_wf_def u32_def)
  ultimately have "inode_at G (put_inode G ?V2 ?ri ?root2) ?ri = ?root2"
    by (intro inode_at_put_same [where V = ?V2]) simp_all
  moreover have "u32 ((l + 1) * 512 + 16) = isize root + 512 + 16"
    using sz by (simp add: u32_def)
  ultimately have "isize (inode_at G (put_inode G ?V2 ?ri ?root2) ?ri) = isize root + 512 + 16"
    by simp
  moreover have "does n P (create_file G name c) 0 (put_inode G ?V2 ?ri ?root2)"
    by (rule create_file_ok [OF c G room small name ok [unfolded root_def] new free app])
  ultimately show thesis
    using that by blast
qed

end

subsection \<open>Properties\<close>

text \<open>
  C8: Creating a file makes it findable. On an image whose root directory has room in its last
  block, \<open>ktfs_create\<close> of a new, valid name with a free inode returns 0; the directory is then
  the old list of entries with the new one appended, the name is found with the lowest free inode,
  that inode is empty, and every other inode but the root's is unchanged.
\<close>

theorem ktfs_create_appends:
  assumes "block_device f dinv nblk blk" and "fs_is f dinv nblk blk n V P fs" and "pins_room 1 P"
    and "16 * g_inode_block_count (g_geom fs) \<le> 65536"
    and "name \<noteq> []" and "length name \<le> 13" and "0 \<notin> set name"
    and "file_owned (g_geom fs) V (inode_at (g_geom fs) V (g_root_inode_idx (g_geom fs)))"
    and "isize (inode_at (g_geom fs) V (g_root_inode_idx (g_geom fs))) mod 16 = 0"
    and "isize (inode_at (g_geom fs) V (g_root_inode_idx (g_geom fs))) mod 512 \<noteq> 0"
    and "dir_lookup (g_geom fs) V name = None" and "lowest_free_inode (g_geom fs) V = Some idx"
  shows "\<exists>c' V'. ktfs_create (Some name) fs = Some (0, fs\<lparr>g_cache := Some c'\<rparr>) \<and>
    cache_is f dinv nblk blk n V' P c' \<and>
    dentries (g_geom fs) V' = dentries (g_geom fs) V @ [new_dentry name idx] \<and>
    dir_lookup (g_geom fs) V' name = Some idx \<and> inode_at (g_geom fs) V' idx = zero_inode \<and>
    (\<forall>i < 16 * g_inode_block_count (g_geom fs). i \<noteq> idx \<longrightarrow> i \<noteq> g_root_inode_idx (g_geom fs) \<longrightarrow>
       inode_at (g_geom fs) V' i = inode_at (g_geom fs) V i)"
proof -
  let ?G = "g_geom fs"
  obtain c where c: "g_cache fs = Some c" "cache_is f dinv nblk blk n V P c" and G: "geom_ok ?G n"
    using assms(1,2) by (rule block_device.fs_isE)
  have idx: "idx < 16 * g_inode_block_count ?G" "idx \<noteq> g_root_inode_idx ?G"
    using lowest_free_inodeD [OF assms(12)] by auto
  obtain b where b: "block_map ?G V (inode_at ?G V (g_root_inode_idx ?G))
        (isize (inode_at ?G V (g_root_inode_idx ?G)) div 512) = Some b" "ptr_ok ?G b"
    and d: "cache_does f dinv nblk blk n P (create_file ?G name c) 0 (created ?G V name idx b)"
    by (rule block_device.create_in_block [OF assms(1) c(2) G assms(3-6,8-12)])
  obtain c' where c': "create_file ?G name c = Some (0, c')" "cache_is f dinv nblk blk n (created ?G V name idx b) P c'"
    using d by (auto simp: cache_does_def)
  note D = block_device.created_dentries [OF assms(1) c(2) G assms(4,6,8-10) idx b]
  have "name_match (de_name (new_dentry name idx)) name"
  proof -
    have "14 - length name = Suc (13 - length name)"
      using assms(6) by simp
    then show ?thesis
      using name_match_self [OF assms(7), of "13 - length name"] by (simp only: new_dentry_def ktfs_dir_entry.simps)
  qed
  then have "dir_lookup ?G (created ?G V name idx b) name = Some idx"
    using assms(11) by (simp add: dir_lookup_def D(1) find_append) (simp add: new_dentry_def)
  then show ?thesis
    using c' c(1) D by (intro exI [of _ c'] exI [of _ "created ?G V name idx b"]) (simp add: ktfs_create_def)
qed

lemma demo_root_owned: "file_owned demo_geom demo_V demo_root"
  using demo_files_ok(1) by (simp add: file_owned_def demo_root_def inj_on_def map_path_def)

lemma demo_no_b: "dir_lookup demo_geom demo_V [98] = None"
  by (simp add: dir_lookup_def demo_dentries)

lemma demo_free_inodes: "\<not> inode_free demo_geom demo_V 1" "inode_free demo_geom demo_V 2"
proof -
  have "inode_at demo_geom demo_V 1 \<noteq> zero_inode"
    unfolding demo_inodes(2) by (simp add: demo_file_def zero_inode_def)
  moreover have "decode_inode (replicate 32 0) = zero_inode"
    by code_simp
  ultimately have "seg 32 32 (demo_V 2) \<noteq> replicate 32 0"
    by (auto simp: inode_at_def demo_geom_def)
  moreover have "length (seg 32 32 (demo_V 2)) = 32"
    by (simp add: pad_block_def length_encode_inode_demo)
  ultimately show "\<not> inode_free demo_geom demo_V 1"
    by (auto simp: inode_free_def demo_geom_def list_all_iff) (metis replicate_eqI)
  show "inode_free demo_geom demo_V 2"
    by (simp add: inode_free_def demo_geom_def pad_block_def seg_def length_encode_inode_demo list_all_iff)
qed

lemma demo_lowest_inode:
  assumes "\<not> inode_free demo_geom V 1" and "inode_free demo_geom V 2"
  shows "lowest_free_inode demo_geom V = Some 2"
proof -
  have "[0..<16] = 0 # 1 # 2 # [3..<16]"
    by (simp add: upt_rec)
  moreover have "\<not> inode_free demo_geom V 0"
    by (simp add: inode_free_def demo_geom_def)
  moreover have "g_inode_block_count demo_geom = 1"
    by (simp add: demo_geom_def)
  ultimately show ?thesis
    using assms by (simp add: lowest_free_inode_def)
qed

theorem ktfs_create_appends_witness:
  "\<exists>c' V'. ktfs_create (Some [98]) demo_mounted = Some (0, demo_mounted\<lparr>g_cache := Some c'\<rparr>) \<and>
     cache_is memio_iointf memio_wf mem_nblk mem_blk 6 V' Map.empty c' \<and> dir_lookup demo_geom V' [98] = Some 2"
proof -
  have "inode_at demo_geom demo_V (g_root_inode_idx demo_geom) = demo_root"
    using demo_inodes(1) by (simp add: demo_geom_def)
  moreover have "16 * g_inode_block_count demo_geom \<le> 65536" "isize demo_root = 16"
    by (simp_all add: demo_geom_def demo_root_def)
  ultimately show ?thesis
    using ktfs_create_appends [OF memdev.block_device_axioms demo_mounted_is demo_room_empty, of "[98]" 2,
        unfolded demo_opened_geom] demo_root_owned demo_no_b demo_lowest_inode [OF demo_free_inodes]
    by auto
qed

text \<open>
  C9: Creating a file when the root directory ends at a block boundary corrupts it. With a root of
  \<open>l\<close> full blocks (fewer than three) and a free block and inode, \<open>ktfs_create\<close> returns 0, but the
  root's size has grown by 528 bytes instead of the 16 of one entry, so that the directory contains
  32 further entries made of the zero bytes of the new block, each naming inode 0.
\<close>

theorem ktfs_create_boundary_grows:
  assumes "block_device f dinv nblk blk" and "fs_is f dinv nblk blk n V P fs" and "pins_room 1 P"
    and "16 * g_inode_block_count (g_geom fs) \<le> 65536"
    and "name \<noteq> []" and "length name \<le> 13"
    and "file_ok (g_geom fs) V (inode_at (g_geom fs) V (g_root_inode_idx (g_geom fs)))"
    and "isize (inode_at (g_geom fs) V (g_root_inode_idx (g_geom fs))) = 512 * l" and "l < 3"
    and "dir_lookup (g_geom fs) V name = None" and "lowest_free_inode (g_geom fs) V = Some idx"
    and "lowest_free (g_geom fs) V \<noteq> None"
  shows "\<exists>c' V'. ktfs_create (Some name) fs = Some (0, fs\<lparr>g_cache := Some c'\<rparr>) \<and>
    cache_is f dinv nblk blk n V' P c' \<and>
    length (dentries (g_geom fs) V') = length (dentries (g_geom fs) V) + 33"
proof -
  let ?G = "g_geom fs"
  obtain c where c: "g_cache fs = Some c" "cache_is f dinv nblk blk n V P c" and G: "geom_ok ?G n"
    using assms(1,2) by (rule block_device.fs_isE)
  obtain V' where V': "cache_does f dinv nblk blk n P (create_file ?G name c) 0 V'"
    "isize (inode_at ?G V' (g_root_inode_idx ?G)) = isize (inode_at ?G V (g_root_inode_idx ?G)) + 512 + 16"
    by (rule block_device.create_at_boundary [OF assms(1) c(2) G assms(3-12)])
  moreover obtain c' where "create_file ?G name c = Some (0, c')" "cache_is f dinv nblk blk n V' P c'"
    using V'(1) by (auto simp: cache_does_def)
  moreover have "(512 * l + 528) div 16 = 512 * l div 16 + 33"
    by simp
  ultimately show ?thesis
    using c(1) assms(8) by (intro exI [of _ c'] exI [of _ V']) (simp add: ktfs_create_def dentries_def Let_def)
qed

text \<open>The small image with an empty root directory.\<close>

lemma inode_free_put_other:
  assumes "inode_wf ino" and "length (V (g_first_inode_block G + idx div 16)) = 512" and "i \<noteq> idx"
    and "length (V (g_first_inode_block G + i div 16)) = 512"
  shows "inode_free G (put_inode G V idx ino) i = inode_free G V i"
proof -
  have seg: "seg (i mod 16 * 32) 32 (W (g_first_inode_block G + i div 16)) = encode_inode (inode_at G W i)"
    if "length (W (g_first_inode_block G + i div 16)) = 512" for W
    using that inode_slot_inside [of i] by (simp add: inode_at_def encode_decode_inode)
  have "length (put_inode G V idx ino (g_first_inode_block G + i div 16)) = 512"
    using assms(2,4) inode_slot_inside [of idx] length_encode_inode [OF assms(1)]
    by (simp add: put_inode_def Let_def)
  then show ?thesis
    unfolding inode_free_def
    using seg [of V] seg [of "put_inode G V idx ino"] assms(4) inode_at_put_other [where V = V, OF assms(1,2,3)] by simp
qed

abbreviation empty_V :: "nat \<Rightarrow> byte list" where
  "empty_V \<equiv> put_inode demo_geom demo_V 0 zero_inode"

lemma demo_inode_block_len: "length (demo_V (g_first_inode_block demo_geom + i div 16)) = 512" if "i < 16" for i
  using that by (simp add: demo_geom_def pad_block_def length_encode_inode_demo)

lemma empty_root: "inode_at demo_geom empty_V (g_root_inode_idx demo_geom) = zero_inode"
  using inode_at_put_same [where V = demo_V, OF zero_inode_wf demo_inode_block_len [of 0]]
  by (simp add: demo_geom_def)

lemma empty_free_inode: "lowest_free_inode demo_geom empty_V = Some 2"
  using demo_free_inodes
    inode_free_put_other [where V = demo_V, OF zero_inode_wf demo_inode_block_len [of 0] _ demo_inode_block_len, of 1]
    inode_free_put_other [where V = demo_V, OF zero_inode_wf demo_inode_block_len [of 0] _ demo_inode_block_len, of 2]
  by (intro demo_lowest_inode) simp_all

lemma empty_lowest_free: "lowest_free demo_geom empty_V \<noteq> None"
proof -
  have "block_used empty_V b = block_used demo_V b" if "b < 6" for b
    using that by (simp add: block_used_def put_inode_def demo_geom_def Let_def)
  then have "lowest_free demo_geom empty_V = lowest_free demo_geom demo_V"
    unfolding lowest_free_def by (intro find_cong) (auto simp: demo_geom_def)
  then show ?thesis by (simp add: demo_lowest_free)
qed

theorem ktfs_create_boundary_grows_witness:
  "\<exists>fs c' V'. dentries demo_geom empty_V = [] \<and>
     ktfs_create (Some [98]) (fs :: memio ktfs) = Some (0, fs\<lparr>g_cache := Some c'\<rparr>) \<and>
     cache_is memio_iointf memio_wf mem_nblk mem_blk 6 V' Map.empty c' \<and> length (dentries demo_geom V') = 33"
proof -
  obtain c where c: "g_cache demo_mounted = Some c" "cache_is memio_iointf memio_wf mem_nblk mem_blk 6 demo_V Map.empty c"
    using memdev.fs_isE [OF demo_mounted_is] by auto
  have "0 < 16 * g_inode_block_count demo_geom"
    by (simp add: demo_geom_def)
  from memdev.write_inode_ok [OF c(2) demo_geom_ok this demo_room_empty zero_inode_wf]
  obtain c1 where c1: "cache_is memio_iointf memio_wf mem_nblk mem_blk 6 empty_V Map.empty c1"
    by (auto simp: cache_does_def)
  let ?fs = "demo_mounted\<lparr>g_cache := Some c1\<rparr>"
  have fs: "fs_is memio_iointf memio_wf mem_nblk mem_blk 6 empty_V Map.empty ?fs" and g: "g_geom ?fs = demo_geom"
    using c1 demo_geom_ok by (simp_all add: fs_is_def demo_opened_geom)
  have z: "isize zero_inode = 0"
    by (simp add: zero_inode_def)
  have e: "dentries demo_geom empty_V = []"
    by (simp add: dentries_def empty_root z)
  have "dir_lookup demo_geom empty_V [98] = None"
    by (simp add: dir_lookup_def e)
  moreover have "file_ok demo_geom empty_V zero_inode" "16 * g_inode_block_count demo_geom \<le> 65536"
    by (simp_all add: file_ok_def z demo_geom_def)
  ultimately obtain c' V' where "ktfs_create (Some [98]) ?fs = Some (0, ?fs\<lparr>g_cache := Some c'\<rparr>)"
     "cache_is memio_iointf memio_wf mem_nblk mem_blk 6 V' Map.empty c'" "length (dentries demo_geom V') = 33"
    using ktfs_create_boundary_grows [OF memdev.block_device_axioms fs demo_room_empty, of "[98]" 0 2,
        unfolded g empty_root z] empty_free_inode empty_lowest_free e by auto
  with e show ?thesis by blast
qed

end
