(* ===== verification/Thread.thy ===== *)
theory Thread
  imports Prelude "HOL-Library.Monad_Syntax"
begin

text \<open>
  Threads, condition variables and locks of kernel/thread.c and kernel/thread.h. A thread is named
  by its index in \<open>thrtab\<close> and a lock by a number; each field of \<open>struct thread\<close> and
  \<open>struct lock\<close> is a function on these names (one heap per field), so the intrusive lists, linked
  through \<open>list_next\<close> and \<open>next\<close>, are the code's. A condition variable is named by the structure
  that contains it. A function that gives up the processor ends with the switch to the next
  thread. \<open>None\<close> is a failed assertion. Interrupts are masked around every list operation of the
  code, so an operation is one step. The register contexts and stacks are not modelled.
\<close>

subsection \<open>State\<close>

definition NTHR :: nat where "NTHR = 32"
definition MAIN_TID :: nat where "MAIN_TID = 0"
definition IDLE_TID :: nat where "IDLE_TID = NTHR - 1"

datatype thread_state =
  THREAD_UNINITIALIZED | THREAD_WAITING | THREAD_SELF | THREAD_READY | THREAD_EXITED

text \<open>The condition of a thread's \<open>child_exit\<close>, of a lock's \<open>cv\<close>, and any other.\<close>

datatype condition = ChildExit nat | LockCv nat | Cond nat

record thread_list =
  head :: "nat option"
  tail :: "nat option"

record kthr =
  thrtab :: "nat \<Rightarrow> bool"
  t_state :: "nat \<Rightarrow> thread_state"
  t_parent :: "nat \<Rightarrow> nat option"
  list_next :: "nat \<Rightarrow> nat option"
  wait_cond :: "nat \<Rightarrow> condition option"
  lock_list :: "nat \<Rightarrow> nat option"
  t_mtag :: "nat \<Rightarrow> nat"
  wait_list :: "condition \<Rightarrow> thread_list"
  l_owner :: "nat \<Rightarrow> nat option"
  l_count :: "nat \<Rightarrow> int"
  l_next :: "nat \<Rightarrow> nat option"
  ready_list :: thread_list
  TP :: nat
  active_mspace :: nat

definition set_state :: "nat \<Rightarrow> thread_state \<Rightarrow> kthr \<Rightarrow> kthr" where
  "set_state t s st = st\<lparr>t_state := (t_state st)(t := s)\<rparr>"

subsection \<open>Thread lists\<close>

definition tlclear :: thread_list where
  "tlclear = \<lparr>head = None, tail = None\<rparr>"

definition tlempty :: "thread_list \<Rightarrow> bool" where
  "tlempty l \<longleftrightarrow> head l = None"

definition tlinsert ::
  "thread_list \<Rightarrow> nat \<Rightarrow> (nat \<Rightarrow> nat option) \<Rightarrow> (thread_list \<times> (nat \<Rightarrow> nat option)) option"
where
  "tlinsert l thr nx =
     (let nx = nx(thr := None)
      in case tail l of
           Some t \<Rightarrow> if head l = None then None else Some (l\<lparr>tail := Some thr\<rparr>, nx(t := Some thr))
         | None \<Rightarrow> if head l \<noteq> None then None else Some (\<lparr>head = Some thr, tail = Some thr\<rparr>, nx))"

definition tlremove ::
  "thread_list \<Rightarrow> (nat \<Rightarrow> nat option) \<Rightarrow> nat option \<times> thread_list \<times> (nat \<Rightarrow> nat option)"
where
  "tlremove l nx =
     (case head l of
        None \<Rightarrow> (None, l, nx)
      | Some thr \<Rightarrow>
          let l = l\<lparr>head := nx thr\<rparr>;
              l = (if head l \<noteq> None then l else l\<lparr>tail := None\<rparr>)
          in (Some thr, l, nx(thr := None)))"

definition tlappend ::
  "thread_list \<Rightarrow> thread_list \<Rightarrow> (nat \<Rightarrow> nat option) \<Rightarrow> (thread_list \<times> thread_list \<times> (nat \<Rightarrow> nat option)) option"
where
  "tlappend l0 l1 nx =
     (if head l0 \<noteq> None
      then (case tail l0 of
              None \<Rightarrow> None
            | Some t0 \<Rightarrow>
                if head l1 \<noteq> None
                then if tail l1 = None then None
                     else Some (l0\<lparr>tail := tail l1\<rparr>, tlclear, nx(t0 := head l1))
                else Some (l0, tlclear, nx))
      else if tail l0 \<noteq> None then None
      else Some (l0\<lparr>head := head l1, tail := tail l1\<rparr>, tlclear, nx))"

text \<open>Insertion into the ready list and into a condition's list, removal from them.\<close>

definition ready_insert :: "nat \<Rightarrow> kthr \<Rightarrow> kthr option" where
  "ready_insert t st =
     do { (l, nx) \<leftarrow> tlinsert (ready_list st) t (list_next st);
          Some (st\<lparr>ready_list := l, list_next := nx\<rparr>) }"

definition wait_insert :: "condition \<Rightarrow> nat \<Rightarrow> kthr \<Rightarrow> kthr option" where
  "wait_insert c t st =
     do { (l, nx) \<leftarrow> tlinsert (wait_list st c) t (list_next st);
          Some (st\<lparr>wait_list := (wait_list st)(c := l), list_next := nx\<rparr>) }"

subsection \<open>Switching\<close>

definition running_thread_suspend :: "kthr \<Rightarrow> kthr option" where
  "running_thread_suspend st =
     (let me = TP st
      in do {
        st \<leftarrow> (if t_state st me = THREAD_SELF then ready_insert me (set_state me THREAD_READY st)
               else Some st);
        case tlremove (ready_list st) (list_next st) of
          (None, _, _) \<Rightarrow> None
        | (Some next, l, nx) \<Rightarrow> do {
            let st = set_state next THREAD_SELF (st\<lparr>ready_list := l, list_next := nx\<rparr>);
            let st = (if t_mtag st next \<noteq> 0 then st\<lparr>active_mspace := t_mtag st next\<rparr> else st);
            Some (st\<lparr>TP := next\<rparr>)
          }
      })"

definition thread_yield :: "kthr \<Rightarrow> kthr option" where
  "thread_yield st = running_thread_suspend st"

definition condition_init :: "condition \<Rightarrow> kthr \<Rightarrow> kthr" where
  "condition_init c st = st\<lparr>wait_list := (wait_list st)(c := tlclear)\<rparr>"

definition condition_wait :: "condition \<Rightarrow> kthr \<Rightarrow> kthr option" where
  "condition_wait c st =
     (let me = TP st
      in if t_state st me \<noteq> THREAD_SELF then None
         else do {
           let st = set_state me THREAD_WAITING st;
           let st = st\<lparr>wait_cond := (wait_cond st)(me \<mapsto> c), list_next := (list_next st)(me := None)\<rparr>;
           st \<leftarrow> wait_insert c me st;
           running_thread_suspend st
         })"

text \<open>The loop of \<open>condition_broadcast\<close>; it may run forever on a list that is a cycle.\<close>

partial_function (option) broadcast_loop :: "condition \<Rightarrow> kthr \<Rightarrow> kthr option" where
  "broadcast_loop c st =
     (case tlremove (wait_list st c) (list_next st) of
        (None, _, _) \<Rightarrow> Some st
      | (Some t, l, nx) \<Rightarrow>
          (let st = st\<lparr>wait_list := (wait_list st)(c := l), list_next := nx\<rparr>;
               st = set_state t THREAD_READY (st\<lparr>wait_cond := (wait_cond st)(t := None)\<rparr>)
           in Option.bind (ready_insert t st) (broadcast_loop c)))"

definition condition_broadcast :: "condition \<Rightarrow> kthr \<Rightarrow> kthr option" where
  "condition_broadcast c st = broadcast_loop c st"

subsection \<open>Creation, exit and join\<close>

definition create_thread :: "kthr \<Rightarrow> (nat \<times> kthr) option" where
  "create_thread st =
     (case find (\<lambda>tid. \<not> thrtab st tid) [1..<NTHR] of
        None \<Rightarrow> None
      | Some tid \<Rightarrow>
          Some (tid, st\<lparr>thrtab := (thrtab st)(tid := True),
                       t_state := (t_state st)(tid := THREAD_UNINITIALIZED),
                       t_parent := (t_parent st)(tid := Some (TP st)),
                       list_next := (list_next st)(tid := None),
                       wait_cond := (wait_cond st)(tid := None),
                       lock_list := (lock_list st)(tid := None),
                       t_mtag := (t_mtag st)(tid := 0)\<rparr>))"

definition thread_spawn :: "kthr \<Rightarrow> (int \<times> kthr) option" where
  "thread_spawn st =
     (case create_thread st of
        None \<Rightarrow> Some (- EMTHR, st)
      | Some (child, st) \<Rightarrow> do {
          st \<leftarrow> ready_insert child (set_state child THREAD_READY st);
          Some (int child, condition_init (ChildExit child) st)
        })"

definition thread_reclaim :: "nat \<Rightarrow> kthr \<Rightarrow> kthr option" where
  "thread_reclaim tid st =
     (if \<not> (0 < tid \<and> tid < NTHR \<and> thrtab st tid) then None
      else if t_state st tid \<noteq> THREAD_EXITED then None
      else Some (st\<lparr>t_parent := (\<lambda>c. if 1 \<le> c \<and> c < NTHR \<and> thrtab st c \<and> t_parent st c = Some tid
                                   then t_parent st tid else t_parent st c),
                   thrtab := (thrtab st)(tid := False)\<rparr>))"

text \<open>
  One round of the loop of \<open>thread_join\<close>: it reaps the first exited child that matches, or fails
  when there is none, or waits for a child to exit and will scan again.
\<close>

datatype 'a outcome = Returned 'a | Blocked

fun join_scan :: "kthr \<Rightarrow> int \<Rightarrow> nat list \<Rightarrow> bool \<Rightarrow> nat option \<times> bool" where
  "join_scan st tid [] has_match = (None, has_match)"
| "join_scan st tid (i # is) has_match =
     (if \<not> thrtab st i \<or> t_parent st i \<noteq> Some (TP st) then join_scan st tid is has_match
      else if tid \<noteq> 0 \<and> int i \<noteq> tid then join_scan st tid is has_match
      else if t_state st i = THREAD_EXITED then (Some i, True)
      else join_scan st tid is True)"

definition thread_join :: "int \<Rightarrow> kthr \<Rightarrow> (int outcome \<times> kthr) option" where
  "thread_join tid st =
     (case join_scan st tid [1..<NTHR] False of
        (Some rid, _) \<Rightarrow> map_option (\<lambda>st. (Returned (int rid), st)) (thread_reclaim rid st)
      | (None, has_match) \<Rightarrow>
          if \<not> has_match then Some (Returned (- EINVAL), st)
          else map_option (\<lambda>st. (Blocked, st)) (condition_wait (ChildExit (TP st)) st))"

subsection \<open>Locks\<close>

definition lock_init :: "nat \<Rightarrow> kthr \<Rightarrow> kthr" where
  "lock_init l st =
     (condition_init (LockCv l) st)
       \<lparr>l_owner := (l_owner st)(l := None), l_count := (l_count st)(l := 0),
        l_next := (l_next st)(l := None)\<rparr>"

text \<open>\<open>Blocked\<close>: the caller waits on the lock's condition and tests the owner again later.\<close>

definition lock_acquire :: "nat \<Rightarrow> kthr \<Rightarrow> (unit outcome \<times> kthr) option" where
  "lock_acquire l st =
     (let me = TP st
      in if l_owner st l = Some me
         then Some (Returned (), st\<lparr>l_count := (l_count st)(l := l_count st l + 1)\<rparr>)
         else if l_owner st l \<noteq> None
         then map_option (\<lambda>st. (Blocked, st)) (condition_wait (LockCv l) st)
         else Some (Returned (),
                st\<lparr>l_owner := (l_owner st)(l \<mapsto> me), l_count := (l_count st)(l := 1),
                   l_next := (l_next st)(l := lock_list st me),
                   lock_list := (lock_list st)(me \<mapsto> l)\<rparr>))"

text \<open>
  The walk of \<open>lock_release\<close> along the holder's list: \<open>prev\<close> is the lock whose \<open>next\<close> field is
  \<open>*ins\<close> (none for the head of the list) and \<open>cur\<close> the value of \<open>*ins\<close>.
\<close>

partial_function (option) find_ins ::
  "(nat \<Rightarrow> nat option) \<Rightarrow> nat \<Rightarrow> nat option \<Rightarrow> nat option \<Rightarrow> (nat option \<times> nat option) option"
where
  "find_ins nx l prev cur =
     (if cur = None \<or> cur = Some l then Some (prev, cur)
      else find_ins nx l cur (nx (the cur)))"

definition detach_lock :: "nat \<Rightarrow> nat \<Rightarrow> kthr \<Rightarrow> kthr option" where
  "detach_lock me l st =
     do {
       (prev, cur) \<leftarrow> find_ins (l_next st) l None (lock_list st me);
       let st = (if cur = Some l
                 then (case prev of
                         None \<Rightarrow> st\<lparr>lock_list := (lock_list st)(me := l_next st l)\<rparr>
                       | Some p \<Rightarrow> st\<lparr>l_next := (l_next st)(p := l_next st l)\<rparr>)
                 else st);
       Some (st\<lparr>l_next := (l_next st)(l := None)\<rparr>)
     }"

definition lock_release :: "nat \<Rightarrow> kthr \<Rightarrow> kthr option" where
  "lock_release l st =
     (let me = TP st
      in if l_owner st l \<noteq> Some me then Some st
         else let st = st\<lparr>l_count := (l_count st)(l := l_count st l - 1)\<rparr>
              in if l_count st l > 0 then Some st
                 else do {
                   st \<leftarrow> detach_lock me l st;
                   condition_broadcast (LockCv l) (st\<lparr>l_owner := (l_owner st)(l := None)\<rparr>)
                 })"

partial_function (option) release_all :: "kthr \<Rightarrow> kthr option" where
  "release_all st =
     (if lock_list st (TP st) = None then Some st
      else Option.bind (lock_release (the (lock_list st (TP st))) st) release_all)"

text \<open>\<open>Returned ()\<close>: the main thread has exited and the system halts.\<close>

definition thread_exit :: "kthr \<Rightarrow> (unit outcome \<times> kthr) option" where
  "thread_exit st =
     do {
       st \<leftarrow> release_all st;
       if TP st = MAIN_TID then Some (Returned (), st)
       else do {
         let me = TP st;
         let st = set_state me THREAD_EXITED st;
         st \<leftarrow> (case t_parent st me of
                  None \<Rightarrow> Some st
                | Some p \<Rightarrow> condition_broadcast (ChildExit p) st);
         st \<leftarrow> running_thread_suspend st;
         Some (Blocked, st)
       }
     }"

subsection \<open>Start\<close>

definition thread_boot :: kthr where
  "thread_boot =
     \<lparr>thrtab = (\<lambda>t. t = MAIN_TID \<or> t = IDLE_TID),
      t_state = (\<lambda>t. if t = MAIN_TID then THREAD_SELF else if t = IDLE_TID then THREAD_READY
                     else THREAD_UNINITIALIZED),
      t_parent = (\<lambda>t. if t = IDLE_TID then Some MAIN_TID else None),
      list_next = (\<lambda>_. None), wait_cond = (\<lambda>_. None), lock_list = (\<lambda>_. None), t_mtag = (\<lambda>_. 0),
      wait_list = (\<lambda>_. tlclear), l_owner = (\<lambda>_. None), l_count = (\<lambda>_. 0), l_next = (\<lambda>_. None),
      ready_list = \<lparr>head = Some IDLE_TID, tail = Some IDLE_TID\<rparr>, TP = MAIN_TID, active_mspace = 0\<rparr>"

end
