(* ===== verification/Sched.thy ===== *)
theory Sched
  imports Thread
begin

text \<open>
  The scheduler invariant. The linked lists of thread.c are refined to lists of thread numbers;
  \<open>sched_rep st rl wl\<close> says that the ready list is \<open>rl\<close>, the wait list of condition \<open>c\<close> is
  \<open>wl c\<close>, and that the state of every thread agrees with the list it is on. Each operation is
  shown to act on these lists as its specification says, and never to fail an assertion.
\<close>

subsection \<open>Linked lists as lists\<close>

fun linked :: "(nat \<Rightarrow> nat option) \<Rightarrow> nat list \<Rightarrow> bool" where
  "linked nx [] \<longleftrightarrow> True"
| "linked nx [x] \<longleftrightarrow> nx x = None"
| "linked nx (x # y # ys) \<longleftrightarrow> nx x = Some y \<and> linked nx (y # ys)"

definition tl_rep :: "(nat \<Rightarrow> nat option) \<Rightarrow> thread_list \<Rightarrow> nat list \<Rightarrow> bool" where
  "tl_rep nx l xs \<longleftrightarrow> distinct xs \<and> linked nx xs \<and>
     head l = (if xs = [] then None else Some (hd xs)) \<and>
     tail l = (if xs = [] then None else Some (last xs))"

lemma linked_cong: "(\<And>x. x \<in> set xs \<Longrightarrow> nx' x = nx x) \<Longrightarrow> linked nx' xs = linked nx xs"
proof (induction xs)
  case (Cons x xs)
  have x: "nx' x = nx x"
    by (rule Cons.prems) simp
  have "linked nx' xs = linked nx xs"
    by (rule Cons.IH) (rule Cons.prems, simp)
  with x show ?case
    by (cases xs) (simp_all only: linked.simps)
qed simp

lemma linked_upd [simp]: "t \<notin> set xs \<Longrightarrow> linked (nx(t := v)) xs = linked nx xs"
  by (rule linked_cong) auto

lemma tl_rep_cong: "(\<And>x. x \<in> set xs \<Longrightarrow> nx' x = nx x) \<Longrightarrow> tl_rep nx' l xs = tl_rep nx l xs"
  unfolding tl_rep_def using linked_cong [of xs nx' nx] by blast

lemma tl_rep_upd [simp]: "t \<notin> set xs \<Longrightarrow> tl_rep (nx(t := v)) l xs = tl_rep nx l xs"
  by (rule tl_rep_cong) auto

lemma linked_snoc:
  "linked nx xs \<Longrightarrow> distinct (xs @ [t]) \<Longrightarrow> xs \<noteq> [] \<Longrightarrow> linked (nx(t := None, last xs := Some t)) (xs @ [t])"
proof (induction xs)
  case (Cons x xs)
  show ?case
  proof (cases xs)
    case Nil
    with Cons.prems show ?thesis by simp
  next
    case (Cons y ys)
    with Cons.prems Cons.IH show ?thesis by auto
  qed
qed simp

lemma tl_rep_empty [simp]: "tl_rep nx tlclear []"
  by (simp add: tl_rep_def tlclear_def)

lemma tl_rep_unique: "tl_rep nx l xs \<Longrightarrow> tl_rep nx l [] \<Longrightarrow> xs = []"
  by (auto simp: tl_rep_def split: if_splits)

lemma tlempty_iff: "tl_rep nx l xs \<Longrightarrow> tlempty l \<longleftrightarrow> xs = []"
  by (simp add: tl_rep_def tlempty_def)

lemma tlinsert_rep:
  assumes "tl_rep nx l xs" and "t \<notin> set xs"
  obtains l' nx' where "tlinsert l t nx = Some (l', nx')" "tl_rep nx' l' (xs @ [t])"
    "\<And>u. u \<notin> set xs \<Longrightarrow> u \<noteq> t \<Longrightarrow> nx' u = nx u"
proof (cases "xs = []")
  case True
  with assms that show thesis
    by (fastforce simp: tl_rep_def tlinsert_def Let_def)
next
  case False
  let ?nx = "nx(t := None, last xs := Some t)"
  have "tlinsert l t nx = Some (l\<lparr>tail := Some t\<rparr>, ?nx)"
    using assms False by (simp add: tl_rep_def tlinsert_def Let_def)
  moreover have "tl_rep ?nx (l\<lparr>tail := Some t\<rparr>) (xs @ [t])"
    using assms False linked_snoc [of nx xs t] by (simp add: tl_rep_def)
  moreover have "?nx u = nx u" if "u \<notin> set xs" "u \<noteq> t" for u
    using that False by (metis fun_upd_other last_in_set)
  ultimately show thesis using that by blast
qed

lemma tlremove_empty: "tl_rep nx l [] \<Longrightarrow> tlremove l nx = (None, l, nx)"
  by (simp add: tl_rep_def tlremove_def)

lemma tlremove_rep:
  assumes "tl_rep nx l (t # xs)"
  obtains l' where "tlremove l nx = (Some t, l', nx(t := None))" "tl_rep (nx(t := None)) l' xs"
proof (cases xs)
  case Nil
  with assms that [of "l\<lparr>head := None, tail := None\<rparr>"] show thesis
    by (simp add: tl_rep_def tlremove_def Let_def)
next
  case (Cons u us)
  with assms that [of "l\<lparr>head := nx t\<rparr>"] Cons show thesis
    by (simp add: tl_rep_def tlremove_def Let_def)
qed

lemma tlappend_rep:
  assumes "tl_rep nx l0 xs" and "tl_rep nx l1 ys" and "set xs \<inter> set ys = {}"
  obtains l' nx' where "tlappend l0 l1 nx = Some (l', tlclear, nx')" "tl_rep nx' l' (xs @ ys)"
proof (cases "xs = []")
  case True
  with assms that [of l1 nx] show thesis
    by (cases l0) (auto simp: tl_rep_def tlappend_def)
next
  case False
  have link: "linked nx zs \<Longrightarrow> linked nx ys \<Longrightarrow> distinct (zs @ ys) \<Longrightarrow> zs \<noteq> [] \<Longrightarrow> ys \<noteq> [] \<Longrightarrow>
      linked (nx(last zs := Some (hd ys))) (zs @ ys)" for zs
  proof (induction zs)
    case (Cons z zs)
    then show ?case
    proof (cases zs)
      case Nil
      with Cons.prems show ?thesis
        by (cases ys) (simp_all del: fun_upd_apply, simp)
    next
      case (Cons w ws)
      with Cons.prems Cons.IH show ?thesis by auto
    qed
  qed simp
  show thesis
  proof (cases "ys = []")
    case True
    with assms False that [of l0 nx] show thesis
      by (simp add: tl_rep_def tlappend_def)
  next
    case ys: False
    have "linked (nx(last xs := Some (hd ys))) (xs @ ys)"
      by (rule link) (use assms False ys in \<open>auto simp: tl_rep_def\<close>)
    with assms False ys that [of "l0\<lparr>tail := tail l1\<rparr>" "nx(last xs := Some (hd ys))"] show thesis
      by (simp add: tl_rep_def tlappend_def)
  qed
qed

subsection \<open>The ready list and the wait lists together\<close>

definition queues :: "kthr \<Rightarrow> nat list \<Rightarrow> (condition \<Rightarrow> nat list) \<Rightarrow> bool" where
  "queues st rl wl \<longleftrightarrow>
     tl_rep (list_next st) (ready_list st) rl \<and>
     (\<forall>c. tl_rep (list_next st) (wait_list st c) (wl c)) \<and>
     (\<forall>c. set rl \<inter> set (wl c) = {}) \<and> (\<forall>c d. c \<noteq> d \<longrightarrow> set (wl c) \<inter> set (wl d) = {})"

lemma queues_frame [simp]:
  "queues (st\<lparr>t_state := a\<rparr>) rl wl = queues st rl wl"
  "queues (st\<lparr>thrtab := b\<rparr>) rl wl = queues st rl wl"
  "queues (st\<lparr>t_parent := d\<rparr>) rl wl = queues st rl wl"
  "queues (st\<lparr>wait_cond := e\<rparr>) rl wl = queues st rl wl"
  "queues (st\<lparr>lock_list := f\<rparr>) rl wl = queues st rl wl"
  "queues (st\<lparr>t_mtag := g\<rparr>) rl wl = queues st rl wl"
  "queues (st\<lparr>l_owner := h\<rparr>) rl wl = queues st rl wl"
  "queues (st\<lparr>l_count := i\<rparr>) rl wl = queues st rl wl"
  "queues (st\<lparr>l_next := j\<rparr>) rl wl = queues st rl wl"
  "queues (st\<lparr>TP := k\<rparr>) rl wl = queues st rl wl"
  "queues (st\<lparr>active_mspace := m\<rparr>) rl wl = queues st rl wl"
  by (simp_all add: queues_def)

lemma queuesD:
  assumes "queues st rl wl"
  shows "tl_rep (list_next st) (ready_list st) rl" "tl_rep (list_next st) (wait_list st c) (wl c)"
    "x \<in> set rl \<Longrightarrow> x \<notin> set (wl c)" "x \<in> set (wl c) \<Longrightarrow> x \<notin> set rl"
    "c \<noteq> d \<Longrightarrow> x \<in> set (wl c) \<Longrightarrow> x \<notin> set (wl d)"
  using assms unfolding queues_def by blast+

lemma queuesI:
  assumes "tl_rep (list_next st) (ready_list st) rl" "\<And>c. tl_rep (list_next st) (wait_list st c) (wl c)"
    "\<And>c x. x \<in> set rl \<Longrightarrow> x \<in> set (wl c) \<Longrightarrow> False"
    "\<And>c d x. c \<noteq> d \<Longrightarrow> x \<in> set (wl c) \<Longrightarrow> x \<in> set (wl d) \<Longrightarrow> False"
  shows "queues st rl wl"
  using assms unfolding queues_def by blast

lemma queues_fresh:
  assumes "queues st rl wl" and "t \<notin> set rl" and "\<forall>c. t \<notin> set (wl c)"
  shows "queues (st\<lparr>list_next := (list_next st)(t := v)\<rparr>) rl wl"
  using assms by (simp add: queues_def)

lemma ready_insert_ok:
  assumes "queues st rl wl" and "t \<notin> set rl" and "\<forall>c. t \<notin> set (wl c)"
  obtains l nx where "ready_insert t st = Some (st\<lparr>ready_list := l, list_next := nx\<rparr>)"
    "queues (st\<lparr>ready_list := l, list_next := nx\<rparr>) (rl @ [t]) wl"
proof -
  note L = queuesD [OF assms(1)]
  obtain l nx where I: "tlinsert (ready_list st) t (list_next st) = Some (l, nx)"
      "tl_rep nx l (rl @ [t])" "\<And>u. u \<notin> set rl \<Longrightarrow> u \<noteq> t \<Longrightarrow> nx u = list_next st u"
    using tlinsert_rep [OF L(1) assms(2)] by blast
  have "tl_rep nx (wait_list st c) (wl c)" for c
  proof -
    have "nx x = list_next st x" if "x \<in> set (wl c)" for x
      using I(3) [of x] L(4) [OF that] assms(3) that by metis
    then show ?thesis
      using tl_rep_cong [of "wl c" nx "list_next st"] L(2) by blast
  qed
  then have "queues (st\<lparr>ready_list := l, list_next := nx\<rparr>) (rl @ [t]) wl"
    using I(2) L(3,5) assms(3) by (intro queuesI) auto
  then show thesis
    using that [of nx l] I(1) by (simp add: ready_insert_def)
qed

lemma wait_insert_ok:
  assumes "queues st rl wl" and "t \<notin> set rl" and "\<forall>c. t \<notin> set (wl c)"
  obtains l nx where
    "wait_insert c t st = Some (st\<lparr>wait_list := (wait_list st)(c := l), list_next := nx\<rparr>)"
    "queues (st\<lparr>wait_list := (wait_list st)(c := l), list_next := nx\<rparr>) rl (wl(c := wl c @ [t]))"
proof -
  note L = queuesD [OF assms(1)]
  have tc: "t \<notin> set (wl c)" using assms(3) by blast
  obtain l nx where I: "tlinsert (wait_list st c) t (list_next st) = Some (l, nx)"
      "tl_rep nx l (wl c @ [t])" "\<And>u. u \<notin> set (wl c) \<Longrightarrow> u \<noteq> t \<Longrightarrow> nx u = list_next st u"
    using tlinsert_rep [OF L(2) tc] by blast
  have "tl_rep nx (wait_list st d) (wl d)" if "d \<noteq> c" for d
  proof -
    have "nx x = list_next st x" if "x \<in> set (wl d)" for x
      using I(3) [of x] L(5) [OF \<open>d \<noteq> c\<close> that] assms(3) that by metis
    then show ?thesis
      using tl_rep_cong [of "wl d" nx "list_next st"] L(2) by blast
  qed
  moreover have "tl_rep nx (ready_list st) rl"
  proof -
    have "nx x = list_next st x" if "x \<in> set rl" for x
      using I(3) [of x] L(3) [OF that] assms(2) that by metis
    then show ?thesis
      using tl_rep_cong [of rl nx "list_next st"] L(1) by blast
  qed
  ultimately have "queues (st\<lparr>wait_list := (wait_list st)(c := l), list_next := nx\<rparr>) rl (wl(c := wl c @ [t]))"
    using I(2) L(3,5) assms(2,3) by (intro queuesI) (auto split: if_splits)
  then show thesis
    using that [of nx l] I(1) by (simp add: wait_insert_def)
qed

lemma ready_remove_ok:
  assumes "queues st (t # rl) wl"
  obtains l nx where "tlremove (ready_list st) (list_next st) = (Some t, l, nx)"
    "queues (st\<lparr>ready_list := l, list_next := nx\<rparr>) rl wl"
proof -
  note L = queuesD [OF assms]
  obtain l where R: "tlremove (ready_list st) (list_next st) = (Some t, l, (list_next st)(t := None))"
      "tl_rep ((list_next st)(t := None)) l rl"
    using tlremove_rep [OF L(1)] by blast
  have "t \<notin> set (wl c)" for c by (rule L(3)) simp
  then have "queues (st\<lparr>ready_list := l, list_next := (list_next st)(t := None)\<rparr>) rl wl"
    using R(2) L(2,3,5) by (intro queuesI) auto
  then show thesis using that R(1) by blast
qed

lemma wait_remove_ok:
  assumes "queues st rl wl" and "wl c = t # ts"
  obtains l nx where "tlremove (wait_list st c) (list_next st) = (Some t, l, nx)"
    "queues (st\<lparr>wait_list := (wait_list st)(c := l), list_next := nx\<rparr>) rl (wl(c := ts))"
    "t \<notin> set rl" "\<forall>d. t \<notin> set ((wl(c := ts)) d)"
proof -
  note L = queuesD [OF assms(1)]
  have rep: "tl_rep (list_next st) (wait_list st c) (t # ts)"
    using L(2) [of c] assms(2) by simp
  obtain l where R: "tlremove (wait_list st c) (list_next st) = (Some t, l, (list_next st)(t := None))"
      "tl_rep ((list_next st)(t := None)) l ts"
    using tlremove_rep [OF rep] by blast
  have mem: "t \<in> set (wl c)" and sub: "set ts \<subseteq> set (wl c)" using assms(2) by auto
  have t: "t \<notin> set rl" "\<And>d. d \<noteq> c \<Longrightarrow> t \<notin> set (wl d)"
    using L(4) [OF mem] L(5) [OF not_sym mem] by blast+
  have ts: "t \<notin> set ts" using rep by (simp add: tl_rep_def)
  have "queues (st\<lparr>wait_list := (wait_list st)(c := l), list_next := (list_next st)(t := None)\<rparr>) rl
      (wl(c := ts))"
    using R(2) L(1,2,3,5) t sub by (intro queuesI) (auto split: if_splits)
  then show thesis
    using that R(1) t ts by simp
qed

subsection \<open>Threads and the lists they are on\<close>

definition sched :: "kthr \<Rightarrow> nat list \<Rightarrow> (condition \<Rightarrow> nat list) \<Rightarrow> bool" where
  "sched st rl wl \<longleftrightarrow> queues st rl wl \<and>
     (\<forall>t. t \<in> set rl \<longleftrightarrow> thrtab st t \<and> t_state st t = THREAD_READY) \<and>
     (\<forall>t c. t \<in> set (wl c) \<longleftrightarrow>
        thrtab st t \<and> t_state st t = THREAD_WAITING \<and> wait_cond st t = Some c)"

lemma schedD:
  assumes "sched st rl wl"
  shows "queues st rl wl" "t \<in> set rl \<longleftrightarrow> thrtab st t \<and> t_state st t = THREAD_READY"
    "t \<in> set (wl c) \<longleftrightarrow> thrtab st t \<and> t_state st t = THREAD_WAITING \<and> wait_cond st t = Some c"
  using assms unfolding sched_def by blast+

lemma schedI:
  assumes "queues st rl wl" "\<And>t. t \<in> set rl \<longleftrightarrow> thrtab st t \<and> t_state st t = THREAD_READY"
    "\<And>t c. t \<in> set (wl c) \<longleftrightarrow> thrtab st t \<and> t_state st t = THREAD_WAITING \<and> wait_cond st t = Some c"
  shows "sched st rl wl"
  using assms unfolding sched_def by blast

lemma set_state_simps [simp]:
  "t_state (set_state t s st) = (t_state st)(t := s)" "thrtab (set_state t s st) = thrtab st"
  "t_parent (set_state t s st) = t_parent st" "list_next (set_state t s st) = list_next st"
  "wait_cond (set_state t s st) = wait_cond st" "lock_list (set_state t s st) = lock_list st"
  "wait_list (set_state t s st) = wait_list st" "l_owner (set_state t s st) = l_owner st"
  "l_count (set_state t s st) = l_count st" "l_next (set_state t s st) = l_next st"
  "ready_list (set_state t s st) = ready_list st" "TP (set_state t s st) = TP st"
  "queues (set_state t s st) rl wl = queues st rl wl"
  by (simp_all add: set_state_def)

text \<open>The fields that scheduling leaves alone.\<close>

definition frame :: "kthr \<Rightarrow> kthr \<Rightarrow> bool" where
  "frame st st' \<longleftrightarrow> thrtab st' = thrtab st \<and> t_parent st' = t_parent st \<and>
     lock_list st' = lock_list st \<and> l_owner st' = l_owner st \<and> l_count st' = l_count st \<and>
     l_next st' = l_next st"

lemma frame_trans: "frame a b \<Longrightarrow> frame b c \<Longrightarrow> frame a c"
  by (simp add: frame_def)

lemma suspend_ok:
  fixes rl wl
  defines "q \<equiv> \<lambda>st. if t_state st (TP st) = THREAD_SELF then rl @ [TP st] else rl"
  assumes S: "sched st rl wl" and live: "thrtab st (TP st)" and ne: "q st \<noteq> []"
  obtains st' where "running_thread_suspend st = Some st'" "TP st' = hd (q st)" "frame st st'"
    "sched st' (tl (q st)) wl" "wait_cond st' = wait_cond st"
    "t_state st' = (t_state st)
       (TP st := if t_state st (TP st) = THREAD_SELF then THREAD_READY else t_state st (TP st),
        hd (q st) := THREAD_SELF)"
proof -
  let ?me = "TP st"
  define st1 where "st1 = (if t_state st ?me = THREAD_SELF then set_state ?me THREAD_READY st else st)"
  have L: "queues st1 rl wl"
    using S by (simp add: st1_def sched_def set_state_def)
  have "\<exists>l nx. (if t_state st ?me = THREAD_SELF then ready_insert ?me st1 else Some st1) =
      Some (st1\<lparr>ready_list := l, list_next := nx\<rparr>) \<and> queues (st1\<lparr>ready_list := l, list_next := nx\<rparr>) (q st) wl"
  proof (cases "t_state st ?me = THREAD_SELF")
    case True
    then have "?me \<notin> set rl" "\<forall>c. ?me \<notin> set (wl c)"
      using S by (simp_all add: sched_def)
    then show ?thesis
      by (rule ready_insert_ok [OF L]) (auto simp: q_def True)
  next
    case False
    then show ?thesis
      using L by (intro exI [of _ "ready_list st1"] exI [of _ "list_next st1"]) (simp add: q_def)
  qed
  then obtain l nx where I: "(if t_state st ?me = THREAD_SELF then ready_insert ?me st1 else Some st1) =
      Some (st1\<lparr>ready_list := l, list_next := nx\<rparr>)"
      "queues (st1\<lparr>ready_list := l, list_next := nx\<rparr>) (hd (q st) # tl (q st)) wl"
    using ne by auto
  obtain l' nx' where R: "tlremove l nx = (Some (hd (q st)), l', nx')"
      "queues (st1\<lparr>ready_list := l', list_next := nx'\<rparr>) (tl (q st)) wl"
    using ready_remove_ok [OF I(2)] by auto
  define st2 where "st2 = set_state (hd (q st)) THREAD_SELF (st1\<lparr>ready_list := l', list_next := nx'\<rparr>)"
  define st' where "st' = (if t_mtag st2 (hd (q st)) \<noteq> 0
      then st2\<lparr>active_mspace := t_mtag st2 (hd (q st))\<rparr> else st2)\<lparr>TP := hd (q st)\<rparr>"
  have e: "(if t_state st ?me = THREAD_SELF then ready_insert ?me (set_state ?me THREAD_READY st) else Some st) =
      Some (st1\<lparr>ready_list := l, list_next := nx\<rparr>)"
    using I(1) by (cases "t_state st ?me = THREAD_SELF") (simp_all add: st1_def)
  have "running_thread_suspend st = Some st'"
    by (simp add: running_thread_suspend_def Let_def e R(1) st2_def st'_def)
  moreover have st: "t_state st' = (t_state st)
       (?me := if t_state st ?me = THREAD_SELF then THREAD_READY else t_state st ?me,
        hd (q st) := THREAD_SELF)"
    by (auto simp: st'_def st2_def st1_def set_state_def)
  moreover have fr: "frame st st'" "wait_cond st' = wait_cond st" "TP st' = hd (q st)"
    by (auto simp: st'_def st2_def st1_def set_state_def frame_def)
  moreover have "sched st' (tl (q st)) wl"
  proof -
    have L': "queues st' (tl (q st)) wl"
      using R(2) by (simp add: st'_def st2_def set_state_def)
    have sq: "t \<in> set (tl (q st)) \<longleftrightarrow> t \<in> set (q st) \<and> t \<noteq> hd (q st)" for t
      using ne queuesD(1) [OF I(2)] by (cases "q st") (auto simp: tl_rep_def)
    have mq: "t \<in> set (q st) \<longleftrightarrow>
        thrtab st t \<and> (t_state st t = THREAD_READY \<or> t = TP st \<and> t_state st t = THREAD_SELF)" for t
      using schedD(2) [OF S, of t] live by (auto simp: q_def)
    have h: "t_state st (hd (q st)) = THREAD_READY \<or> t_state st (hd (q st)) = THREAD_SELF"
      using mq [of "hd (q st)"] ne by auto
    show ?thesis
    proof (rule schedI [OF L'])
      show "t \<in> set (tl (q st)) \<longleftrightarrow> thrtab st' t \<and> t_state st' t = THREAD_READY" for t
        unfolding sq mq using fr(1) st by (auto simp: frame_def)
      show "t \<in> set (wl c) \<longleftrightarrow> thrtab st' t \<and> t_state st' t = THREAD_WAITING \<and> wait_cond st' t = Some c" for t c
        unfolding schedD(3) [OF S] using h fr(1,2) st by (auto simp: frame_def)
    qed
  qed
  ultimately show thesis using that by blast
qed

lemma wait_ok:
  assumes S: "sched st rl wl" and me: "thrtab st (TP st)" "t_state st (TP st) = THREAD_SELF" and ne: "rl \<noteq> []"
  obtains st' where "condition_wait c st = Some st'" "TP st' = hd rl" "frame st st'"
    "sched st' (tl rl) (wl(c := wl c @ [TP st]))" "wait_cond st' = (wait_cond st)(TP st \<mapsto> c)"
    "t_state st' = (t_state st)(TP st := THREAD_WAITING, hd rl := THREAD_SELF)"
proof -
  let ?me = "TP st"
  define st1 where "st1 = (set_state ?me THREAD_WAITING st)
    \<lparr>wait_cond := (wait_cond st)(?me \<mapsto> c), list_next := (list_next st)(?me := None)\<rparr>"
  have out: "?me \<notin> set rl" "\<forall>c. ?me \<notin> set (wl c)"
    using S me by (simp_all add: sched_def)
  have "queues st1 rl wl"
    using S out by (simp add: st1_def set_state_def sched_def queues_def)
  then obtain l nx where W: "wait_insert c ?me st1 = Some (st1\<lparr>wait_list := (wait_list st1)(c := l), list_next := nx\<rparr>)"
      "queues (st1\<lparr>wait_list := (wait_list st1)(c := l), list_next := nx\<rparr>) rl (wl(c := wl c @ [?me]))"
    using wait_insert_ok [OF _ out] by blast
  define st2 where "st2 = st1\<lparr>wait_list := (wait_list st1)(c := l), list_next := nx\<rparr>"
  have eq [simp]: "TP st2 = ?me" "t_state st2 = (t_state st)(?me := THREAD_WAITING)" "thrtab st2 = thrtab st"
      "wait_cond st2 = (wait_cond st)(?me \<mapsto> c)"
    by (simp_all add: st2_def st1_def set_state_def)
  have S2: "sched st2 rl (wl(c := wl c @ [?me]))"
    using S W(2) me unfolding sched_def st2_def [symmetric] by auto
  have "frame st st2"
    by (simp add: st2_def st1_def set_state_def frame_def)
  moreover obtain st' where "running_thread_suspend st2 = Some st'" "TP st' = hd rl" "frame st2 st'"
      "sched st' (tl rl) (wl(c := wl c @ [?me]))" "wait_cond st' = wait_cond st2"
      "t_state st' = (t_state st)(?me := THREAD_WAITING, hd rl := THREAD_SELF)"
    by (rule suspend_ok [OF S2]) (use me ne in auto)
  moreover have "condition_wait c st = running_thread_suspend st2"
    using me W(1) by (simp add: condition_wait_def Let_def st1_def st2_def)
  ultimately show thesis
    using that frame_trans [of st st2] by simp
qed

lemma broadcast_ok:
  assumes "sched st rl wl"
  obtains st' where "condition_broadcast c st = Some st'" "TP st' = TP st" "frame st st'"
    "sched st' (rl @ wl c) (wl(c := []))"
    "t_state st' = (\<lambda>t. if t \<in> set (wl c) then THREAD_READY else t_state st t)"
    "wait_cond st' = (\<lambda>t. if t \<in> set (wl c) then None else wait_cond st t)"
proof -
  have "\<exists>st'. broadcast_loop c st = Some st' \<and> TP st' = TP st \<and> frame st st' \<and>
      sched st' (rl @ ws) (wl(c := [])) \<and>
      t_state st' = (\<lambda>t. if t \<in> set ws then THREAD_READY else t_state st t) \<and>
      wait_cond st' = (\<lambda>t. if t \<in> set ws then None else wait_cond st t)"
    if "sched st rl wl" "wl c = ws" for ws
    using that
  proof (induction ws arbitrary: st rl wl)
    case Nil
    then have "tl_rep (list_next st) (wait_list st c) []"
      using queuesD(2) [of st rl wl c] by (simp add: sched_def)
    then have "broadcast_loop c st = Some st"
      by (subst broadcast_loop.simps) (simp add: tlremove_empty)
    moreover have "wl(c := []) = wl" using Nil by auto
    ultimately show ?case using Nil by (simp add: frame_def)
  next
    case (Cons t ts)
    have Q: "queues st rl wl" using Cons.prems by (simp add: sched_def)
    obtain l nx where R: "tlremove (wait_list st c) (list_next st) = (Some t, l, nx)"
        "queues (st\<lparr>wait_list := (wait_list st)(c := l), list_next := nx\<rparr>) rl (wl(c := ts))"
        "t \<notin> set rl" "\<forall>d. t \<notin> set ((wl(c := ts)) d)"
      using wait_remove_ok [OF Q Cons.prems(2)] by blast
    define st1 where "st1 = set_state t THREAD_READY
      (st\<lparr>wait_list := (wait_list st)(c := l), list_next := nx, wait_cond := (wait_cond st)(t := None)\<rparr>)"
    have "queues st1 rl (wl(c := ts))"
      using R(2) by (simp add: st1_def set_state_def)
    then obtain l' nx' where I: "ready_insert t st1 = Some (st1\<lparr>ready_list := l', list_next := nx'\<rparr>)"
        "queues (st1\<lparr>ready_list := l', list_next := nx'\<rparr>) (rl @ [t]) (wl(c := ts))"
      using ready_insert_ok [OF _ R(3,4)] by blast
    define st2 where "st2 = st1\<lparr>ready_list := l', list_next := nx'\<rparr>"
    have eq: "TP st2 = TP st" "frame st st2" "thrtab st2 = thrtab st" "t_state st2 = (t_state st)(t := THREAD_READY)"
        "wait_cond st2 = (wait_cond st)(t := None)"
      by (simp_all add: st2_def st1_def set_state_def frame_def)
    have mem: "thrtab st t \<and> t_state st t = THREAD_WAITING \<and> wait_cond st t = Some c"
      using Cons.prems by (metis list.set_intros(1) sched_def)
    have "sched st2 (rl @ [t]) (wl(c := ts))"
      unfolding sched_def
    proof (intro conjI allI)
      show "queues st2 (rl @ [t]) (wl(c := ts))" using I(2) by (simp add: st2_def)
      show "u \<in> set (rl @ [t]) \<longleftrightarrow> thrtab st2 u \<and> t_state st2 u = THREAD_READY" for u
        using Cons.prems(1) mem by (auto simp: sched_def eq)
      show "u \<in> set ((wl(c := ts)) d) \<longleftrightarrow>
          thrtab st2 u \<and> t_state st2 u = THREAD_WAITING \<and> wait_cond st2 u = Some d" for u d
      proof -
        have "u \<in> set (wl d) \<longleftrightarrow> thrtab st u \<and> t_state st u = THREAD_WAITING \<and> wait_cond st u = Some d"
          using Cons.prems(1) by (simp add: sched_def)
        then show ?thesis
          using R(4) [rule_format, of d] mem Cons.prems(2) by (auto simp: eq split: if_splits)
      qed
    qed
    from Cons.IH [OF this] obtain st' where st': "broadcast_loop c st2 = Some st'" "TP st' = TP st2"
        "frame st2 st'" "sched st' (rl @ t # ts) (wl(c := []))"
        "t_state st' = (\<lambda>u. if u \<in> set ts then THREAD_READY else t_state st2 u)"
        "wait_cond st' = (\<lambda>u. if u \<in> set ts then None else wait_cond st2 u)"
      by (auto simp del: fun_upd_apply simp: fun_upd_same)
    have "broadcast_loop c st = broadcast_loop c st2"
      by (subst broadcast_loop.simps) (use R(1) I(1) in \<open>simp add: Let_def st1_def st2_def\<close>)
    then have "broadcast_loop c st = Some st'" "TP st' = TP st" "frame st st'"
        "t_state st' = (\<lambda>u. if u \<in> set (t # ts) then THREAD_READY else t_state st u)"
        "wait_cond st' = (\<lambda>u. if u \<in> set (t # ts) then None else wait_cond st u)"
      using st' eq frame_trans [of st st2 st'] by auto
    with st'(4) show ?case by blast
  qed
  then show thesis
    using assms that unfolding condition_broadcast_def by blast
qed

end
