(* ===== verification/Locks.thy ===== *)
theory Locks
  imports Sched
begin

text \<open>
  The invariant of the thread manager and that every operation of thread.c keeps it. On top of
  the lists of \<open>Sched\<close> it says which thread runs, that the main and the idle thread exist, that
  parents of live threads are live, and that the list of held locks of a thread is exactly the
  locks it owns, each with a positive count. No operation fails an assertion in such a state.
\<close>

subsection \<open>The invariant\<close>

definition threads :: "kthr \<Rightarrow> bool" where
  "threads st \<longleftrightarrow>
     (\<forall>t. t = TP st \<longleftrightarrow> thrtab st t \<and> t_state st t = THREAD_SELF) \<and>
     thrtab st MAIN_TID \<and> t_parent st MAIN_TID = None \<and> t_state st MAIN_TID \<noteq> THREAD_EXITED \<and>
     thrtab st IDLE_TID \<and> t_parent st IDLE_TID = Some MAIN_TID \<and>
     (t_state st IDLE_TID = THREAD_SELF \<or> t_state st IDLE_TID = THREAD_READY) \<and>
     (\<forall>t. thrtab st t \<longrightarrow> t < NTHR \<and> t_state st t \<noteq> THREAD_UNINITIALIZED) \<and>
     (\<forall>t p. thrtab st t \<and> t_parent st t = Some p \<longrightarrow> thrtab st p) \<and>
     (\<forall>t u. thrtab st t \<and> t_state st t = THREAD_WAITING \<and> wait_cond st t = Some (ChildExit u) \<longrightarrow> u = t)"

definition lock_rep :: "(nat \<Rightarrow> nat option) \<Rightarrow> nat option \<Rightarrow> nat list \<Rightarrow> bool" where
  "lock_rep nx h ls \<longleftrightarrow> distinct ls \<and> linked nx ls \<and> h = (if ls = [] then None else Some (hd ls))"

definition locks :: "kthr \<Rightarrow> (nat \<Rightarrow> nat list) \<Rightarrow> bool" where
  "locks st ll \<longleftrightarrow>
     (\<forall>t. thrtab st t \<longrightarrow> lock_rep (l_next st) (lock_list st t) (ll t)) \<and>
     (\<forall>t l. l \<in> set (ll t) \<longleftrightarrow> l_owner st l = Some t) \<and>
     (\<forall>t l. l_owner st l = Some t \<longrightarrow> thrtab st t \<and> t_state st t \<noteq> THREAD_EXITED \<and> 0 < l_count st l)"

definition kinv :: "kthr \<Rightarrow> nat list \<Rightarrow> (condition \<Rightarrow> nat list) \<Rightarrow> (nat \<Rightarrow> nat list) \<Rightarrow> bool" where
  "kinv st rl wl ll \<longleftrightarrow> sched st rl wl \<and> threads st \<and> locks st ll"

lemma kinvD:
  assumes "kinv st rl wl ll"
  shows "sched st rl wl" "threads st" "locks st ll"
  using assms by (simp_all add: kinv_def)

lemma threadsD:
  assumes "threads st"
  shows "thrtab st t \<Longrightarrow> t_state st t = THREAD_SELF \<Longrightarrow> t = TP st"
    "thrtab st (TP st)" "t_state st (TP st) = THREAD_SELF" "thrtab st MAIN_TID" "thrtab st IDLE_TID"
    "thrtab st t \<Longrightarrow> t < NTHR" "thrtab st t \<Longrightarrow> t_parent st t = Some p \<Longrightarrow> thrtab st p"
    "t_parent st IDLE_TID = Some MAIN_TID" "t_state st MAIN_TID \<noteq> THREAD_EXITED"
    "t_state st IDLE_TID = THREAD_SELF \<or> t_state st IDLE_TID = THREAD_READY"
    "thrtab st t \<Longrightarrow> t_state st t \<noteq> THREAD_UNINITIALIZED"
    "thrtab st t \<Longrightarrow> t_state st t = THREAD_WAITING \<Longrightarrow> wait_cond st t = Some (ChildExit u) \<Longrightarrow> u = t"
    "t_parent st MAIN_TID = None"
  using assms unfolding threads_def by blast+

lemma lock_fields [simp]:
  "sched (st\<lparr>l_owner := a\<rparr>) rl wl = sched st rl wl" "threads (st\<lparr>l_owner := a\<rparr>) = threads st"
  "sched (st\<lparr>l_count := b\<rparr>) rl wl = sched st rl wl" "threads (st\<lparr>l_count := b\<rparr>) = threads st"
  "sched (st\<lparr>l_next := nx\<rparr>) rl wl = sched st rl wl" "threads (st\<lparr>l_next := nx\<rparr>) = threads st"
  "sched (st\<lparr>lock_list := d\<rparr>) rl wl = sched st rl wl" "threads (st\<lparr>lock_list := d\<rparr>) = threads st"
  by (simp_all add: sched_def threads_def)

lemma threadsI:
  assumes "thrtab st (TP st)" "t_state st (TP st) = THREAD_SELF"
    "\<And>t. thrtab st t \<Longrightarrow> t_state st t = THREAD_SELF \<Longrightarrow> t = TP st"
    "thrtab st MAIN_TID" "t_parent st MAIN_TID = None" "t_state st MAIN_TID \<noteq> THREAD_EXITED"
    "thrtab st IDLE_TID" "t_parent st IDLE_TID = Some MAIN_TID"
    "t_state st IDLE_TID = THREAD_SELF \<or> t_state st IDLE_TID = THREAD_READY"
    "\<And>t. thrtab st t \<Longrightarrow> t < NTHR" "\<And>t. thrtab st t \<Longrightarrow> t_state st t \<noteq> THREAD_UNINITIALIZED"
    "\<And>t p. thrtab st t \<Longrightarrow> t_parent st t = Some p \<Longrightarrow> thrtab st p"
    "\<And>t u. thrtab st t \<Longrightarrow> t_state st t = THREAD_WAITING \<Longrightarrow> wait_cond st t = Some (ChildExit u) \<Longrightarrow> u = t"
  shows "threads st"
  unfolding threads_def
proof (intro conjI allI)
  show "t = TP st \<longleftrightarrow> thrtab st t \<and> t_state st t = THREAD_SELF" for t
    using assms(1-3) by metis
  show "thrtab st t \<and> t_parent st t = Some p \<longrightarrow> thrtab st p" for t p
    using assms(12) by blast
  show "thrtab st t \<longrightarrow> t < NTHR \<and> t_state st t \<noteq> THREAD_UNINITIALIZED" for t
    using assms(10,11) by simp
  show "thrtab st t \<and> t_state st t = THREAD_WAITING \<and> wait_cond st t = Some (ChildExit u) \<longrightarrow> u = t" for t u
    using assms(13) by blast
qed (use assms(4-9) in simp_all)

lemma threads_step:
  assumes T: "threads st" and F: "frame st st'"
    and "thrtab st (TP st')" "\<And>t. thrtab st t \<Longrightarrow> t = TP st' \<longleftrightarrow> t_state st' t = THREAD_SELF"
    and "t_state st' MAIN_TID \<noteq> THREAD_EXITED"
    and "t_state st' IDLE_TID = THREAD_SELF \<or> t_state st' IDLE_TID = THREAD_READY"
    and "\<And>t. thrtab st t \<Longrightarrow> t_state st' t \<noteq> THREAD_UNINITIALIZED"
    and "\<And>t u. thrtab st t \<Longrightarrow> t_state st' t = THREAD_WAITING \<Longrightarrow> wait_cond st' t = Some (ChildExit u) \<Longrightarrow> u = t"
  shows "threads st'"
proof -
  have e: "thrtab st' = thrtab st" "t_parent st' = t_parent st"
    using F by (simp_all add: frame_def)
  show ?thesis
  proof (rule threadsI, unfold e)
    show "t_state st' (TP st') = THREAD_SELF" using assms(3,4) by blast
    show "t = TP st'" if "thrtab st t" "t_state st' t = THREAD_SELF" for t using assms(4) that by blast
    show "thrtab st p" if "thrtab st t" "t_parent st t = Some p" for t p using threadsD(7) [OF T] that by blast
    show "u = t" if "thrtab st t" "t_state st' t = THREAD_WAITING" "wait_cond st' t = Some (ChildExit u)" for t u
      using assms(8) that by blast
  qed (use assms(3,5-7) threadsD(4,5,6,8,13) [OF T] in simp_all)
qed

lemma locksD:
  assumes "locks st ll"
  shows "thrtab st t \<Longrightarrow> lock_rep (l_next st) (lock_list st t) (ll t)"
    "l \<in> set (ll t) \<longleftrightarrow> l_owner st l = Some t"
    "l_owner st l = Some t \<Longrightarrow> thrtab st t" "l_owner st l = Some t \<Longrightarrow> t_state st t \<noteq> THREAD_EXITED"
    "l_owner st l = Some t \<Longrightarrow> 0 < l_count st l"
  using assms unfolding locks_def by blast+

lemma idle_ready:
  assumes "kinv st rl wl ll" and "TP st \<noteq> IDLE_TID"
  shows "IDLE_TID \<in> set rl"
  using assms unfolding kinv_def threads_def sched_def by metis

lemma locks_frame:
  assumes "locks st ll" "frame st st'" "\<And>t. t_state st' t = THREAD_EXITED \<longleftrightarrow> t_state st t = THREAD_EXITED"
  shows "locks st' ll"
  using assms unfolding locks_def frame_def by auto

subsection \<open>Giving up the processor\<close>

lemma kinv_yield:
  assumes K: "kinv st rl wl ll"
  obtains st' where "thread_yield st = Some st'" "TP st' = hd (rl @ [TP st])" "frame st st'"
    "kinv st' (tl (rl @ [TP st])) wl ll"
proof -
  let ?h = "hd (rl @ [TP st])"
  note S = kinvD(1) [OF K] and T = kinvD(2) [OF K] and me = threadsD(2,3) [OF kinvD(2) [OF K]]
  have h: "thrtab st ?h" "t_state st ?h = THREAD_READY \<or> t_state st ?h = THREAD_SELF"
    using schedD(2) [OF S, of ?h] me by (cases rl; simp)+
  obtain st' where st': "running_thread_suspend st = Some st'" "TP st' = ?h" "frame st st'"
      "sched st' (tl (rl @ [TP st])) wl" "wait_cond st' = wait_cond st"
      "t_state st' = (t_state st)(TP st := THREAD_READY, ?h := THREAD_SELF)"
    by (rule suspend_ok [OF S me(1)]) (use me in auto)
  have "threads st'"
    by (rule threads_step [OF T st'(3)])
      (use h st'(2,5,6) threadsD(2,3,9-11) [OF T] in \<open>auto dest: threadsD(1,12) [OF T] split: if_splits\<close>)
  moreover have "locks st' ll"
    by (rule locks_frame [OF kinvD(3) [OF K] st'(3)]) (use st'(6) h me in auto)
  ultimately show thesis
    using that st' by (simp add: kinv_def thread_yield_def)
qed

lemma kinv_wait:
  assumes K: "kinv st rl wl ll" and i: "TP st \<noteq> IDLE_TID" and c: "\<And>u. c = ChildExit u \<Longrightarrow> u = TP st"
  obtains st' where "condition_wait c st = Some st'" "TP st' = hd rl" "frame st st'" "rl \<noteq> []"
    "kinv st' (tl rl) (wl(c := wl c @ [TP st])) ll"
proof -
  note S = kinvD(1) [OF K] and T = kinvD(2) [OF K] and me = threadsD(2,3) [OF kinvD(2) [OF K]]
  have ne: "rl \<noteq> []" using idle_ready [OF K i] by auto
  then have h: "thrtab st (hd rl)" "t_state st (hd rl) = THREAD_READY"
    using schedD(2) [OF S, of "hd rl"] by simp_all
  obtain st' where st': "condition_wait c st = Some st'" "TP st' = hd rl" "frame st st'"
      "sched st' (tl rl) (wl(c := wl c @ [TP st]))" "wait_cond st' = (wait_cond st)(TP st \<mapsto> c)"
      "t_state st' = (t_state st)(TP st := THREAD_WAITING, hd rl := THREAD_SELF)"
    by (rule wait_ok [OF S me ne])
  have "threads st'"
    by (rule threads_step [OF T st'(3)])
      (use h st'(2,5,6) i c threadsD(2,3,9-11) [OF T] in \<open>auto dest: threadsD(1,12) [OF T] split: if_splits\<close>)
  moreover have "locks st' ll"
    by (rule locks_frame [OF kinvD(3) [OF K] st'(3)]) (use st'(6) h me in auto)
  ultimately show thesis
    using that st' ne by (simp add: kinv_def)
qed

lemma kinv_broadcast:
  assumes K: "kinv st rl wl ll"
  obtains st' where "condition_broadcast c st = Some st'" "TP st' = TP st" "frame st st'"
    "kinv st' (rl @ wl c) (wl(c := [])) ll"
    "\<And>t. t_state st' t = THREAD_EXITED \<longleftrightarrow> t_state st t = THREAD_EXITED"
proof -
  note S = kinvD(1) [OF K] and T = kinvD(2) [OF K]
  obtain st' where st': "condition_broadcast c st = Some st'" "TP st' = TP st" "frame st st'"
      "sched st' (rl @ wl c) (wl(c := []))"
      "t_state st' = (\<lambda>t. if t \<in> set (wl c) then THREAD_READY else t_state st t)"
      "wait_cond st' = (\<lambda>t. if t \<in> set (wl c) then None else wait_cond st t)"
    by (rule broadcast_ok [OF S])
  have w: "thrtab st t \<and> t_state st t = THREAD_WAITING" if "t \<in> set (wl c)" for t
    using schedD(3) [OF S, of t c] that by simp
  have "threads st'"
    by (rule threads_step [OF T st'(3)])
      (use w st'(2,5,6) threadsD(2,3,9-11) [OF T] in \<open>auto dest: threadsD(1,12) [OF T] split: if_splits\<close>)
  moreover have "locks st' ll"
    by (rule locks_frame [OF kinvD(3) [OF K] st'(3)]) (use st'(5) w in auto)
  ultimately show thesis
    using that st' w by (auto simp: kinv_def)
qed

subsection \<open>Creating and joining\<close>

lemma find_SomeD: "find P xs = Some x \<Longrightarrow> x \<in> set xs \<and> P x"
  by (auto simp: find_Some_iff)

lemma create_thread_slot:
  "create_thread st = None \<longleftrightarrow> (\<forall>t. 0 < t \<and> t < NTHR \<longrightarrow> thrtab st t)"
  "create_thread st = Some (tid, st') \<Longrightarrow> 0 < tid \<and> tid < NTHR \<and> \<not> thrtab st tid"
proof -
  show "create_thread st = None \<longleftrightarrow> (\<forall>t. 0 < t \<and> t < NTHR \<longrightarrow> thrtab st t)"
    by (auto simp: create_thread_def find_None_iff Suc_le_eq split: option.splits dest!: find_SomeD)
  show "0 < tid \<and> tid < NTHR \<and> \<not> thrtab st tid" if "create_thread st = Some (tid, st')"
    using that by (auto simp: create_thread_def split: option.splits dest!: find_SomeD)
qed

lemma kinv_spawn:
  assumes K: "kinv st rl wl ll" and i: "TP st \<noteq> IDLE_TID"
  obtains "thread_spawn st = Some (- EMTHR, st)" "\<forall>t. 0 < t \<and> t < NTHR \<longrightarrow> thrtab st t"
  | child st' where "thread_spawn st = Some (int child, st')" "TP st' = TP st" "0 < child" "child < NTHR"
      "\<not> thrtab st child" "thrtab st' = (thrtab st)(child := True)" "t_parent st' child = Some (TP st)"
      "l_owner st' = l_owner st"
      "kinv st' (rl @ [child]) wl ll"
proof (cases "create_thread st")
  case None
  show thesis
    by (rule that(1)) (use None create_thread_slot(1) [of st] in \<open>simp_all add: thread_spawn_def\<close>)
next
  case (Some p)
  obtain child st1 where c: "create_thread st = Some (child, st1)" using Some by (cases p) auto
  note S = kinvD(1) [OF K] and T = kinvD(2) [OF K] and L = kinvD(3) [OF K]
  have dead: "0 < child" "child < NTHR" "\<not> thrtab st child"
    using create_thread_slot(2) [OF c] by simp_all
  have out: "child \<notin> set rl" "\<forall>c. child \<notin> set (wl c)"
    using schedD(2,3) [OF S] dead(3) by auto
  define st2 where "st2 = set_state child THREAD_READY st1"
  have eq: "thrtab st2 = (thrtab st)(child := True)" "t_parent st2 = (t_parent st)(child := Some (TP st))"
      "t_state st2 = (t_state st)(child := THREAD_READY)" "wait_cond st2 = (wait_cond st)(child := None)"
      "lock_list st2 = (lock_list st)(child := None)" "TP st2 = TP st" "l_owner st2 = l_owner st"
      "l_count st2 = l_count st" "l_next st2 = l_next st"
    using c by (auto simp: st2_def create_thread_def split: option.splits)
  have "queues st2 rl wl"
    using schedD(1) [OF S] out c
    by (auto simp: st2_def create_thread_def queues_def split: option.splits)
  then obtain l nx where I: "ready_insert child st2 = Some (st2\<lparr>ready_list := l, list_next := nx\<rparr>)"
      "queues (st2\<lparr>ready_list := l, list_next := nx\<rparr>) (rl @ [child]) wl"
    using ready_insert_ok [OF _ out] by blast
  define st' where "st' = condition_init (ChildExit child) (st2\<lparr>ready_list := l, list_next := nx\<rparr>)"
  have none: "wl (ChildExit child) = []"
  proof -
    have "t = child \<and> thrtab st t" if "t \<in> set (wl (ChildExit child))" for t
      using that schedD(3) [OF S] threadsD(12) [OF T] by blast
    then show ?thesis using dead(3) by (cases "wl (ChildExit child)") auto
  qed
  have "queues st' (rl @ [child]) wl"
    using I(2) none by (simp add: st'_def condition_init_def queues_def)
  moreover have eq': "thrtab st' = thrtab st2" "t_state st' = t_state st2" "wait_cond st' = wait_cond st2"
      "t_parent st' = t_parent st2" "lock_list st' = lock_list st2" "TP st' = TP st2"
      "l_owner st' = l_owner st2" "l_count st' = l_count st2" "l_next st' = l_next st2"
    by (simp_all add: st'_def condition_init_def)
  ultimately have "sched st' (rl @ [child]) wl"
    using schedD(2,3) [OF S] out dead by (intro schedI) (auto simp: eq eq' split: if_splits)
  moreover have "threads st'"
  proof (rule threadsI, unfold eq eq')
    show "t = TP st" if "((thrtab st)(child := True)) t" "((t_state st)(child := THREAD_READY)) t = THREAD_SELF" for t
      using threadsD(1) [OF T, of t] that by (simp split: if_splits)
    show "u = t" if "((thrtab st)(child := True)) t" "((t_state st)(child := THREAD_READY)) t = THREAD_WAITING"
        "((wait_cond st)(child := None)) t = Some (ChildExit u)" for t u
      using threadsD(12) [OF T, of t u] that by (simp split: if_splits)
    show "((thrtab st)(child := True)) p" if "((thrtab st)(child := True)) t"
        "((t_parent st)(child \<mapsto> TP st)) t = Some p" for t p
      using threadsD(2) [OF T] threadsD(7) [OF T, of t p] that by (auto split: if_splits)
  qed (use threadsD(2-6,8-11,13) [OF T] dead in \<open>auto split: if_splits\<close>)
  moreover have "locks st' ll"
  proof -
    have "ll child = []"
      using locksD(2,3) [OF L, of "hd (ll child)" child] dead(3) by (cases "ll child") auto
    then show ?thesis
      using L dead(3) unfolding locks_def eq eq' by (auto simp: lock_rep_def)
  qed
  moreover have "thread_spawn st = Some (int child, st')"
    using c I(1) by (simp add: thread_spawn_def st2_def st'_def)
  ultimately show thesis
    using that(2) [of child st'] dead eq eq' by (simp add: kinv_def)
qed

text \<open>The children of the running thread that a join on \<open>tid\<close> may reap.\<close>

definition child_match :: "kthr \<Rightarrow> int \<Rightarrow> nat \<Rightarrow> bool" where
  "child_match st tid i \<longleftrightarrow> thrtab st i \<and> t_parent st i = Some (TP st) \<and> (tid = 0 \<or> int i = tid)"

lemma join_scan_find:
  "join_scan st tid is b =
     (case find (\<lambda>i. child_match st tid i \<and> t_state st i = THREAD_EXITED) is of
        Some i \<Rightarrow> (Some i, True)
      | None \<Rightarrow> (None, b \<or> list_ex (child_match st tid) is))"
proof (induction "is" arbitrary: b)
  case (Cons i "is")
  have eq: "join_scan st tid (i # is) b =
      (if \<not> child_match st tid i then join_scan st tid is b
       else if t_state st i = THREAD_EXITED then (Some i, True) else join_scan st tid is True)"
    by (simp add: child_match_def)
  show ?case
    unfolding eq Cons.IH by (simp split: option.split)
qed simp

lemma kinv_reclaim:
  assumes K: "kinv st rl wl ll" and i: "thrtab st i" "t_state st i = THREAD_EXITED" "t_parent st i = Some (TP st)"
  obtains st' where "thread_reclaim i st = Some st'" "TP st' = TP st" "thrtab st' = (thrtab st)(i := False)"
    "\<And>c. thrtab st' c \<Longrightarrow> t_parent st' c \<noteq> Some i" "l_owner st' = l_owner st" "kinv st' rl wl ll"
proof -
  note S = kinvD(1) [OF K] and T = kinvD(2) [OF K] and L = kinvD(3) [OF K]
  have ne: "i \<noteq> MAIN_TID" "i \<noteq> IDLE_TID" "i \<noteq> TP st" "i < NTHR"
    using i threadsD(3,6,9,10) [OF T] by auto
  then have pos: "0 < i" by (simp add: MAIN_TID_def)
  define st' where "st' = st\<lparr>t_parent := (\<lambda>c. if 1 \<le> c \<and> c < NTHR \<and> thrtab st c \<and> t_parent st c = Some i
      then t_parent st i else t_parent st c), thrtab := (thrtab st)(i := False)\<rparr>"
  have "thread_reclaim i st = Some st'"
    using pos ne(4) i by (simp add: thread_reclaim_def st'_def)
  moreover have par: "t_parent st' c \<noteq> Some i" if "thrtab st' c" for c
    using that ne i threadsD(6) [OF T, of c] threadsD(13) [OF T]
    by (cases "c = 0") (auto simp: st'_def MAIN_TID_def split: if_splits)
  moreover have "sched st' rl wl"
    using schedD(1) [OF S] schedD(2,3) [OF S] i by (intro schedI) (auto simp: st'_def)
  moreover have "threads st'"
  proof (rule threadsI)
    show "t = TP st'" if "thrtab st' t" "t_state st' t = THREAD_SELF" for t
      using threadsD(1) [OF T, of t] that by (simp add: st'_def split: if_splits)
    show "u = t" if "thrtab st' t" "t_state st' t = THREAD_WAITING" "wait_cond st' t = Some (ChildExit u)" for t u
      using threadsD(12) [OF T, of t u] that by (simp add: st'_def split: if_splits)
    show "thrtab st' p" if "thrtab st' t" "t_parent st' t = Some p" for t p
      using threadsD(2) [OF T] threadsD(7) [OF T, of t p] that i ne(3) par [OF that(1)]
      by (auto simp: st'_def split: if_splits)
  qed (use threadsD(2-6,8-11,13) [OF T] i ne in \<open>auto simp: st'_def split: if_splits\<close>)
  moreover have "locks st' ll"
  proof -
    have "l_owner st l \<noteq> Some i" for l using locksD(4) [OF L, of l i] i(2) by auto
    then show ?thesis using L by (auto simp: st'_def locks_def)
  qed
  ultimately show thesis
    using that [of st'] by (simp add: kinv_def st'_def)
qed

lemma kinv_join:
  fixes tid :: int
  assumes K: "kinv st rl wl ll" and ni: "TP st \<noteq> IDLE_TID"
  defines "kid \<equiv> \<lambda>i. 0 < i \<and> i < NTHR \<and> child_match st tid i"
  obtains i st' where "thread_join tid st = Some (Returned (int i), st')" "kid i" "t_state st i = THREAD_EXITED"
      "TP st' = TP st" "thrtab st' = (thrtab st)(i := False)" "l_owner st' = l_owner st" "kinv st' rl wl ll"
  | "thread_join tid st = Some (Returned (- EINVAL), st)" "\<nexists>i. kid i"
  | i st' where "thread_join tid st = Some (Blocked, st')" "kid i" "\<forall>i. kid i \<longrightarrow> t_state st i \<noteq> THREAD_EXITED"
      "TP st' = hd rl" "rl \<noteq> []" "l_owner st' = l_owner st"
      "kinv st' (tl rl) (wl(ChildExit (TP st) := wl (ChildExit (TP st)) @ [TP st])) ll"
proof -
  let ?P = "\<lambda>i. child_match st tid i \<and> t_state st i = THREAD_EXITED"
  note J = thread_join_def [of tid st] join_scan_find
  show thesis
  proof (cases "find ?P [1..<NTHR]")
    case (Some i)
    then have i: "kid i" "t_state st i = THREAD_EXITED"
      using find_SomeD [OF Some] by (auto simp: kid_def)
    obtain st' where st': "thread_reclaim i st = Some st'" "TP st' = TP st"
        "thrtab st' = (thrtab st)(i := False)" "l_owner st' = l_owner st" "kinv st' rl wl ll"
      by (rule kinv_reclaim [OF K, of i]) (use i in \<open>auto simp: kid_def child_match_def\<close>)
    then show thesis
      using that(1) [of i st'] i Some by (simp add: J)
  next
    case None
    then have ne: "\<forall>i. kid i \<longrightarrow> t_state st i \<noteq> THREAD_EXITED"
      by (auto simp: find_None_iff kid_def)
    show thesis
    proof (cases "list_ex (child_match st tid) [1..<NTHR]")
      case False
      then have "\<nexists>i. kid i" by (auto simp: list_ex_iff kid_def)
      then show thesis using that(2) False None by (simp add: J)
    next
      case True
      then obtain i where i: "kid i" by (auto simp: list_ex_iff kid_def Suc_le_eq)
      obtain st' where st': "condition_wait (ChildExit (TP st)) st = Some st'" "TP st' = hd rl" "frame st st'" "rl \<noteq> []"
          "kinv st' (tl rl) (wl(ChildExit (TP st) := wl (ChildExit (TP st)) @ [TP st])) ll"
        by (rule kinv_wait [OF K ni, of "ChildExit (TP st)"]) auto
      then show thesis
        using that(3) [of st' i] i ne True None by (simp add: J frame_def)
    qed
  qed
qed

subsection \<open>Locks\<close>

lemma linked_tail:
  "linked nx (l # ls) \<Longrightarrow> linked nx ls \<and> nx l = (if ls = [] then None else Some (hd ls))"
  by (cases ls) simp_all

lemma find_ins_ok:
  "linked nx (pre @ l # post) \<Longrightarrow> l \<notin> set pre \<Longrightarrow>
     find_ins nx l prev (Some (hd (pre @ l # post))) = Some (if pre = [] then prev else Some (last pre), Some l)"
proof (induction pre arbitrary: prev)
  case Nil
  then show ?case by (subst find_ins.simps) simp
next
  case (Cons p pre)
  have "nx p = Some (hd (pre @ l # post))" "linked nx (pre @ l # post)"
    using linked_tail [of nx p "pre @ l # post"] Cons.prems(1) by simp_all
  then show ?case
    using Cons.IH [of "Some p"] Cons.prems(2) by (subst find_ins.simps) auto
qed

lemma linked_cut:
  "linked nx (pre @ l # post) \<Longrightarrow> distinct (pre @ l # post) \<Longrightarrow> pre \<noteq> [] \<Longrightarrow>
     linked (nx(last pre := nx l)) (pre @ post)"
proof (induction pre)
  case (Cons p pre)
  show ?case
  proof (cases "pre = []")
    case True
    then show ?thesis
      using Cons.prems linked_tail [of nx p "l # post"] linked_tail [of nx l post]
      by (cases post) (auto simp del: fun_upd_apply simp: fun_upd_same)
  next
    case False
    have t: "linked nx (pre @ l # post)" "nx p = Some (hd (pre @ l # post))"
      using linked_tail [of nx p "pre @ l # post"] Cons.prems(1) by simp_all
    have "linked (nx(last pre := nx l)) (pre @ post)"
      by (rule Cons.IH) (use t Cons.prems False in auto)
    moreover have "p \<noteq> last pre" using Cons.prems(2) False by auto
    ultimately show ?thesis using t(2) False
      by (cases pre) (auto simp del: fun_upd_apply simp: fun_upd_other)
  qed
qed simp

lemma detach_lock_ok:
  assumes R: "lock_rep (l_next st) (lock_list st t) (ll t)" and l: "l \<in> set (ll t)"
  obtains nx hd' where "detach_lock t l st = Some (st\<lparr>lock_list := (lock_list st)(t := hd'), l_next := nx\<rparr>)"
    "lock_rep nx hd' (remove1 l (ll t))" "\<And>k. k \<notin> set (ll t) \<Longrightarrow> nx k = l_next st k"
proof -
  obtain pre post where s: "ll t = pre @ l # post" "l \<notin> set pre"
    using split_list_first [OF l] by blast
  then have rem: "remove1 l (ll t) = pre @ post" by (simp add: remove1_append)
  have lk: "linked (l_next st) (pre @ l # post)" "distinct (pre @ l # post)"
      "lock_list st t = Some (hd (pre @ l # post))"
    using R s by (simp_all add: lock_rep_def)
  have F: "find_ins (l_next st) l None (lock_list st t) = Some (if pre = [] then None else Some (last pre), Some l)"
    using find_ins_ok [OF lk(1) s(2)] lk(3) by simp
  show thesis
  proof (cases "pre = []")
    case True
    have "linked ((l_next st)(l := None)) post" "l_next st l = (if post = [] then None else Some (hd post))"
      using True lk linked_tail [of "l_next st" l post] by simp_all
    then have "lock_rep ((l_next st)(l := None)) (l_next st l) (remove1 l (ll t))"
      using True lk(2) by (simp add: lock_rep_def rem)
    moreover have "detach_lock t l st =
        Some (st\<lparr>lock_list := (lock_list st)(t := l_next st l), l_next := (l_next st)(l := None)\<rparr>)"
      using F True by (simp add: detach_lock_def)
    moreover have "((l_next st)(l := None)) k = l_next st k" if "k \<notin> set (ll t)" for k
      using that l by auto
    ultimately show thesis using that by blast
  next
    case False
    let ?nx = "(l_next st)(last pre := l_next st l, l := None)"
    have "linked ?nx (pre @ post)"
      using linked_cut [OF lk(1,2) False] lk(2) by (simp add: linked_upd)
    moreover have "lock_list st t = (if pre @ post = [] then None else Some (hd (pre @ post)))"
      using lk(3) False by (simp add: hd_append)
    ultimately have "lock_rep ?nx (lock_list st t) (remove1 l (ll t))"
      unfolding rem lock_rep_def using lk(2) by simp
    moreover have "detach_lock t l st = Some (st\<lparr>lock_list := (lock_list st)(t := lock_list st t), l_next := ?nx\<rparr>)"
      using F False by (simp add: detach_lock_def)
    moreover have "?nx k = l_next st k" if "k \<notin> set (ll t)" for k
      using that s False by auto
    ultimately show thesis using that by blast
  qed
qed

lemma kinv_acquire:
  assumes K: "kinv st rl wl ll" and ni: "TP st \<noteq> IDLE_TID"
  obtains st' ll' where "lock_acquire l st = Some (Returned (), st')" "l_owner st l = None \<or> l_owner st l = Some (TP st)"
      "TP st' = TP st" "thrtab st' = thrtab st" "l_owner st' = (l_owner st)(l \<mapsto> TP st)" "kinv st' rl wl ll'"
  | st' h where "lock_acquire l st = Some (Blocked, st')" "l_owner st l = Some h" "h \<noteq> TP st"
      "TP st' = hd rl" "rl \<noteq> []" "thrtab st' = thrtab st" "l_owner st' = l_owner st"
      "kinv st' (tl rl) (wl(LockCv l := wl (LockCv l) @ [TP st])) ll"
proof (cases "l_owner st l")
  case (Some h)
  note T = kinvD(2) [OF K]
  show thesis
  proof (cases "h = TP st")
    case True
    let ?st = "st\<lparr>l_count := (l_count st)(l := l_count st l + 1)\<rparr>"
    have "locks ?st ll"
      using kinvD(3) [OF K] unfolding locks_def by (auto intro: add_nonneg_pos less_imp_le)
    then have "kinv ?st rl wl ll"
      using K by (simp add: kinv_def)
    with Some True that(1) [of ?st ll] show thesis
      by (simp add: lock_acquire_def Let_def fun_upd_idem)
  next
    case False
    obtain st' where st': "condition_wait (LockCv l) st = Some st'" "TP st' = hd rl" "frame st st'" "rl \<noteq> []"
        "kinv st' (tl rl) (wl(LockCv l := wl (LockCv l) @ [TP st])) ll"
      by (rule kinv_wait [OF K ni, of "LockCv l"]) auto
    with Some False that(2) [of st' h] show thesis
      by (simp add: lock_acquire_def Let_def frame_def)
  qed
next
  case None
  note L = kinvD(3) [OF K] and T = kinvD(2) [OF K] and me = threadsD(2,3) [OF kinvD(2) [OF K]]
  let ?st = "st\<lparr>l_owner := (l_owner st)(l \<mapsto> TP st), l_count := (l_count st)(l := 1),
                   l_next := (l_next st)(l := lock_list st (TP st)),
                   lock_list := (lock_list st)(TP st \<mapsto> l)\<rparr>"
  let ?ll = "ll(TP st := l # ll (TP st))"
  have fresh: "l \<notin> set (ll t)" for t using locksD(2) [OF L, of l t] None by simp
  have "locks ?st ?ll"
    unfolding locks_def
  proof (intro conjI allI)
    show "thrtab ?st t \<longrightarrow> lock_rep (l_next ?st) (lock_list ?st t) (?ll t)" for t
      using locksD(1) [OF L, of t] fresh [of t]
      by (cases "t = TP st"; cases "ll t") (auto simp: lock_rep_def)
    show "k \<in> set (?ll t) \<longleftrightarrow> l_owner ?st k = Some t" for t k
      using locksD(2) [OF L, of k t] fresh [of t] by auto
    show "l_owner ?st k = Some t \<longrightarrow> thrtab ?st t \<and> t_state ?st t \<noteq> THREAD_EXITED \<and> 0 < l_count ?st k" for t k
      using locksD(3-5) [OF L, of k t] me by auto
  qed
  moreover have "sched ?st rl wl" "threads ?st"
    using K by (simp_all add: kinv_def)
  ultimately have "kinv ?st rl wl ?ll" by (simp add: kinv_def)
  with None that(1) [of ?st ?ll] show thesis
    by (simp add: lock_acquire_def Let_def)
qed

lemma kinv_unlock:
  assumes K: "kinv st rl wl ll" and own: "l_owner st l = Some (TP st)" and c: "l_count st l = 1"
  obtains st' where "lock_release l st = Some st'" "TP st' = TP st" "thrtab st' = thrtab st"
    "t_parent st' = t_parent st" "l_owner st' = (l_owner st)(l := None)"
    "\<And>k. k \<noteq> l \<Longrightarrow> l_count st' k = l_count st k"
    "kinv st' (rl @ wl (LockCv l)) (wl(LockCv l := [])) (ll(TP st := remove1 l (ll (TP st))))"
proof -
  note L = kinvD(3) [OF K] and T = kinvD(2) [OF K] and me = threadsD(2,3) [OF kinvD(2) [OF K]]
  let ?me = "TP st"
  define st0 where "st0 = st\<lparr>l_count := (l_count st)(l := l_count st l - 1)\<rparr>"
  let ?ll = "ll(?me := remove1 l (ll ?me))"
  have mem: "l \<in> set (ll ?me)" using locksD(2) [OF L] own by simp
  have dis: "distinct (ll t)" if "thrtab st t" for t using locksD(1) [OF L that] by (simp add: lock_rep_def)
  obtain nx h where D: "detach_lock ?me l st0 = Some (st0\<lparr>lock_list := (lock_list st)(?me := h), l_next := nx\<rparr>)"
      "lock_rep nx h (remove1 l (ll ?me))" "\<And>k. k \<notin> set (ll ?me) \<Longrightarrow> nx k = l_next st k"
    by (rule detach_lock_ok [where st = st0 and ll = ll, OF _ mem]) (use locksD(1) [OF L me(1)] in \<open>simp_all add: st0_def\<close>)
  define st1 where "st1 = st0\<lparr>lock_list := (lock_list st)(?me := h), l_next := nx, l_owner := (l_owner st)(l := None)\<rparr>"
  have "locks st1 ?ll"
    unfolding locks_def
  proof (intro conjI allI)
    show "thrtab st1 t \<longrightarrow> lock_rep (l_next st1) (lock_list st1 t) (?ll t)" for t
    proof (cases "t = ?me")
      case False
      have "nx k = l_next st k" if "k \<in> set (ll t)" for k
        using that False locksD(2) [OF L, of k] by (intro D(3)) auto
      then show ?thesis
        using False locksD(1) [OF L, of t] linked_cong [of "ll t" nx "l_next st"]
        by (simp add: st1_def st0_def lock_rep_def)
    qed (use D(2) in \<open>simp add: st1_def st0_def\<close>)
    show "k \<in> set (?ll t) \<longleftrightarrow> l_owner st1 k = Some t" for t k
      using locksD(2) [OF L, of k t] dis [OF me(1)] own
      by (auto simp: st1_def st0_def)
    show "l_owner st1 k = Some t \<longrightarrow> thrtab st1 t \<and> t_state st1 t \<noteq> THREAD_EXITED \<and> 0 < l_count st1 k" for t k
      using locksD(3-5) [OF L, of k t] by (auto simp: st1_def st0_def)
  qed
  moreover have "sched st1 rl wl" "threads st1"
    using K by (simp_all add: kinv_def st1_def st0_def)
  ultimately have K1: "kinv st1 rl wl ?ll" by (simp add: kinv_def)
  obtain st' where st': "condition_broadcast (LockCv l) st1 = Some st'" "TP st' = TP st1" "frame st1 st'"
      "kinv st' (rl @ wl (LockCv l)) (wl(LockCv l := [])) ?ll"
    by (rule kinv_broadcast [OF K1, of "LockCv l"])
  have "lock_release l st = Some st'"
    using own c D(1) st'(1) by (simp add: lock_release_def Let_def st0_def st1_def)
  then show thesis
    using that [of st'] st'(2-) by (simp add: st1_def st0_def frame_def)
qed

lemma kinv_release:
  assumes K: "kinv st rl wl ll"
  obtains st' xs wl' ll' where "lock_release l st = Some st'" "TP st' = TP st" "thrtab st' = thrtab st"
    "t_parent st' = t_parent st" "kinv st' (rl @ xs) wl' ll'" "\<forall>d. wl' (Cond d) = wl (Cond d)"
    "l_owner st' = (if l_owner st l = Some (TP st) \<and> l_count st l = 1 then (l_owner st)(l := None) else l_owner st)"
    "l_owner st l = Some (TP st) \<longrightarrow>
       (if l_count st l = 1 then ll' (TP st) = remove1 l (ll (TP st)) \<and> (\<forall>k. k \<noteq> l \<longrightarrow> l_count st' k = l_count st k)
        else ll' (TP st) = ll (TP st) \<and> l_count st' = (l_count st)(l := l_count st l - 1))"
proof (cases "l_owner st l = Some (TP st)")
  case False
  with that [of st "[]" wl ll] K show thesis by (auto simp: lock_release_def Let_def)
next
  case own: True
  note L = kinvD(3) [OF K]
  have pos: "0 < l_count st l" using locksD(5) [OF L own] .
  show thesis
  proof (cases "l_count st l = 1")
    case True
    obtain st' where "lock_release l st = Some st'" "TP st' = TP st" "thrtab st' = thrtab st"
        "t_parent st' = t_parent st" "l_owner st' = (l_owner st)(l := None)"
        "\<And>k. k \<noteq> l \<Longrightarrow> l_count st' k = l_count st k"
        "kinv st' (rl @ wl (LockCv l)) (wl(LockCv l := [])) (ll(TP st := remove1 l (ll (TP st))))"
      using kinv_unlock [OF K own True] by blast
    then show thesis
      using that [of st' "wl (LockCv l)" "wl(LockCv l := [])" "ll(TP st := remove1 l (ll (TP st)))"] own True
      by simp
  next
    case False
    let ?st = "st\<lparr>l_count := (l_count st)(l := l_count st l - 1)\<rparr>"
    have "1 < l_count st l" using pos False by linarith
    then have "locks ?st ll"
      using L unfolding locks_def by auto
    then have "kinv ?st (rl @ []) wl ll"
      using K by (simp add: kinv_def)
    moreover have "lock_release l st = Some ?st"
      using own False pos by (simp add: lock_release_def Let_def)
    ultimately show thesis
      using that [of ?st "[]" wl ll] False by simp
  qed
qed

definition lock_depth :: "kthr \<Rightarrow> nat list \<Rightarrow> nat" where
  "lock_depth st ls = sum_list (map (\<lambda>l. nat (l_count st l)) ls)"

lemma lock_depth_Cons [simp]: "lock_depth st (l # ls) = nat (l_count st l) + lock_depth st ls"
  by (simp add: lock_depth_def)

lemma kinv_release_all:
  assumes "kinv st rl wl ll"
  obtains st' xs wl' ll' where "release_all st = Some st'" "TP st' = TP st" "thrtab st' = thrtab st"
    "t_parent st' = t_parent st" "kinv st' (rl @ xs) wl' ll'" "ll' (TP st) = []" "\<forall>d. wl' (Cond d) = wl (Cond d)"
    "l_owner st' = (\<lambda>l. if l_owner st l = Some (TP st) then None else l_owner st l)"
proof -
  have "\<exists>st' xs wl' ll'. release_all st = Some st' \<and> TP st' = TP st \<and> thrtab st' = thrtab st \<and>
    t_parent st' = t_parent st \<and> kinv st' (rl @ xs) wl' ll' \<and> ll' (TP st) = [] \<and>
    (\<forall>d. wl' (Cond d) = wl (Cond d)) \<and>
    l_owner st' = (\<lambda>l. if l_owner st l = Some (TP st) then None else l_owner st l)"
    using assms
  proof (induction "lock_depth st (ll (TP st))" arbitrary: st rl wl ll rule: less_induct)
    case less
    note K = less.prems and L = kinvD(3) [OF less.prems]
    note own = locksD(2) [OF L] and R = locksD(1) [OF L threadsD(2) [OF kinvD(2) [OF K]]]
    show ?case
    proof (cases "ll (TP st)")
      case Nil
      then have "release_all st = Some st"
        using R by (subst release_all.simps) (simp add: lock_rep_def)
      moreover have "l_owner st l \<noteq> Some (TP st)" for l using own [of l "TP st"] Nil by simp
      moreover have "kinv st (rl @ []) wl ll" using K by simp
      ultimately show ?thesis using Nil by fastforce
    next
      case (Cons l ls)
      have l: "lock_list st (TP st) = Some l" "l_owner st l = Some (TP st)" "l \<notin> set ls"
        using R own [of l "TP st"] Cons by (simp_all add: lock_rep_def)
      have pos: "0 < l_count st l" using locksD(5) [OF L l(2)] .
      obtain st1 xs wl1 ll1 where S: "lock_release l st = Some st1" "TP st1 = TP st" "thrtab st1 = thrtab st"
          "t_parent st1 = t_parent st" "kinv st1 (rl @ xs) wl1 ll1" "\<forall>d. wl1 (Cond d) = wl (Cond d)"
          "l_owner st1 = (if l_owner st l = Some (TP st) \<and> l_count st l = 1 then (l_owner st)(l := None) else l_owner st)"
          "l_owner st l = Some (TP st) \<longrightarrow>
            (if l_count st l = 1 then ll1 (TP st) = remove1 l (ll (TP st)) \<and> (\<forall>k. k \<noteq> l \<longrightarrow> l_count st1 k = l_count st k)
             else ll1 (TP st) = ll (TP st) \<and> l_count st1 = (l_count st)(l := l_count st l - 1))"
        by (rule kinv_release [OF K, of l])
      have "map (\<lambda>k. nat (l_count st1 k)) ls = map (\<lambda>k. nat (l_count st k)) ls"
        using S(8) [rule_format, OF l(2)] l(3) by (intro map_cong) (auto split: if_splits)
      then have rest: "lock_depth st1 ls = lock_depth st ls" by (simp only: lock_depth_def)
      have "lock_depth st1 (ll1 (TP st1)) < lock_depth st (ll (TP st))"
        using S(2) S(8) [rule_format, OF l(2)] pos rest Cons by (auto split: if_splits)
      from less.hyps [OF this S(5)] obtain st' ys wl' ll' where R': "release_all st1 = Some st'" "TP st' = TP st1"
          "thrtab st' = thrtab st1" "t_parent st' = t_parent st1" "kinv st' ((rl @ xs) @ ys) wl' ll'" "ll' (TP st1) = []"
          "\<forall>d. wl' (Cond d) = wl1 (Cond d)" "l_owner st' = (\<lambda>k. if l_owner st1 k = Some (TP st1) then None else l_owner st1 k)"
        by blast
      have "release_all st = Some st'"
        using l(1) S(1) R'(1) by (subst release_all.simps) simp
      moreover have "l_owner st' = (\<lambda>k. if l_owner st k = Some (TP st) then None else l_owner st k)"
        unfolding R'(8) S(2,7) using l(2) by auto
      ultimately show ?thesis
        using R'(2-7) S(2-4,6)
        by (intro exI [of _ st'] exI [of _ "xs @ ys"] exI [of _ wl'] exI [of _ ll'] conjI) simp_all
    qed
  qed
  then show thesis using that by blast
qed

lemma exit_notify:
  assumes S: "sched st rl wl"
  obtains st' ys wl' where "(case t_parent st t of None \<Rightarrow> Some st
        | Some p \<Rightarrow> condition_broadcast (ChildExit p) st) = Some st'"
      "TP st' = TP st" "frame st st'" "sched st' (rl @ ys) wl'"
      "t_state st' = (\<lambda>u. if u \<in> set ys then THREAD_READY else t_state st u)"
      "wait_cond st' = (\<lambda>u. if u \<in> set ys then None else wait_cond st u)"
      "\<forall>u \<in> set ys. thrtab st u \<and> t_state st u = THREAD_WAITING" "\<forall>d. wl' (Cond d) = wl (Cond d)"
proof (cases "t_parent st t")
  case None
  then show thesis using that [of st "[]" wl] S by (simp add: frame_def)
next
  case (Some p)
  let ?c = "ChildExit p"
  obtain st' where B: "condition_broadcast ?c st = Some st'" "TP st' = TP st" "frame st st'"
      "sched st' (rl @ wl ?c) (wl(?c := []))"
      "t_state st' = (\<lambda>u. if u \<in> set (wl ?c) then THREAD_READY else t_state st u)"
      "wait_cond st' = (\<lambda>u. if u \<in> set (wl ?c) then None else wait_cond st u)"
    by (rule broadcast_ok [OF S])
  have "\<forall>u \<in> set (wl ?c). thrtab st u \<and> t_state st u = THREAD_WAITING"
    using schedD(3) [OF S] by blast
  with B Some show thesis
    using that [of st' "wl ?c" "wl(?c := [])"] by (simp del: fun_upd_apply add: fun_upd_other)
qed

lemma kinv_exit:
  assumes K: "kinv st rl wl ll" and ni: "TP st \<noteq> IDLE_TID"
  obtains st' where "thread_exit st = Some (Returned (), st')" "TP st = MAIN_TID"
  | st' xs wl' ll' where "thread_exit st = Some (Blocked, st')" "TP st \<noteq> MAIN_TID" "TP st' # tl (rl @ xs) = rl @ xs"
      "thrtab st' = thrtab st" "t_state st' (TP st) = THREAD_EXITED" "kinv st' (tl (rl @ xs)) wl' ll'"
      "\<forall>d. wl' (Cond d) = wl (Cond d)"
      "l_owner st' = (\<lambda>l. if l_owner st l = Some (TP st) then None else l_owner st l)"
proof -
  let ?me = "TP st"
  obtain st1 xs wl1 ll1 where R: "release_all st = Some st1" "TP st1 = ?me" "thrtab st1 = thrtab st"
      "t_parent st1 = t_parent st" "kinv st1 (rl @ xs) wl1 ll1" "ll1 ?me = []" "\<forall>d. wl1 (Cond d) = wl (Cond d)"
      "l_owner st1 = (\<lambda>l. if l_owner st l = Some ?me then None else l_owner st l)"
    by (rule kinv_release_all [OF K])
  note S = kinvD(1) [OF R(5)] and T = kinvD(2) [OF R(5)] and L = kinvD(3) [OF R(5)]
  show thesis
  proof (cases "?me = MAIN_TID")
    case True
    then show thesis using that(1) R(1,2) by (simp add: thread_exit_def)
  next
    case False
    define st2 where "st2 = set_state ?me THREAD_EXITED st1"
    have me: "thrtab st1 ?me" "t_state st1 ?me = THREAD_SELF" using threadsD(2,3) [OF T] R(2) by simp_all
    have eq: "TP st2 = ?me" "thrtab st2 = thrtab st1" "frame st1 st2" "wait_cond st2 = wait_cond st1"
        "t_state st2 = (t_state st1)(?me := THREAD_EXITED)" "t_parent st2 = t_parent st1"
      using R(2) by (simp_all add: st2_def frame_def)
    have "queues st2 (rl @ xs) wl1" using schedD(1) [OF S] by (simp add: st2_def)
    then have S2: "sched st2 (rl @ xs) wl1"
      using schedD(2,3) [OF S] me by (intro schedI) (auto simp: eq)
    obtain st3 ys wl3 where B: "(case t_parent st2 ?me of None \<Rightarrow> Some st2
          | Some p \<Rightarrow> condition_broadcast (ChildExit p) st2) = Some st3"
        "TP st3 = TP st2" "frame st2 st3" "sched st3 ((rl @ xs) @ ys) wl3"
        "t_state st3 = (\<lambda>t. if t \<in> set ys then THREAD_READY else t_state st2 t)"
        "wait_cond st3 = (\<lambda>t. if t \<in> set ys then None else wait_cond st2 t)"
        "\<forall>t \<in> set ys. thrtab st2 t \<and> t_state st2 t = THREAD_WAITING" "\<forall>d. wl3 (Cond d) = wl1 (Cond d)"
      by (rule exit_notify [OF S2, of ?me])
    let ?q = "(rl @ xs) @ ys"
    have w: "thrtab st1 t" "t_state st1 t = THREAD_WAITING" "t \<noteq> ?me" if "t \<in> set ys" for t
      using B(7) that eq by (auto split: if_splits)
    have notys: "?me \<notin> set ys" "IDLE_TID \<notin> set ys"
      using w threadsD(10) [OF T] by fastforce+
    have ne: "?q \<noteq> []" using idle_ready [OF R(5)] ni R(2) by auto
    have fr: "frame st1 st3" using frame_trans [OF eq(3) B(3)] .
    have st3: "t_state st3 ?me = THREAD_EXITED" "thrtab st3 = thrtab st1"
      using B(5) notys(1) eq fr by (simp_all add: frame_def)
    obtain st' where U: "running_thread_suspend st3 = Some st'" "TP st' = hd ?q" "frame st3 st'"
        "sched st' (tl ?q) wl3" "wait_cond st' = wait_cond st3"
        "t_state st' = (t_state st3)(?me := THREAD_EXITED, hd ?q := THREAD_SELF)"
      by (rule suspend_ok [OF B(4)]) (use B(2) eq(1) st3 me ne in auto)
    have "thrtab st3 (hd ?q) \<and> t_state st3 (hd ?q) = THREAD_READY"
      using schedD(2) [OF B(4), of "hd ?q"] hd_in_set [OF ne] by blast
    then have hq: "thrtab st1 (hd ?q)" "t_state st3 (hd ?q) = THREAD_READY"
      by (simp_all only: st3(2))
    have fr': "frame st1 st'" using frame_trans [OF fr U(3)] .
    have ts: "t_state st' t = (if t = hd ?q then THREAD_SELF else if t \<in> set ys then THREAD_READY
        else if t = ?me then THREAD_EXITED else t_state st1 t)" for t
      using U(6) B(5) eq(5) notys(1) by auto
    have wc: "wait_cond st' t = (if t \<in> set ys then None else wait_cond st1 t)" for t
      using U(5) B(6) eq(4) by simp
    have hne: "hd ?q \<noteq> ?me" using hq(2) st3(1) by auto
    have "threads st'"
    proof (rule threads_step [OF T fr'])
      show "thrtab st1 (TP st')" using hq(1) U(2) by (simp only:)
      show "t = TP st' \<longleftrightarrow> t_state st' t = THREAD_SELF" if "thrtab st1 t" for t
        unfolding ts U(2) using threadsD(1) [OF T that] R(2) by auto
      show "t_state st' MAIN_TID \<noteq> THREAD_EXITED"
        unfolding ts using False threadsD(9) [OF T] by auto
      show "t_state st' IDLE_TID = THREAD_SELF \<or> t_state st' IDLE_TID = THREAD_READY"
        unfolding ts using ni notys threadsD(10) [OF T] by auto
      show "t_state st' t \<noteq> THREAD_UNINITIALIZED" if "thrtab st1 t" for t
        unfolding ts using threadsD(11) [OF T that] by auto
      show "u = t" if "thrtab st1 t" "t_state st' t = THREAD_WAITING" "wait_cond st' t = Some (ChildExit u)" for t u
        using that(2,3) threadsD(12) [OF T that(1), of u] unfolding ts wc by (simp split: if_splits)
    qed
    moreover have "locks st' ll1"
    proof -
      have "l_owner st1 l \<noteq> Some ?me" for l using R(8) by simp
      then show ?thesis
        using L fr' ts unfolding locks_def frame_def by auto
    qed
    ultimately have "kinv st' (tl ?q) wl3 ll1" using U(4) by (simp add: kinv_def)
    moreover have "thread_exit st = Some (Blocked, st')"
      using R(1,2) False U(1) B(1) [unfolded eq(6), unfolded st2_def] by (simp add: thread_exit_def)
    moreover have "TP st' # tl ?q = ?q" using U(2) ne by simp
    moreover have "t_state st' ?me = THREAD_EXITED" using ts hne notys(1) by simp
    ultimately show thesis
      using that(2) [of st' "xs @ ys" wl3 ll1] False fr' R(3,7,8) B(8) by (simp add: frame_def)
  qed
qed

end
