(* ===== verification/Sched_Steps.thy ===== *)
theory Sched_Steps
  imports Locks
begin

text \<open>
  Executions of the thread manager. A step is one call of an operation of thread.c by the running
  thread, or a broadcast by an interrupt handler on top of it; a call that gives up the processor
  ends with the switch. The idle thread only yields. The theorems say that in every state reached
  from the static initial state no assertion fails and every loop ends, that one thread runs, that
  a lock has one owner, and that a ready thread runs after as many switches as there are threads
  before it.
\<close>

subsection \<open>Steps\<close>

datatype tcall = Yield | Wait nat | Broadcast nat | Spawn | Exit | Join int | Acquire nat | Release nat

text \<open>The flag says whether the call has switched to another thread.\<close>

definition blocked :: "'a outcome \<times> kthr \<Rightarrow> bool \<times> kthr" where
  "blocked r = (case r of (Blocked, st) \<Rightarrow> (True, st) | (Returned _, st) \<Rightarrow> (False, st))"

fun tcall_exec :: "tcall \<Rightarrow> kthr \<Rightarrow> (bool \<times> kthr) option" where
  "tcall_exec Yield st = map_option (Pair True) (thread_yield st)"
| "tcall_exec (Wait c) st = map_option (Pair True) (condition_wait (Cond c) st)"
| "tcall_exec (Broadcast c) st = map_option (Pair False) (condition_broadcast (Cond c) st)"
| "tcall_exec Spawn st = map_option (\<lambda>(r, st). (False, st)) (thread_spawn st)"
| "tcall_exec Exit st = map_option blocked (thread_exit st)"
| "tcall_exec (Join tid) st = map_option blocked (thread_join tid st)"
| "tcall_exec (Acquire l) st = map_option blocked (lock_acquire l st)"
| "tcall_exec (Release l) st = map_option (Pair False) (lock_release l st)"

text \<open>
  The idle thread yields or takes interrupts. After the main thread exits there is no further
  step.
\<close>

fun may_call :: "tcall \<Rightarrow> kthr \<Rightarrow> bool" where
  "may_call Yield st = True"
| "may_call (Broadcast c) st = True"
| "may_call Exit st \<longleftrightarrow> TP st \<noteq> IDLE_TID \<and> TP st \<noteq> MAIN_TID"
| "may_call _ st \<longleftrightarrow> TP st \<noteq> IDLE_TID"

inductive reachable :: "kthr \<Rightarrow> bool" where
  boot: "reachable thread_boot"
| call: "reachable st \<Longrightarrow> may_call c st \<Longrightarrow> tcall_exec c st = Some (sw, st') \<Longrightarrow> reachable st'"

text \<open>A run and the number of switches in it.\<close>

inductive run :: "kthr \<Rightarrow> nat \<Rightarrow> kthr \<Rightarrow> bool" where
  run_0: "run st 0 st"
| run_step: "may_call c st \<Longrightarrow> tcall_exec c st = Some (sw, st1) \<Longrightarrow> run st1 n st' \<Longrightarrow>
    run st (if sw then Suc n else n) st'"

subsection \<open>Every step keeps the invariant\<close>

lemma kinv_boot: "kinv thread_boot [IDLE_TID] (\<lambda>_. []) (\<lambda>_. [])"
  by (auto simp: kinv_def sched_def queues_def tl_rep_def threads_def locks_def lock_rep_def thread_boot_def
      tlclear_def MAIN_TID_def IDLE_TID_def NTHR_def split: if_splits)

text \<open>
  What a step does to the ready list: a call that keeps the processor appends to it, one that
  gives it up appends to it and then takes its first thread.
\<close>

lemma step_ok:
  assumes K: "kinv st rl wl ll" and c: "may_call c st"
  obtains sw st' xs rl' wl' ll' where "tcall_exec c st = Some (sw, st')" "kinv st' rl' wl' ll'"
    "if sw then TP st' # rl' = rl @ xs else TP st' = TP st \<and> rl' = rl @ xs"
    "\<forall>d. c \<noteq> Broadcast d \<longrightarrow> set (wl (Cond d)) \<subseteq> set (wl' (Cond d))"
    "\<forall>l h. l_owner st l = Some h \<and> h \<noteq> TP st \<longrightarrow> l_owner st' l = Some h"
proof (cases c)
  case Yield
  obtain st' where "thread_yield st = Some st'" "TP st' = hd (rl @ [TP st])" "frame st st'"
      "kinv st' (tl (rl @ [TP st])) wl ll"
    by (rule kinv_yield [OF K])
  then show thesis
    using that [of True st' "tl (rl @ [TP st])" wl ll "[TP st]"] Yield by (simp add: frame_def)
next
  case (Wait d)
  obtain st' where "condition_wait (Cond d) st = Some st'" "TP st' = hd rl" "frame st st'" "rl \<noteq> []"
      "kinv st' (tl rl) (wl(Cond d := wl (Cond d) @ [TP st])) ll"
    by (rule kinv_wait [OF K, of "Cond d"]) (use c Wait in auto)
  then show thesis
    by (intro that [of True st' "tl rl" "wl(Cond d := wl (Cond d) @ [TP st])" ll "[]"])
      (simp_all add: Wait frame_def subset_iff)
next
  case (Broadcast d)
  obtain st' where "condition_broadcast (Cond d) st = Some st'" "TP st' = TP st" "frame st st'"
      "kinv st' (rl @ wl (Cond d)) (wl(Cond d := [])) ll"
    by (rule kinv_broadcast [OF K, of "Cond d"])
  then show thesis
    using that [of False st' "rl @ wl (Cond d)" "wl(Cond d := [])" ll "wl (Cond d)"] Broadcast
    by (simp add: frame_def)
next
  case Spawn
  then have ni: "TP st \<noteq> IDLE_TID" using c by simp
  show thesis
  proof (rule kinv_spawn [OF K ni])
    assume "thread_spawn st = Some (- EMTHR, st)"
    then show thesis using that [of False st rl wl ll "[]"] Spawn K by simp
  next
    fix child st'
    assume "thread_spawn st = Some (int child, st')" "TP st' = TP st" "kinv st' (rl @ [child]) wl ll"
      "l_owner st' = l_owner st"
    then show thesis using that [of False st' "rl @ [child]" wl ll "[child]"] Spawn by simp
  qed
next
  case Exit
  show thesis
    by (rule kinv_exit [OF K])
      (use c Exit that [of True] in \<open>auto simp: blocked_def\<close>)
next
  case (Join tid)
  show thesis
    by (rule kinv_join [OF K, of tid])
      (use c Join K that [of False _ rl wl ll "[]"] that [of True _ "tl rl" _ ll "[]"] in \<open>auto simp: blocked_def\<close>)
next
  case (Acquire l)
  show thesis
    by (rule kinv_acquire [OF K, of l])
      (use c Acquire that [of False _ rl wl _ "[]"] that [of True _ "tl rl" _ ll "[]"] in \<open>auto simp: blocked_def\<close>)
next
  case (Release l)
  show thesis
    by (rule kinv_release [OF K, of l]) (use Release that [of False] in auto)
qed

lemma reachable_kinv: "reachable st \<Longrightarrow> \<exists>rl wl ll. kinv st rl wl ll"
proof (induction rule: reachable.induct)
  case boot
  show ?case using kinv_boot by blast
next
  case (call st c sw st')
  then obtain rl wl ll where "kinv st rl wl ll" by blast
  from step_ok [OF this call.hyps(2)] call.hyps(3) show ?case
    by (metis option.inject prod.inject)
qed

subsection \<open>The queues as lists\<close>

fun walk :: "nat \<Rightarrow> (nat \<Rightarrow> nat option) \<Rightarrow> nat option \<Rightarrow> nat list" where
  "walk (Suc n) nx (Some t) = t # walk n nx (nx t)"
| "walk n nx t = []"

definition ready_queue :: "kthr \<Rightarrow> nat list" where
  "ready_queue st = walk NTHR (list_next st) (head (ready_list st))"

definition waiters :: "kthr \<Rightarrow> condition \<Rightarrow> nat list" where
  "waiters st c = walk NTHR (list_next st) (head (wait_list st c))"

lemma walk_linked:
  "linked nx xs \<Longrightarrow> length xs \<le> n \<Longrightarrow> walk n nx (if xs = [] then None else Some (hd xs)) = xs"
proof (induction xs arbitrary: n)
  case Nil
  then show ?case by (cases n) simp_all
next
  case (Cons x xs)
  obtain m where n: "n = Suc m" "length xs \<le> m"
    using Cons.prems(2) by (cases n) simp_all
  have "nx x = (if xs = [] then None else Some (hd xs))" "linked nx xs"
    using linked_tail [OF Cons.prems(1)] by simp_all
  then show ?case using Cons.IH [of m] n by simp
qed

lemma length_threads:
  assumes "kinv st rl wl ll" and "distinct xs" and "\<And>t. t \<in> set xs \<Longrightarrow> thrtab st t"
  shows "length xs \<le> NTHR"
proof -
  have "set xs \<subseteq> {..<NTHR}"
    using assms(3) threadsD(6) [OF kinvD(2) [OF assms(1)]] by auto
  then have "card (set xs) \<le> card {..<NTHR}"
    by (intro card_mono) auto
  then show ?thesis using distinct_card [OF assms(2)] by simp
qed

lemma queue_eq:
  assumes "kinv st rl wl ll"
  shows "ready_queue st = rl" "waiters st c = wl c"
proof -
  note S = kinvD(1) [OF assms]
  note Q = queuesD(1) [OF schedD(1) [OF S]] queuesD(2) [OF schedD(1) [OF S], of c]
  have "length rl \<le> NTHR" "length (wl c) \<le> NTHR"
    using length_threads [OF assms] Q schedD(2,3) [OF S] by (auto simp: tl_rep_def)
  then show "ready_queue st = rl" "waiters st c = wl c"
    using walk_linked [of "list_next st"] Q by (auto simp: ready_queue_def waiters_def tl_rep_def)
qed

text \<open>C10: in every reachable state every call a thread may make returns: no assertion of
  thread.c fails, and the loops of \<open>condition_broadcast\<close>, of \<open>lock_release\<close> along the held locks
  and of \<open>thread_exit\<close> end.\<close>

theorem thread_calls_succeed:
  assumes "reachable st" and "may_call c st"
  shows "\<exists>r. tcall_exec c st = Some r"
proof -
  obtain rl wl ll where K: "kinv st rl wl ll" using reachable_kinv [OF assms(1)] by blast
  show ?thesis by (rule step_ok [OF K assms(2)]) blast
qed

theorem thread_calls_succeed_witness:
  "\<exists>r. tcall_exec (Wait 3) thread_boot = Some r"
  by (rule thread_calls_succeed [OF boot]) (simp add: thread_boot_def MAIN_TID_def IDLE_TID_def NTHR_def)



lemma run_ready:
  assumes "run st n st'" and "kinv st rl wl ll" and "i < length rl" and "i < n"
  shows "\<exists>m st1. m \<le> Suc i \<and> run st m st1 \<and> TP st1 = rl ! i \<and> run st1 (n - m) st'"
  using assms
proof (induction arbitrary: rl wl ll i rule: run.induct)
  case (run_step c st sw st1 n st')
  obtain xs rl' wl' ll' where S: "kinv st1 rl' wl' ll'"
      "if sw then TP st1 # rl' = rl @ xs else TP st1 = TP st \<and> rl' = rl @ xs"
    by (rule step_ok [OF run_step.prems(1) run_step.hyps(1)]) (use run_step.hyps(2) in auto)
  show ?case
  proof (cases sw)
    case False
    have "i < length rl'" "i < n" using S(2) run_step.prems False by simp_all
    from run_step.IH [OF S(1) this] obtain m st2 where m: "m \<le> Suc i" "run st1 m st2" "TP st2 = rl' ! i"
        "run st2 (n - m) st'" by blast
    have "run st m st2" using run.run_step [OF run_step.hyps(1,2) m(2)] False by simp
    moreover have "rl' ! i = rl ! i" using S(2) run_step.prems(2) False by (simp add: nth_append)
    ultimately show ?thesis using m False by auto
  next
    case True
    have e: "TP st1 # rl' = rl @ xs" using S(2) True by simp
    have one: "run st (Suc k) st2" if "run st1 k st2" for k st2
      using run.run_step [OF run_step.hyps(1,2) that] True by simp
    show ?thesis
    proof (cases i)
      case 0
      have "TP st1 = rl ! 0" using e 0 run_step.prems(2) by (metis nth_Cons_0 nth_append)
      then show ?thesis
        using one [OF run_0] 0 True run_step.hyps(3) by (intro exI [of _ 1] exI [of _ st1]) simp
    next
      case (Suc j)
      have "rl ! i = rl' ! j" using e Suc run_step.prems(2) by (metis nth_Cons_Suc nth_append)
      moreover have "length rl' + 1 = length rl + length xs" using arg_cong [OF e, of length] by simp
      ultimately have "j < length rl'" "j < n" "rl ! i = rl' ! j"
        using Suc run_step.prems True by auto
      from run_step.IH [OF S(1) this(1,2)] this(3) one True Suc show ?thesis
        by (metis Suc_le_mono diff_Suc_Suc)
    qed
  qed
qed simp

text \<open>C12: no starvation. A thread at position \<open>i\<close> of the ready list runs after at most \<open>i + 1\<close>
  switches, whatever calls the threads before it make, in every run that has more than \<open>i\<close>
  switches.\<close>

theorem ready_thread_runs:
  assumes "reachable st" and "run st n st'" and "i < length (ready_queue st)" and "i < n"
  shows "\<exists>m st1. m \<le> Suc i \<and> run st m st1 \<and> TP st1 = ready_queue st ! i \<and> run st1 (n - m) st'"
proof -
  obtain rl wl ll where K: "kinv st rl wl ll" using reachable_kinv [OF assms(1)] by blast
  show ?thesis using run_ready [OF assms(2) K] assms(3,4) queue_eq(1) [OF K] by simp
qed

lemma boot_yield:
  "\<exists>st'. thread_yield thread_boot = Some st' \<and> TP st' = IDLE_TID"
proof -
  obtain st' where "thread_yield thread_boot = Some st'" "TP st' = hd ([IDLE_TID] @ [TP thread_boot])"
    by (rule kinv_yield [OF kinv_boot])
  then show ?thesis by simp
qed

theorem ready_thread_runs_witness:
  "\<exists>m st1. m \<le> 1 \<and> run thread_boot m st1 \<and> TP st1 = IDLE_TID"
proof -
  obtain st' where y: "thread_yield thread_boot = Some st'" using boot_yield by blast
  have r: "run thread_boot (Suc 0) st'"
    using run_step [of Yield thread_boot True st' 0 st'] y run_0 by simp
  have q: "ready_queue thread_boot = [IDLE_TID]" using queue_eq(1) [OF kinv_boot] .
  show ?thesis using ready_thread_runs [OF boot r, of 0] q by auto
qed

text \<open>\<open>condition_broadcast\<close> moves all waiters of the condition to the end of the ready list, in
  the order in which they began to wait, and leaves the waiters of every other condition and the
  running thread alone.\<close>

theorem broadcast_wakes_in_order:
  assumes "reachable st"
  shows "\<exists>st'. condition_broadcast c st = Some st' \<and> TP st' = TP st \<and>
    ready_queue st' = ready_queue st @ waiters st c \<and> waiters st' c = [] \<and>
    (d \<noteq> c \<longrightarrow> waiters st' d = waiters st d)"
proof -
  obtain rl wl ll where K: "kinv st rl wl ll" using reachable_kinv [OF assms] by blast
  obtain st' where st': "condition_broadcast c st = Some st'" "TP st' = TP st"
      "kinv st' (rl @ wl c) (wl(c := [])) ll"
    by (rule kinv_broadcast [OF K, of c])
  then show ?thesis by (simp add: queue_eq [OF K] queue_eq [OF st'(3)])
qed

theorem broadcast_wakes_in_order_witness:
  "\<exists>st'. condition_broadcast (Cond 0) thread_boot = Some st' \<and> ready_queue st' = [IDLE_TID]"
  using broadcast_wakes_in_order [OF boot, of "Cond 0"] queue_eq [OF kinv_boot] by auto

text \<open>C13: mutual exclusion. \<open>lock_acquire\<close> returns only when the lock was free or already held by
  the caller, and then the caller owns it and every other owner is as before; while another thread
  holds the lock the caller is put at the end of the lock's wait list and the processor goes to
  another thread. \<open>lock_release\<close> by a thread that does not hold the lock changes nothing, and the
  release that ends the last nested acquire frees the lock and makes all its waiters ready.\<close>

theorem lock_mutual_exclusion:
  assumes "reachable st" and "TP st \<noteq> IDLE_TID"
  shows "(case l_owner st l of
      None \<Rightarrow> (\<exists>st'. lock_acquire l st = Some (Returned (), st') \<and> l_owner st' = (l_owner st)(l \<mapsto> TP st))
    | Some h \<Rightarrow>
        if h = TP st then (\<exists>st'. lock_acquire l st = Some (Returned (), st') \<and> l_owner st' = l_owner st)
        else (\<exists>st'. lock_acquire l st = Some (Blocked, st') \<and> l_owner st' = l_owner st \<and> TP st' \<noteq> TP st \<and>
                waiters st' (LockCv l) = waiters st (LockCv l) @ [TP st])) \<and>
    (if l_owner st l \<noteq> Some (TP st) then lock_release l st = Some st
     else \<exists>st'. lock_release l st = Some st' \<and>
       (if l_count st l = 1
        then l_owner st' = (l_owner st)(l := None) \<and> ready_queue st' = ready_queue st @ waiters st (LockCv l)
        else l_owner st' = l_owner st))"
proof -
  obtain rl wl ll where K: "kinv st rl wl ll" using reachable_kinv [OF assms(1)] by blast
  note Q = queue_eq [OF K]
  have "TP st \<notin> set rl"
    using schedD(2) [OF kinvD(1) [OF K]] threadsD(3) [OF kinvD(2) [OF K]] by simp
  then have ne: "rl \<noteq> [] \<Longrightarrow> hd rl \<noteq> TP st" using hd_in_set by metis
  have "case l_owner st l of
      None \<Rightarrow> (\<exists>st'. lock_acquire l st = Some (Returned (), st') \<and> l_owner st' = (l_owner st)(l \<mapsto> TP st))
    | Some h \<Rightarrow>
        if h = TP st then (\<exists>st'. lock_acquire l st = Some (Returned (), st') \<and> l_owner st' = l_owner st)
        else (\<exists>st'. lock_acquire l st = Some (Blocked, st') \<and> l_owner st' = l_owner st \<and> TP st' \<noteq> TP st \<and>
                waiters st' (LockCv l) = waiters st (LockCv l) @ [TP st])"
    by (rule kinv_acquire [OF K assms(2), of l]) (use ne in \<open>auto simp: Q queue_eq fun_upd_idem split: option.splits\<close>)
  moreover have "\<exists>st'. lock_release l st = Some st' \<and>
       (if l_count st l = 1
        then l_owner st' = (l_owner st)(l := None) \<and> ready_queue st' = ready_queue st @ waiters st (LockCv l)
        else l_owner st' = l_owner st)" if "l_owner st l = Some (TP st)"
  proof (cases "l_count st l = 1")
    case True
    show ?thesis
      by (rule kinv_unlock [OF K that True]) (auto simp: True Q queue_eq)
  next
    case False
    show ?thesis
      by (rule kinv_release [OF K, of l]) (use False that in auto)
  qed
  moreover have "lock_release l st = Some st" if "l_owner st l \<noteq> Some (TP st)"
    using that by (simp add: lock_release_def)
  ultimately show ?thesis by simp
qed

theorem lock_mutual_exclusion_witness:
  "\<exists>st'. lock_acquire 5 thread_boot = Some (Returned (), st') \<and> l_owner st' 5 = Some MAIN_TID"
  using lock_mutual_exclusion [OF boot, of 5]
  by (auto simp: thread_boot_def MAIN_TID_def IDLE_TID_def NTHR_def)

text \<open>\<open>thread_exit\<close> of a thread other than the main one releases every lock the thread holds and
  no other, marks it exited, and gives the processor to another thread; it does not return to the
  caller.\<close>

theorem exit_releases_locks:
  assumes "reachable st" and "TP st \<noteq> IDLE_TID" and "TP st \<noteq> MAIN_TID"
  shows "\<exists>st'. thread_exit st = Some (Blocked, st') \<and> t_state st' (TP st) = THREAD_EXITED \<and>
    TP st' \<noteq> TP st \<and> (\<forall>l. l_owner st' l = (if l_owner st l = Some (TP st) then None else l_owner st l))"
proof -
  obtain rl wl ll where K: "kinv st rl wl ll" using reachable_kinv [OF assms(1)] by blast
  show ?thesis
  proof (rule kinv_exit [OF K assms(2)])
    fix st' xs wl' ll'
    assume E: "thread_exit st = Some (Blocked, st')" "t_state st' (TP st) = THREAD_EXITED"
      "kinv st' (tl (rl @ xs)) wl' ll'"
      "l_owner st' = (\<lambda>l. if l_owner st l = Some (TP st) then None else l_owner st l)"
    have "TP st' \<noteq> TP st" using E(2) threadsD(3) [OF kinvD(2) [OF E(3)]] by auto
    with E show ?thesis by simp
  qed (use assms(3) in simp)
qed

text \<open>A state in which a spawned thread runs: the main thread spawns it and yields, and the idle
  thread yields.\<close>

lemma spawned_runs:
  "\<exists>st. reachable st \<and> TP st = 1"
proof -
  have T: "TP thread_boot = 0" by (simp add: thread_boot_def MAIN_TID_def)
  have s1: "fst (the (create_thread thread_boot)) = 1"
    by (simp add: create_thread_def thread_boot_def NTHR_def MAIN_TID_def IDLE_TID_def upt_conv_Cons)
  have idle: "IDLE_TID \<noteq> 0" by (simp add: IDLE_TID_def NTHR_def)
  obtain st1 where 1: "thread_spawn thread_boot = Some (1, st1)" "TP st1 = 0"
      "kinv st1 ([IDLE_TID] @ [1]) (\<lambda>_. []) (\<lambda>_. [])"
  proof (rule kinv_spawn [OF kinv_boot])
    show "TP thread_boot \<noteq> IDLE_TID" using T idle by simp
    assume "\<forall>t. 0 < t \<and> t < NTHR \<longrightarrow> thrtab thread_boot t"
    then have "thrtab thread_boot 1" by (simp add: NTHR_def)
    then show thesis by (simp add: thread_boot_def MAIN_TID_def IDLE_TID_def NTHR_def)
  next
    fix child st'
    assume S: "thread_spawn thread_boot = Some (int child, st')" "TP st' = TP thread_boot"
      "kinv st' ([IDLE_TID] @ [child]) (\<lambda>_. []) (\<lambda>_. [])"
    have "child = 1" using S(1) s1 by (auto simp: thread_spawn_def EMTHR_def split: option.splits prod.splits bind_splits)
    then show thesis using that S T by simp
  qed
  obtain st2 where 2: "thread_yield st1 = Some st2" "TP st2 = IDLE_TID" "kinv st2 [1, 0] (\<lambda>_. []) (\<lambda>_. [])"
    by (rule kinv_yield [OF 1(3)]) (simp add: 1)
  obtain st3 where 3: "thread_yield st2 = Some st3" "TP st3 = 1"
    by (rule kinv_yield [OF 2(3)]) simp
  have "reachable st1" using reachable.call [OF boot, of Spawn False st1] 1 T idle by simp
  then have "reachable st2" using reachable.call [of st1 Yield True st2] 2 by simp
  then have "reachable st3" using reachable.call [of st2 Yield True st3] 3 by simp
  with 3 show ?thesis by blast
qed

theorem exit_releases_locks_witness:
  "\<exists>st st'. reachable st \<and> TP st = 1 \<and> thread_exit st = Some (Blocked, st') \<and> t_state st' 1 = THREAD_EXITED"
proof -
  obtain st where st: "reachable st" "TP st = 1" using spawned_runs by blast
  show ?thesis
    using exit_releases_locks [OF st(1)] st by (auto simp: MAIN_TID_def IDLE_TID_def NTHR_def)
qed

text \<open>C17: \<open>thread_join\<close> reaps a matching child that has exited and frees its slot, returns
  \<open>-EINVAL\<close> exactly when the caller has no matching child, and otherwise waits for a child to
  exit.\<close>

theorem join_reaps_child:
  assumes "reachable st" and "TP st \<noteq> IDLE_TID"
  shows "case thread_join tid st of
      Some (Returned r, st') \<Rightarrow>
        if r = - EINVAL then st' = st \<and> (\<nexists>i. child_match st tid i)
        else child_match st tid (nat r) \<and> t_state st (nat r) = THREAD_EXITED \<and>
          thrtab st' = (thrtab st)(nat r := False)
    | Some (Blocked, st') \<Rightarrow>
        (\<exists>i. child_match st tid i) \<and> (\<forall>i. child_match st tid i \<longrightarrow> t_state st i \<noteq> THREAD_EXITED) \<and>
        TP st \<in> set (waiters st' (ChildExit (TP st)))
    | None \<Rightarrow> False"
proof -
  obtain rl wl ll where K: "kinv st rl wl ll" using reachable_kinv [OF assms(1)] by blast
  note T = kinvD(2) [OF K]
  have range: "0 < i \<and> i < NTHR \<and> child_match st tid i \<longleftrightarrow> child_match st tid i" for i
    using threadsD(6) [OF T, of i] threadsD(13) [OF T] by (cases "i = 0") (auto simp: child_match_def MAIN_TID_def)
  show ?thesis
    by (rule kinv_join [OF K assms(2), of tid, unfolded range]) (auto simp: queue_eq EINVAL_def)
qed

theorem join_reaps_child_witness:
  "thread_join 5 thread_boot = Some (Returned (- EINVAL), thread_boot)"
proof -
  have n: "\<not> child_match thread_boot 5 i" for i
    by (auto simp: child_match_def thread_boot_def MAIN_TID_def IDLE_TID_def NTHR_def)
  have "TP thread_boot \<noteq> IDLE_TID"
    by (simp add: thread_boot_def MAIN_TID_def IDLE_TID_def NTHR_def)
  from join_reaps_child [OF boot this, of 5] n show ?thesis
    by (auto split: option.splits prod.splits outcome.splits if_splits)
qed

text \<open>C18: the idle thread counts as a child of the main thread, so \<open>thread_join(0)\<close> of a main
  thread that has no other child waits, and never returns \<open>-EINVAL\<close>, as thread.h says it does.\<close>

theorem join_any_waits_for_idle:
  assumes "reachable st" and "TP st = MAIN_TID"
    and "\<forall>i. thrtab st i \<and> t_parent st i = Some MAIN_TID \<longrightarrow> i = IDLE_TID"
  shows "\<exists>st'. thread_join 0 st = Some (Blocked, st') \<and> TP st' \<noteq> MAIN_TID"
proof -
  obtain rl wl ll where K: "kinv st rl wl ll" using reachable_kinv [OF assms(1)] by blast
  note T = kinvD(2) [OF K]
  have ni: "TP st \<noteq> IDLE_TID" using assms(2) by (simp add: MAIN_TID_def IDLE_TID_def NTHR_def)
  have idle: "0 < IDLE_TID \<and> IDLE_TID < NTHR \<and> child_match st 0 IDLE_TID"
    using threadsD(5,8) [OF T] assms(2) by (simp add: child_match_def MAIN_TID_def IDLE_TID_def NTHR_def)
  have only: "child_match st 0 i \<Longrightarrow> t_state st i \<noteq> THREAD_EXITED" for i
    using assms(2,3) threadsD(10) [OF T] by (auto simp: child_match_def)
  show ?thesis
  proof (rule kinv_join [OF K ni, of 0])
    fix i st'
    assume J: "thread_join 0 st = Some (Blocked, st')" "TP st' = hd rl" "rl \<noteq> []"
    have "hd rl \<noteq> TP st"
      using J(3) schedD(2) [OF kinvD(1) [OF K], of "hd rl"] threadsD(3) [OF T] by auto
    with J assms(2) show ?thesis by simp
  qed (use idle only in blast)+
qed

theorem join_any_waits_for_idle_witness:
  "\<exists>st'. thread_join 0 thread_boot = Some (Blocked, st') \<and> TP st' \<noteq> MAIN_TID"
  by (rule join_any_waits_for_idle [OF boot]) (auto simp: thread_boot_def MAIN_TID_def)

subsection \<open>For the drivers: a free lock, and a broadcast\<close>

lemma acquire_free:
  assumes "reachable k" and "TP k \<noteq> IDLE_TID" and "l_owner k l = None"
  obtains k' where "lock_acquire l k = Some (Returned (), k')" "reachable k'" "TP k' = TP k"
    "l_owner k' = (l_owner k)(l \<mapsto> TP k)" "l_count k' l = 1"
proof -
  obtain k' where k': "lock_acquire l k = Some (Returned (), k')" "TP k' = TP k"
      "l_owner k' = (l_owner k)(l \<mapsto> TP k)" "l_count k' l = 1"
    using assms(3) by (simp add: lock_acquire_def Let_def)
  have "reachable k'"
    using reachable.call [OF assms(1), of "Acquire l" False k'] k'(1) assms(2) by (simp add: blocked_def)
  with k' show thesis using that by blast
qed

lemma release_held:
  assumes "reachable k" and "TP k \<noteq> IDLE_TID" and "l_owner k l = Some (TP k)" and "l_count k l = 1"
  obtains k' where "lock_release l k = Some k'" "reachable k'" "TP k' = TP k"
    "l_owner k' = (l_owner k)(l := None)"
proof -
  obtain rl wl ll where K: "kinv k rl wl ll" using reachable_kinv [OF assms(1)] by blast
  obtain k' where k': "lock_release l k = Some k'" "TP k' = TP k" "l_owner k' = (l_owner k)(l := None)"
    using kinv_unlock [OF K assms(3,4)] by blast
  have "reachable k'"
    using reachable.call [OF assms(1), of "Release l" False k'] k'(1) assms(2) by simp
  with k' show thesis using that by blast
qed

lemma broadcast_frame:
  assumes "reachable k"
  obtains k' where "condition_broadcast (Cond c) k = Some k'" "reachable k'" "TP k' = TP k"
    "l_owner k' = l_owner k" "l_count k' = l_count k"
proof -
  obtain rl wl ll where K: "kinv k rl wl ll" using reachable_kinv [OF assms(1)] by blast
  obtain k' where k': "condition_broadcast (Cond c) k = Some k'" "TP k' = TP k" "frame k k'"
    using kinv_broadcast [OF K] by blast
  have "reachable k'"
    using reachable.call [OF assms(1), of "Broadcast c" False k'] k'(1) by simp
  with k' show thesis using that by (simp add: frame_def)
qed

end
