(* ===== verification/Timer.thy ===== *)
theory Timer
  imports Sched_Steps
begin

text \<open>
  Alarms of kernel/timer.c. An alarm is named by a number, which is also the number of its
  condition variable; the list of sleeping alarms is linked through the alarms. Times are 64-bit
  counts. The time \<open>rdtime()\<close> reads is an argument of the functions that read it, and \<open>stcmp\<close> is
  the compare register that \<open>set_stcmp\<close> writes.
\<close>

definition UINT64_MAX :: nat where "UINT64_MAX = 18446744073709551615"
definition TIMER_FREQ :: nat where "TIMER_FREQ = 10000000"

record ktimer =
  sleep_list :: "nat option"
  al_next :: "nat \<Rightarrow> nat option"
  al_twake :: "nat \<Rightarrow> nat"
  stcmp :: nat

definition timer_init :: "ktimer \<Rightarrow> ktimer" where
  "timer_init t = t\<lparr>stcmp := UINT64_MAX\<rparr>"

definition alarm_init :: "nat \<Rightarrow> nat \<Rightarrow> ktimer \<times> kthr \<Rightarrow> ktimer \<times> kthr" where
  "alarm_init now al tk =
     (case tk of (t, k) \<Rightarrow>
       (t\<lparr>al_next := (al_next t)(al := None), al_twake := (al_twake t)(al := now)\<rparr>,
        condition_init (Cond al) k))"

text \<open>
  The walk of \<open>alarm_sleep\<close>: \<open>prev\<close> is the alarm whose \<open>next\<close> field \<open>ins\<close> points to, none for the
  head of the list, and \<open>cur\<close> is \<open>*ins\<close>.
\<close>

partial_function (option) sleep_ins ::
  "(nat \<Rightarrow> nat option) \<Rightarrow> (nat \<Rightarrow> nat) \<Rightarrow> nat \<Rightarrow> nat option \<Rightarrow> nat option \<Rightarrow> (nat option \<times> nat option) option"
where
  "sleep_ins nx tw w prev cur =
     (if cur \<noteq> None \<and> tw (the cur) \<le> w then sleep_ins nx tw w cur (nx (the cur)) else Some (prev, cur))"

definition sleep_insert :: "nat \<Rightarrow> ktimer \<Rightarrow> ktimer option" where
  "sleep_insert al t =
     do {
       (prev, cur) \<leftarrow> sleep_ins (al_next t) (al_twake t) (al_twake t al) None (sleep_list t);
       let t = t\<lparr>al_next := (al_next t)(al := cur)\<rparr>;
       let t = (case prev of None \<Rightarrow> t\<lparr>sleep_list := Some al\<rparr>
                | Some p \<Rightarrow> t\<lparr>al_next := (al_next t)(p := Some al)\<rparr>);
       Some (if sleep_list t = Some al then t\<lparr>stcmp := al_twake t al\<rparr> else t)
     }"

definition alarm_sleep :: "nat \<Rightarrow> nat \<Rightarrow> nat \<Rightarrow> ktimer \<times> kthr \<Rightarrow> (unit outcome \<times> ktimer \<times> kthr) option" where
  "alarm_sleep now al tcnt tk =
     (case tk of (t, k) \<Rightarrow>
       let t = (if UINT64_MAX - al_twake t al < tcnt then t\<lparr>al_twake := (al_twake t)(al := UINT64_MAX)\<rparr>
                else t\<lparr>al_twake := (al_twake t)(al := al_twake t al + tcnt)\<rparr>)
       in if al_twake t al < now then Some (Returned (), t, k)
          else do {
            t \<leftarrow> sleep_insert al t;
            k \<leftarrow> condition_wait (Cond al) k;
            Some (Blocked, t, k)
          })"

definition alarm_reset :: "nat \<Rightarrow> nat \<Rightarrow> ktimer \<Rightarrow> ktimer" where
  "alarm_reset now al t = t\<lparr>al_twake := (al_twake t)(al := now)\<rparr>"

definition alarm_sleep_sec :: "nat \<Rightarrow> nat \<Rightarrow> nat \<Rightarrow> ktimer \<times> kthr \<Rightarrow> (unit outcome \<times> ktimer \<times> kthr) option" where
  "alarm_sleep_sec now al sec tk = alarm_sleep now al (u64 (sec * TIMER_FREQ)) tk"

definition alarm_sleep_ms :: "nat \<Rightarrow> nat \<Rightarrow> nat \<Rightarrow> ktimer \<times> kthr \<Rightarrow> (unit outcome \<times> ktimer \<times> kthr) option" where
  "alarm_sleep_ms now al ms tk = alarm_sleep now al (u64 (ms * (TIMER_FREQ div 1000))) tk"

definition alarm_sleep_us :: "nat \<Rightarrow> nat \<Rightarrow> nat \<Rightarrow> ktimer \<times> kthr \<Rightarrow> (unit outcome \<times> ktimer \<times> kthr) option" where
  "alarm_sleep_us now al us tk = alarm_sleep now al (u64 (us * (TIMER_FREQ div 1000 div 1000))) tk"

text \<open>\<open>al\<close> is the alarm on the caller's stack; \<open>now0\<close> and \<open>now\<close> are the two readings of the time.\<close>

definition sleep_us :: "nat \<Rightarrow> nat \<Rightarrow> nat \<Rightarrow> nat \<Rightarrow> ktimer \<times> kthr \<Rightarrow> (unit outcome \<times> ktimer \<times> kthr) option" where
  "sleep_us now0 now al us tk = alarm_sleep_us now al us (alarm_init now0 al tk)"

definition sleep_ms :: "nat \<Rightarrow> nat \<Rightarrow> nat \<Rightarrow> nat \<Rightarrow> ktimer \<times> kthr \<Rightarrow> (unit outcome \<times> ktimer \<times> kthr) option" where
  "sleep_ms now0 now al ms tk = sleep_us now0 now al (u64 (1000 * ms)) tk"

definition sleep_sec :: "nat \<Rightarrow> nat \<Rightarrow> nat \<Rightarrow> nat \<Rightarrow> ktimer \<times> kthr \<Rightarrow> (unit outcome \<times> ktimer \<times> kthr) option" where
  "sleep_sec now0 now al sec tk = sleep_ms now0 now al (u64 (1000 * sec)) tk"

partial_function (option) timer_loop :: "nat \<Rightarrow> ktimer \<Rightarrow> kthr \<Rightarrow> (ktimer \<times> kthr) option" where
  "timer_loop now t k =
     (if sleep_list t \<noteq> None \<and> al_twake t (the (sleep_list t)) \<le> now
      then let h = the (sleep_list t);
               t = t\<lparr>sleep_list := al_next t h, al_next := (al_next t)(h := None)\<rparr>
           in Option.bind (condition_broadcast (Cond h) k) (timer_loop now t)
      else Some (t, k))"

definition handle_timer_interrupt :: "nat \<Rightarrow> ktimer \<times> kthr \<Rightarrow> (ktimer \<times> kthr) option" where
  "handle_timer_interrupt now tk =
     do {
       (t, k) \<leftarrow> timer_loop now (fst tk) (snd tk);
       Some (t\<lparr>stcmp := (case sleep_list t of Some h \<Rightarrow> al_twake t h | None \<Rightarrow> UINT64_MAX)\<rparr>, k)
     }"

subsection \<open>The list of sleeping alarms\<close>

definition hd_opt :: "'a list \<Rightarrow> 'a option" where
  "hd_opt xs = (if xs = [] then None else Some (hd xs))"

lemma hd_opt_simps [simp]: "hd_opt [] = None" "hd_opt (x # xs) = Some x"
  by (simp_all add: hd_opt_def)

lemma hd_opt_append: "xs \<noteq> [] \<Longrightarrow> hd_opt (xs @ ys) = Some (hd xs)"
  by (simp add: hd_opt_def)

definition sleepers :: "ktimer \<Rightarrow> nat list \<Rightarrow> bool" where
  "sleepers t xs \<longleftrightarrow> distinct xs \<and> linked (al_next t) xs \<and> sleep_list t = hd_opt xs \<and>
     sorted (map (al_twake t) xs) \<and>
     stcmp t = (case hd_opt xs of Some h \<Rightarrow> al_twake t h | None \<Rightarrow> UINT64_MAX)"

lemma linked_Cons: "linked nx (x # xs) \<longleftrightarrow> nx x = hd_opt xs \<and> linked nx xs"
  by (cases xs) simp_all

lemma sleep_ins_ok:
  assumes "linked nx (pre @ post)" and "\<forall>x \<in> set pre. tw x \<le> w" and "post = [] \<or> \<not> tw (hd post) \<le> w"
  shows "sleep_ins nx tw w prev (hd_opt (pre @ post)) =
    Some (if pre = [] then prev else Some (last pre), hd_opt post)"
  using assms
proof (induction pre arbitrary: prev)
  case Nil
  then show ?case by (subst sleep_ins.simps) (auto simp: hd_opt_def)
next
  case (Cons x pre)
  have "nx x = hd_opt (pre @ post)" "linked nx (pre @ post)"
    using Cons.prems(1) by (simp_all add: linked_Cons)
  then show ?case
    using Cons.IH [of "Some x"] Cons.prems by (subst sleep_ins.simps) auto
qed

lemma linked_insert:
  "linked nx (pre @ post) \<Longrightarrow> distinct (pre @ post) \<Longrightarrow> al \<notin> set (pre @ post) \<Longrightarrow> pre \<noteq> [] \<Longrightarrow>
     linked (nx(al := hd_opt post, last pre := Some al)) (pre @ al # post)"
proof (induction pre)
  case (Cons x pre)
  let ?nx = "nx(al := hd_opt post, last (x # pre) := Some al)"
  have t: "nx x = hd_opt (pre @ post)" "linked nx (pre @ post)"
    using Cons.prems(1) by (simp_all add: linked_Cons)
  show ?case
  proof (cases "pre = []")
    case True
    then have "linked ?nx post" using t(2) Cons.prems(2,3) by simp
    moreover have "al \<noteq> x" using Cons.prems(3) by auto
    ultimately show ?thesis
      using True by (simp add: linked_Cons fun_upd_same fun_upd_other del: fun_upd_apply)
  next
    case False
    have "linked (nx(al := hd_opt post, last pre := Some al)) (pre @ al # post)"
      by (rule Cons.IH) (use t Cons.prems False in auto)
    moreover have "x \<noteq> last pre" "x \<noteq> al" using Cons.prems(2,3) False by auto
    ultimately show ?thesis
      using t(1) False by (simp add: linked_Cons hd_opt_append fun_upd_other del: fun_upd_apply)
  qed
qed simp

lemma sleep_insert_ok:
  assumes S: "sleepers t xs" and new: "al \<notin> set xs" and m: "sorted (map (al_twake t) xs)"
  defines "w \<equiv> al_twake t al"
  obtains t' where "sleep_insert al t = Some t'" "al_twake t' = al_twake t"
    "sleepers t' (takeWhile (\<lambda>x. al_twake t x \<le> w) xs @ al # dropWhile (\<lambda>x. al_twake t x \<le> w) xs)"
proof -
  let ?P = "\<lambda>x. al_twake t x \<le> w"
  define pre where "pre = takeWhile ?P xs"
  define post where "post = dropWhile ?P xs"
  have xs: "xs = pre @ post" by (simp add: pre_def post_def)
  have pre: "\<forall>x \<in> set pre. ?P x" by (auto simp: pre_def dest: set_takeWhileD)
  have post: "post = [] \<or> \<not> ?P (hd post)" using hd_dropWhile [of ?P xs] by (auto simp: post_def)
  have ge: "w \<le> al_twake t x" if x: "x \<in> set post" for x
  proof -
    obtain y ys where y: "post = y # ys" using x by (cases post) auto
    have "al_twake t y \<le> al_twake t x" using m x by (auto simp: xs y sorted_append)
    then show ?thesis using post y by simp
  qed
  have F: "sleep_ins (al_next t) (al_twake t) w None (sleep_list t) =
      Some (if pre = [] then None else Some (last pre), hd_opt post)"
    using sleep_ins_ok [of "al_next t" pre post "al_twake t" w None] S pre post by (simp add: sleepers_def xs)
  have srt: "sorted (map (al_twake t) (pre @ al # post))"
    using m pre ge by (auto simp: xs sorted_append w_def)
  have dis: "distinct (pre @ al # post)" using S new by (auto simp: sleepers_def xs)
  show thesis
  proof (cases "pre = []")
    case True
    let ?t = "t\<lparr>al_next := (al_next t)(al := hd_opt post), sleep_list := Some al, stcmp := al_twake t al\<rparr>"
    have "linked (al_next ?t) (al # post)" using S new True by (simp add: linked_Cons sleepers_def xs)
    then have "sleepers ?t (pre @ al # post)" using srt dis True by (simp add: sleepers_def)
    moreover have "sleep_insert al t = Some ?t" using F True by (simp add: sleep_insert_def w_def)
    ultimately show thesis using that [of ?t] by (simp add: pre_def post_def)
  next
    case False
    let ?t = "t\<lparr>al_next := (al_next t)(al := hd_opt post, last pre := Some al)\<rparr>"
    have "linked (al_next ?t) (pre @ al # post)"
      using linked_insert [of "al_next t" pre post al] S new False by (simp add: sleepers_def xs)
    moreover have hd: "hd_opt (pre @ al # post) = hd_opt xs" using False by (simp add: hd_opt_def xs)
    ultimately have "sleepers ?t (pre @ al # post)" using S srt dis by (simp add: sleepers_def cong: option.case_cong)
    moreover have "last pre \<noteq> al" "sleep_list t \<noteq> Some al"
      using False new S by (auto simp: xs sleepers_def hd_opt_def)
    then have "sleep_insert al t = Some ?t" using F False by (simp add: sleep_insert_def w_def)
    ultimately show thesis using that [of ?t] by (simp add: pre_def post_def)
  qed
qed

text \<open>C28: \<open>alarm_sleep\<close> adds to the wake-up time with saturation, never wrapping past the 64-bit
  range. If the time is already past it returns at once; otherwise it inserts the alarm into the
  sleep list after every alarm that wakes no later and before every one that wakes later, so that
  the list stays sorted and the compare register holds the first wake-up time, and the caller
  waits on the alarm.\<close>

theorem alarm_sleep_sorted:
  fixes tcnt :: nat
  assumes "reachable k" and "TP k \<noteq> IDLE_TID" and "sleepers t xs" and "al \<notin> set xs"
    and "al_twake t al \<le> UINT64_MAX"
  defines "w \<equiv> min (al_twake t al + tcnt) UINT64_MAX"
  shows "if w < now then \<exists>t'. alarm_sleep now al tcnt (t, k) = Some (Returned (), t', k) \<and> sleepers t' xs \<and> al_twake t' al = w
    else \<exists>t' k'. alarm_sleep now al tcnt (t, k) = Some (Blocked, t', k') \<and> al_twake t' = (al_twake t)(al := w) \<and>
      sleepers t' (takeWhile (\<lambda>x. al_twake t x \<le> w) xs @ al # dropWhile (\<lambda>x. al_twake t x \<le> w) xs) \<and>
      waiters k' (Cond al) = waiters k (Cond al) @ [TP k] \<and> TP k' = hd (ready_queue k)"
proof -
  define t1 where "t1 = t\<lparr>al_twake := (al_twake t)(al := w)\<rparr>"
  have t1: "(if UINT64_MAX - al_twake t al < tcnt then t\<lparr>al_twake := (al_twake t)(al := UINT64_MAX)\<rparr>
      else t\<lparr>al_twake := (al_twake t)(al := al_twake t al + tcnt)\<rparr>) = t1"
    using assms(5) by (auto simp: t1_def w_def min_def)
  have same: "map (al_twake t1) xs = map (al_twake t) xs" using assms(4) by (auto simp: t1_def)
  have S1: "sleepers t1 xs"
    using assms(3,4) same by (auto simp: sleepers_def t1_def hd_opt_def split: if_splits)
  have run: "alarm_sleep now al tcnt (t, k) = (if w < now then Some (Returned (), t1, k)
      else do { t \<leftarrow> sleep_insert al t1; k \<leftarrow> condition_wait (Cond al) k; Some (Blocked, t, k) })"
    by (simp add: alarm_sleep_def t1 Let_def) (simp add: t1_def)
  show ?thesis
  proof (cases "w < now")
    case True
    then show ?thesis using run S1 by (simp add: t1_def)
  next
    case False
    have P: "takeWhile (\<lambda>x. al_twake t1 x \<le> w) xs = takeWhile (\<lambda>x. al_twake t x \<le> w) xs"
        "dropWhile (\<lambda>x. al_twake t1 x \<le> w) xs = dropWhile (\<lambda>x. al_twake t x \<le> w) xs" "al_twake t1 al = w"
      using assms(4) by (auto simp: t1_def intro!: takeWhile_cong dropWhile_cong)
    obtain t' where t': "sleep_insert al t1 = Some t'" "al_twake t' = al_twake t1"
        "sleepers t' (takeWhile (\<lambda>x. al_twake t x \<le> w) xs @ al # dropWhile (\<lambda>x. al_twake t x \<le> w) xs)"
      by (rule sleep_insert_ok [OF S1 assms(4)]) (use S1 P in \<open>auto simp: sleepers_def\<close>)
    obtain rl wl ll where K: "kinv k rl wl ll" using reachable_kinv [OF assms(1)] by blast
    obtain k' where k': "condition_wait (Cond al) k = Some k'" "TP k' = hd rl"
        "kinv k' (tl rl) (wl(Cond al := wl (Cond al) @ [TP k])) ll"
      by (rule kinv_wait [OF K assms(2), of "Cond al"]) auto
    show ?thesis
      using False run t' k' by (simp add: t1_def queue_eq [OF K] queue_eq [OF k'(3)])
  qed
qed

theorem alarm_sleep_sorted_witness:
  "\<exists>t k. alarm_sleep 100 7 50 (\<lparr>sleep_list = None, al_next = \<lambda>_. None, al_twake = \<lambda>_. 90, stcmp = UINT64_MAX\<rparr>, thread_boot)
    = Some (Blocked, t, k) \<and> sleepers t [7] \<and> al_twake t 7 = 140"
proof -
  let ?t = "\<lparr>sleep_list = None, al_next = \<lambda>_. None, al_twake = \<lambda>_. 90, stcmp = UINT64_MAX\<rparr>"
  have s: "sleepers ?t []" by (simp add: sleepers_def)
  have i: "TP thread_boot \<noteq> IDLE_TID" by (simp add: thread_boot_def MAIN_TID_def IDLE_TID_def NTHR_def)
  have m: "min (90 + 50) UINT64_MAX = 140" by (simp add: UINT64_MAX_def)
  show ?thesis
    using alarm_sleep_sorted [OF boot i s, of 7 50 100] m by (auto simp: UINT64_MAX_def)
qed

subsection \<open>The timer interrupt\<close>

lemma timer_loop_ok:
  assumes "reachable k" and "distinct xs" and "linked (al_next t) xs" and "sleep_list t = hd_opt xs"
    and "sorted (map (al_twake t) xs)"
  shows "\<exists>t' k'. timer_loop now t k = Some (t', k') \<and> reachable k' \<and> TP k' = TP k \<and>
    al_twake t' = al_twake t \<and> linked (al_next t') (dropWhile (\<lambda>x. al_twake t x \<le> now) xs) \<and>
    sleep_list t' = hd_opt (dropWhile (\<lambda>x. al_twake t x \<le> now) xs) \<and>
    ready_queue k' = ready_queue k @ concat (map (\<lambda>x. waiters k (Cond x)) (takeWhile (\<lambda>x. al_twake t x \<le> now) xs))"
  using assms
proof (induction xs arbitrary: t k)
  case Nil
  then show ?case by (subst timer_loop.simps) simp
next
  case (Cons x xs)
  show ?case
  proof (cases "al_twake t x \<le> now")
    case False
    then show ?thesis using Cons.prems by (subst timer_loop.simps) simp
  next
    case True
    let ?t = "t\<lparr>sleep_list := al_next t x, al_next := (al_next t)(x := None)\<rparr>"
    obtain rl wl ll where K: "kinv k rl wl ll" using reachable_kinv [OF Cons.prems(1)] by blast
    obtain k1 where k1: "condition_broadcast (Cond x) k = Some k1" "TP k1 = TP k"
        "kinv k1 (rl @ wl (Cond x)) (wl(Cond x := [])) ll"
      by (rule kinv_broadcast [OF K, of "Cond x"])
    have R1: "reachable k1" using reachable.call [OF Cons.prems(1), of "Broadcast x" False k1] k1(1) by simp
    have q: "ready_queue k1 = ready_queue k @ waiters k (Cond x)"
      "\<And>y. y \<noteq> x \<Longrightarrow> waiters k1 (Cond y) = waiters k (Cond y)"
      by (simp_all add: queue_eq [OF K] queue_eq [OF k1(3)])
    have "linked (al_next ?t) xs" "sleep_list ?t = hd_opt xs"
      using Cons.prems(2-4) by (simp_all add: linked_Cons)
    moreover have "distinct xs" "sorted (map (al_twake ?t) xs)" using Cons.prems(2,5) by simp_all
    ultimately obtain t' k' where R: "timer_loop now ?t k1 = Some (t', k')" "reachable k'" "TP k' = TP k1"
        "al_twake t' = al_twake ?t" "linked (al_next t') (dropWhile (\<lambda>x. al_twake ?t x \<le> now) xs)"
        "sleep_list t' = hd_opt (dropWhile (\<lambda>x. al_twake ?t x \<le> now) xs)"
        "ready_queue k' = ready_queue k1 @ concat (map (\<lambda>x. waiters k1 (Cond x)) (takeWhile (\<lambda>x. al_twake ?t x \<le> now) xs))"
      using Cons.IH [OF R1, of ?t] by blast
    have "concat (map (\<lambda>x. waiters k1 (Cond x)) (takeWhile (\<lambda>x. al_twake t x \<le> now) xs)) =
        concat (map (\<lambda>x. waiters k (Cond x)) (takeWhile (\<lambda>x. al_twake t x \<le> now) xs))"
      using Cons.prems(2) by (intro arg_cong [of _ _ concat] map_cong refl q(2)) (auto dest: set_takeWhileD)
    moreover have "timer_loop now t k = timer_loop now ?t k1"
      by (subst timer_loop.simps) (use True Cons.prems(4) k1(1) in simp)
    ultimately show ?thesis using R k1(2) q(1) True by simp
  qed
qed

lemma handle_timer_ok:
  fixes now :: nat
  assumes "reachable k" and "sleepers t xs"
  defines "due \<equiv> filter (\<lambda>x. al_twake t x \<le> now) xs"
  shows "\<exists>t' k'. handle_timer_interrupt now (t, k) = Some (t', k') \<and> TP k' = TP k \<and> reachable k' \<and>
    sleepers t' (filter (\<lambda>x. now < al_twake t x) xs) \<and>
    ready_queue k' = ready_queue k @ concat (map (\<lambda>x. waiters k (Cond x)) due)"
proof -
  have S: "distinct xs" "linked (al_next t) xs" "sleep_list t = hd_opt xs" "sorted (map (al_twake t) xs)"
    using assms(2) by (simp_all add: sleepers_def)
  have e: "takeWhile (\<lambda>x. al_twake t x \<le> now) xs = due" "dropWhile (\<lambda>x. al_twake t x \<le> now) xs =
      filter (\<lambda>x. now < al_twake t x) xs"
    using S(4) unfolding due_def by (induction xs) (auto intro!: sym [OF filter_True] sym [OF filter_False])
  obtain t1 k' where L: "timer_loop now t k = Some (t1, k')" "TP k' = TP k" "reachable k'"
      "al_twake t1 = al_twake t"
      "linked (al_next t1) (filter (\<lambda>x. now < al_twake t x) xs)"
      "sleep_list t1 = hd_opt (filter (\<lambda>x. now < al_twake t x) xs)"
      "ready_queue k' = ready_queue k @ concat (map (\<lambda>x. waiters k (Cond x)) due)"
    using timer_loop_ok [OF assms(1) S, of now] unfolding e by blast
  let ?t = "t1\<lparr>stcmp := (case sleep_list t1 of Some h \<Rightarrow> al_twake t1 h | None \<Rightarrow> UINT64_MAX)\<rparr>"
  have "handle_timer_interrupt now (t, k) = Some (?t, k')"
    using L(1) by (simp add: handle_timer_interrupt_def)
  moreover have "sleepers ?t (filter (\<lambda>x. now < al_twake t x) xs)"
    using L S by (simp add: sleepers_def sorted_filter cong: option.case_cong)
  ultimately show ?thesis using L by blast
qed

text \<open>C29: the timer interrupt wakes the threads of exactly the alarms whose time has come, in the
  order of their wake-up times, and keeps the others asleep; the compare register is set to the
  next wake-up time, or to the far future when no alarm is left.\<close>

theorem timer_interrupt_wakes_due:
  fixes now :: nat
  assumes "reachable k" and "sleepers t xs"
  defines "due \<equiv> filter (\<lambda>x. al_twake t x \<le> now) xs"
  shows "\<exists>t' k'. handle_timer_interrupt now (t, k) = Some (t', k') \<and> TP k' = TP k \<and>
    sleepers t' (filter (\<lambda>x. now < al_twake t x) xs) \<and>
    ready_queue k' = ready_queue k @ concat (map (\<lambda>x. waiters k (Cond x)) due)"
  unfolding due_def using handle_timer_ok [OF assms(1,2), of now] by blast

theorem timer_interrupt_wakes_due_witness:
  "\<exists>t' k'. handle_timer_interrupt 100 (\<lparr>sleep_list = Some 1, al_next = [1 \<mapsto> 2], al_twake = (\<lambda>_. 200)(1 := 80), stcmp = 80\<rparr>,
      thread_boot) = Some (t', k') \<and> sleepers t' [2]"
proof -
  let ?t = "\<lparr>sleep_list = Some 1, al_next = [1 \<mapsto> 2], al_twake = (\<lambda>_. 200)(1 := 80), stcmp = 80\<rparr>"
  have "sleepers ?t [1, 2]" by (simp add: sleepers_def)
  from timer_interrupt_wakes_due [OF boot this, of 100] show ?thesis by auto
qed

text \<open>C30: a lost wake-up. \<open>alarm_sleep\<close> enables interrupts again before it calls
  \<open>condition_wait\<close>. When the timer interrupt of that very alarm comes in between, it takes the
  alarm off the list and finds no waiter; the caller then waits on an alarm that is on no list,
  and no later timer interrupt wakes it.\<close>

theorem alarm_lost_wakeup:
  assumes "reachable k" and "TP k \<noteq> IDLE_TID" and "sleepers t xs" and "al \<notin> set xs" and "al_twake t al \<le> now"
  shows "\<exists>t1 t2 k2 k3 ys. sleep_insert al t = Some t1 \<and> handle_timer_interrupt now (t1, k) = Some (t2, k2) \<and>
    condition_wait (Cond al) k2 = Some k3 \<and> TP k \<in> set (waiters k3 (Cond al)) \<and>
    sleepers t2 ys \<and> al \<notin> set ys"
proof -
  let ?zs = "takeWhile (\<lambda>x. al_twake t x \<le> al_twake t al) xs @ al # dropWhile (\<lambda>x. al_twake t x \<le> al_twake t al) xs"
  obtain t1 where t1: "sleep_insert al t = Some t1" "al_twake t1 = al_twake t" "sleepers t1 ?zs"
    by (rule sleep_insert_ok [OF assms(3,4)]) (use assms(3) in \<open>auto simp: sleepers_def\<close>)
  obtain t2 k2 where h: "handle_timer_interrupt now (t1, k) = Some (t2, k2)" "TP k2 = TP k" "reachable k2"
      "sleepers t2 (filter (\<lambda>x. now < al_twake t1 x) ?zs)"
    using handle_timer_ok [OF assms(1) t1(3), of now] by blast
  obtain rl wl ll where K: "kinv k2 rl wl ll" using reachable_kinv [OF h(3)] by blast
  obtain k3 where w: "condition_wait (Cond al) k2 = Some k3"
      "kinv k3 (tl rl) (wl(Cond al := wl (Cond al) @ [TP k2])) ll"
    by (rule kinv_wait [OF K, of "Cond al"]) (use h(2) assms(2) in auto)
  have "al \<notin> set (filter (\<lambda>x. now < al_twake t1 x) ?zs)" using assms(5) t1(2) by simp
  then show ?thesis
    using t1(1) h w(1) queue_eq(2) [OF w(2), of "Cond al"]
    by (intro exI [of _ t1] exI [of _ t2] exI [of _ k2] exI [of _ k3] exI conjI) (assumption | simp)+
qed

theorem alarm_lost_wakeup_witness:
  "\<exists>t1 t2 k2 k3. sleep_insert 7 \<lparr>sleep_list = None, al_next = \<lambda>_. None, al_twake = \<lambda>_. 90, stcmp = UINT64_MAX\<rparr> = Some t1 \<and>
    handle_timer_interrupt 95 (t1, thread_boot) = Some (t2, k2) \<and> condition_wait (Cond 7) k2 = Some k3 \<and>
    MAIN_TID \<in> set (waiters k3 (Cond 7))"
proof -
  let ?t = "\<lparr>sleep_list = None, al_next = \<lambda>_. None, al_twake = \<lambda>_. 90, stcmp = UINT64_MAX\<rparr>"
  have s: "sleepers ?t []" by (simp add: sleepers_def)
  have i: "TP thread_boot \<noteq> IDLE_TID" "TP thread_boot = MAIN_TID"
    by (simp_all add: thread_boot_def MAIN_TID_def IDLE_TID_def NTHR_def)
  show ?thesis
    using alarm_lost_wakeup [OF boot i(1) s, of 7 95] i(2) by auto
qed

end
