(* ===== verification/Ring.thy ===== *)
theory Ring
  imports Io
begin

text \<open>
  Bounded byte queues. The kernel has two of them, both rings with free-running positions: the
  receive and transmit buffers of the serial driver (\<open>struct ringbuf\<close> of kernel/dev/uart.c, 64
  bytes, 32-bit positions) and the buffer of a pipe (\<open>struct pipe_state\<close> of kernel/io.c, 4096
  bytes, 16-bit positions). The locale \<open>bounded_queue\<close> is what their clients rely on; the copy
  loops that drain and fill a queue are treated once in it. Both rings are instances, whatever the
  positions have wrapped to.
\<close>

subsection \<open>The interface\<close>

text \<open>
  The loops of the clients: \<open>drain\<close> takes bytes while there are some and fewer than \<open>n\<close> have
  been taken; \<open>fill\<close> puts bytes while there is room and returns those left over.
\<close>

fun drain :: "('s \<Rightarrow> bool) \<Rightarrow> ('s \<Rightarrow> 'a \<times> 's) \<Rightarrow> nat \<Rightarrow> 's \<Rightarrow> 'a list \<times> 's" where
  "drain isempty get 0 s = ([], s)"
| "drain isempty get (Suc n) s =
     (if isempty s then ([], s)
      else case get s of (x, s) \<Rightarrow> (case drain isempty get n s of (xs, s) \<Rightarrow> (x # xs, s)))"

fun fill :: "('s \<Rightarrow> bool) \<Rightarrow> ('a \<Rightarrow> 's \<Rightarrow> 's) \<Rightarrow> 'a list \<Rightarrow> 's \<Rightarrow> 'a list \<times> 's" where
  "fill isfull put [] s = ([], s)"
| "fill isfull put (x # xs) s = (if isfull s then (x # xs, s) else fill isfull put xs (put x s))"

locale bounded_queue =
  fixes cap :: nat
    and qinv :: "'s \<Rightarrow> bool"
    and items :: "'s \<Rightarrow> 'a list"
    and qempty :: "'s \<Rightarrow> bool"
    and qfull :: "'s \<Rightarrow> bool"
    and qput :: "'a \<Rightarrow> 's \<Rightarrow> 's"
    and qget :: "'s \<Rightarrow> 'a \<times> 's"
  assumes bound: "qinv s \<Longrightarrow> length (items s) \<le> cap"
    and empty_iff: "qinv s \<Longrightarrow> qempty s \<longleftrightarrow> items s = []"
    and full_iff: "qinv s \<Longrightarrow> qfull s \<longleftrightarrow> length (items s) = cap"
    and put_inv: "qinv s \<Longrightarrow> length (items s) < cap \<Longrightarrow> qinv (qput x s)"
    and put_items: "qinv s \<Longrightarrow> length (items s) < cap \<Longrightarrow> items (qput x s) = items s @ [x]"
    and get_inv: "qinv s \<Longrightarrow> items s \<noteq> [] \<Longrightarrow> qinv (snd (qget s))"
    and get_items: "qinv s \<Longrightarrow> items s \<noteq> [] \<Longrightarrow> items s = fst (qget s) # items (snd (qget s))"
begin

lemma drain_ok:
  assumes "qinv s"
  shows "fst (drain qempty qget n s) = take n (items s)"
    and "items (snd (drain qempty qget n s)) = drop n (items s)"
    and "qinv (snd (drain qempty qget n s))"
proof -
  have "fst (drain qempty qget n s) = take n (items s) \<and>
      items (snd (drain qempty qget n s)) = drop n (items s) \<and> qinv (snd (drain qempty qget n s))"
    using assms
  proof (induction n arbitrary: s)
    case (Suc n)
    show ?case
    proof (cases "items s")
      case Nil
      then show ?thesis using Suc.prems empty_iff by simp
    next
      case (Cons x xs)
      obtain y s' where g: "qget s = (y, s')" by fastforce
      have "y = x" "items s' = xs" "qinv s'"
        using get_items [OF Suc.prems] get_inv [OF Suc.prems] Cons g by auto
      with Suc.IH [of s'] Suc.prems Cons g empty_iff show ?thesis
        by (auto split: prod.splits)
    qed
  qed simp
  then show "fst (drain qempty qget n s) = take n (items s)"
    and "items (snd (drain qempty qget n s)) = drop n (items s)"
    and "qinv (snd (drain qempty qget n s))"
    by auto
qed

lemma fill_ok:
  assumes "qinv s"
  defines "room \<equiv> cap - length (items s)"
  shows "fst (fill qfull qput xs s) = drop room xs"
    and "items (snd (fill qfull qput xs s)) = items s @ take room xs"
    and "qinv (snd (fill qfull qput xs s))"
proof -
  have "fst (fill qfull qput xs s) = drop (cap - length (items s)) xs \<and>
      items (snd (fill qfull qput xs s)) = items s @ take (cap - length (items s)) xs \<and>
      qinv (snd (fill qfull qput xs s))"
    using assms(1)
  proof (induction xs arbitrary: s)
    case (Cons x xs)
    show ?case
    proof (cases "length (items s) = cap")
      case True
      then show ?thesis using Cons.prems full_iff by simp
    next
      case False
      then have lt: "length (items s) < cap"
        using bound [OF Cons.prems] by simp
      then have "cap - length (items s) = Suc (cap - Suc (length (items s)))"
        by simp
      with Cons.IH [of "qput x s"] put_inv [OF Cons.prems lt] put_items [OF Cons.prems lt]
        full_iff [OF Cons.prems] False show ?thesis by simp
    qed
  qed simp
  then show "fst (fill qfull qput xs s) = drop room xs"
    and "items (snd (fill qfull qput xs s)) = items s @ take room xs"
    and "qinv (snd (fill qfull qput xs s))"
    by (auto simp: room_def)
qed

end

subsection \<open>Free-running positions\<close>

text \<open>
  The contents of a ring of \<open>length data\<close> cells between the positions \<open>h\<close> and \<open>t\<close>, which are
  machine words that wrap. The size of the ring divides the range of the positions.
\<close>

definition ring_items :: "'w::len word \<Rightarrow> 'w word \<Rightarrow> 'a list \<Rightarrow> 'a list" where
  "ring_items h t data = map (\<lambda>i. data ! ((unat h + i) mod length data)) [0..<unat (t - h)]"

lemma length_ring_items [simp]: "length (ring_items h t data) = unat (t - h)"
  by (simp add: ring_items_def)

lemma ring_index:
  assumes "cap dvd 2 ^ LENGTH('w)"
  shows "unat (h + word_of_nat i :: 'w::len word) mod cap = (unat h + i) mod cap"
proof -
  have "unat (h + word_of_nat i) = (unat h + i) mod 2 ^ LENGTH('w)"
    by (simp add: unat_word_ariths unat_of_nat mod_add_right_eq)
  then show ?thesis
    using assms by (simp add: mod_mod_cancel)
qed

lemma ring_put:
  fixes h t :: "'w::len word"
  assumes "unat (t - h) < cap" "cap < 2 ^ LENGTH('w)" "cap dvd 2 ^ LENGTH('w)" "length data = cap"
  shows "unat (t + 1 - h) = Suc (unat (t - h))"
    and "ring_items h (t + 1) (data[unat t mod cap := x]) = ring_items h t data @ [x]"
proof -
  let ?n = "unat (t - h)"
  have e: "t + 1 - h = (t - h) + 1" by simp
  show n: "unat (t + 1 - h) = Suc ?n"
    unfolding e using assms(1,2) by (simp add: unat_word_ariths)
  have t: "unat t mod cap = (unat h + ?n) mod cap"
    using ring_index [OF assms(3), of h ?n] by simp
  have "(unat h + ?n) mod cap \<noteq> (unat h + i) mod cap" if "i < ?n" for i
  proof
    assume "(unat h + ?n) mod cap = (unat h + i) mod cap"
    then have "cap dvd ?n - i"
      using that mod_eq_dvd_iff_nat [of "unat h + i" "unat h + ?n" cap] by simp
    then show False
      using that assms(1) dvd_imp_le [of cap "?n - i"] by simp
  qed
  then have "map (\<lambda>i. data[(unat h + ?n) mod cap := x] ! ((unat h + i) mod cap)) [0..<?n] =
      map (\<lambda>i. data ! ((unat h + i) mod cap)) [0..<?n]"
    by (intro map_cong) (simp_all add: nth_list_update_neq)
  moreover have "(unat h + ?n) mod cap < length data"
    using assms(1,4) by simp
  ultimately show "ring_items h (t + 1) (data[unat t mod cap := x]) = ring_items h t data @ [x]"
    using assms(4) by (simp add: ring_items_def n t)
qed

lemma ring_get:
  fixes h t :: "'w::len word"
  assumes "h \<noteq> t" "cap dvd 2 ^ LENGTH('w)" "length data = cap"
  shows "unat (t - (h + 1)) = unat (t - h) - 1"
    and "ring_items h t data = data ! (unat h mod cap) # ring_items (h + 1) t data"
proof -
  have "t - h \<noteq> 0" using assms(1) by simp
  then have pos: "0 < unat (t - h)" by (simp add: unat_gt_0)
  have "t - (h + 1) = (t - h) - 1" by simp
  then show n: "unat (t - (h + 1)) = unat (t - h) - 1"
    using \<open>t - h \<noteq> 0\<close> by (simp only:) (metis unat_minus_one)
  have "[0..<unat (t - h)] = 0 # map Suc [0..<unat (t - (h + 1))]"
    using pos n by (simp add: map_Suc_upt upt_conv_Cons)
  moreover have "(unat h + Suc i) mod cap = (unat (h + 1) + i) mod cap" for i
    using ring_index [OF assms(2), of h 1] by (simp add: mod_add_left_eq [of "unat (h + 1)" cap i, symmetric] mod_add_left_eq)
  ultimately show "ring_items h t data = data ! (unat h mod cap) # ring_items (h + 1) t data"
    using assms(3) by (simp add: ring_items_def)
qed

subsection \<open>The buffers of the serial driver\<close>

definition UART_RBUFSZ :: nat where "UART_RBUFSZ = 64"

record ringbuf =
  hpos :: "32 word"
  tpos :: "32 word"
  rdata :: "byte list"

definition rbuf_init :: "ringbuf \<Rightarrow> ringbuf" where
  "rbuf_init rbuf = rbuf\<lparr>hpos := 0, tpos := 0\<rparr>"

definition rbuf_empty :: "ringbuf \<Rightarrow> bool" where
  "rbuf_empty rbuf \<longleftrightarrow> hpos rbuf = tpos rbuf"

definition rbuf_full :: "ringbuf \<Rightarrow> bool" where
  "rbuf_full rbuf \<longleftrightarrow> unat (ucast (tpos rbuf - hpos rbuf) :: 16 word) = UART_RBUFSZ"

definition rbuf_putc :: "byte \<Rightarrow> ringbuf \<Rightarrow> ringbuf" where
  "rbuf_putc c rbuf =
     rbuf\<lparr>rdata := (rdata rbuf)[unat (tpos rbuf) mod UART_RBUFSZ := c], tpos := tpos rbuf + 1\<rparr>"

definition rbuf_getc :: "ringbuf \<Rightarrow> byte \<times> ringbuf" where
  "rbuf_getc rbuf = (rdata rbuf ! (unat (hpos rbuf) mod UART_RBUFSZ), rbuf\<lparr>hpos := hpos rbuf + 1\<rparr>)"

definition rbuf_inv :: "ringbuf \<Rightarrow> bool" where
  "rbuf_inv rbuf \<longleftrightarrow> length (rdata rbuf) = UART_RBUFSZ \<and> unat (tpos rbuf - hpos rbuf) \<le> UART_RBUFSZ"

definition rbuf_items :: "ringbuf \<Rightarrow> byte list" where
  "rbuf_items rbuf = ring_items (hpos rbuf) (tpos rbuf) (rdata rbuf)"

lemma rbuf_empty_iff: "rbuf_empty rbuf \<longleftrightarrow> unat (tpos rbuf - hpos rbuf) = 0"
  by (auto simp: rbuf_empty_def unat_eq_0)

lemma unat_ucast16: "unat (w :: 32 word) < 65536 \<Longrightarrow> unat (ucast w :: 16 word) = unat w"
  by (simp add: unsigned_ucast_eq take_bit_nat_eq_self_iff)

interpretation rbuf: bounded_queue UART_RBUFSZ rbuf_inv rbuf_items rbuf_empty rbuf_full rbuf_putc rbuf_getc
proof unfold_locales
  fix s :: ringbuf and x
  assume inv: "rbuf_inv s"
  then have len: "length (rdata s) = 64" and le: "unat (tpos s - hpos s) \<le> 64"
    by (simp_all add: rbuf_inv_def UART_RBUFSZ_def)
  show "length (rbuf_items s) \<le> UART_RBUFSZ"
    using le by (simp add: rbuf_items_def UART_RBUFSZ_def)
  show "rbuf_empty s \<longleftrightarrow> rbuf_items s = []"
    by (auto simp: rbuf_empty_iff rbuf_items_def ring_items_def)
  show "rbuf_full s \<longleftrightarrow> length (rbuf_items s) = UART_RBUFSZ"
    using le by (simp add: rbuf_full_def rbuf_items_def UART_RBUFSZ_def unat_ucast16)
  show "rbuf_inv (rbuf_putc x s)" "rbuf_items (rbuf_putc x s) = rbuf_items s @ [x]"
    if "length (rbuf_items s) < UART_RBUFSZ"
  proof -
    have lt: "unat (tpos s - hpos s) < 64"
      using that by (simp add: rbuf_items_def UART_RBUFSZ_def)
    note R = ring_put [OF lt _ _ len]
    show "rbuf_inv (rbuf_putc x s)"
      using R(1) len lt by (simp add: rbuf_inv_def rbuf_putc_def UART_RBUFSZ_def)
    show "rbuf_items (rbuf_putc x s) = rbuf_items s @ [x]"
      using R(2) by (simp add: rbuf_items_def rbuf_putc_def UART_RBUFSZ_def)
  qed
  show "rbuf_inv (snd (rbuf_getc s))" "rbuf_items s = fst (rbuf_getc s) # rbuf_items (snd (rbuf_getc s))"
    if "rbuf_items s \<noteq> []"
  proof -
    have ne: "hpos s \<noteq> tpos s"
      using that by (auto simp: rbuf_items_def ring_items_def)
    note R = ring_get [OF ne _ len]
    show "rbuf_inv (snd (rbuf_getc s))"
      using R(1) len le by (simp add: rbuf_inv_def rbuf_getc_def UART_RBUFSZ_def)
    show "rbuf_items s = fst (rbuf_getc s) # rbuf_items (snd (rbuf_getc s))"
      using R(2) by (simp add: rbuf_items_def rbuf_getc_def UART_RBUFSZ_def)
  qed
qed

subsection \<open>The buffer of a pipe\<close>

definition PIPE_BUF_SIZE :: nat where "PIPE_BUF_SIZE = 4096"

record pipe_buf =
  phead :: "16 word"
  ptail :: "16 word"
  pbuf :: "byte list"

definition pipe_count :: "pipe_buf \<Rightarrow> nat" where
  "pipe_count s = unat (ptail s - phead s)"

definition pipe_empty :: "pipe_buf \<Rightarrow> bool" where
  "pipe_empty s \<longleftrightarrow> \<not> pipe_count s > 0"

definition pipe_full :: "pipe_buf \<Rightarrow> bool" where
  "pipe_full s \<longleftrightarrow> \<not> pipe_count s < PIPE_BUF_SIZE"

definition pipe_put :: "byte \<Rightarrow> pipe_buf \<Rightarrow> pipe_buf" where
  "pipe_put c s = s\<lparr>pbuf := (pbuf s)[unat (ptail s) mod PIPE_BUF_SIZE := c], ptail := ptail s + 1\<rparr>"

definition pipe_get :: "pipe_buf \<Rightarrow> byte \<times> pipe_buf" where
  "pipe_get s = (pbuf s ! (unat (phead s) mod PIPE_BUF_SIZE), s\<lparr>phead := phead s + 1\<rparr>)"

definition pipe_inv :: "pipe_buf \<Rightarrow> bool" where
  "pipe_inv s \<longleftrightarrow> length (pbuf s) = PIPE_BUF_SIZE \<and> pipe_count s \<le> PIPE_BUF_SIZE"

definition pipe_items :: "pipe_buf \<Rightarrow> byte list" where
  "pipe_items s = ring_items (phead s) (ptail s) (pbuf s)"

interpretation pipe: bounded_queue PIPE_BUF_SIZE pipe_inv pipe_items pipe_empty pipe_full pipe_put pipe_get
proof unfold_locales
  fix s :: pipe_buf and x
  assume inv: "pipe_inv s"
  then have len: "length (pbuf s) = 4096" and le: "unat (ptail s - phead s) \<le> 4096"
    by (simp_all add: pipe_inv_def PIPE_BUF_SIZE_def pipe_count_def)
  show "length (pipe_items s) \<le> PIPE_BUF_SIZE"
    using le by (simp add: pipe_items_def PIPE_BUF_SIZE_def)
  show "pipe_empty s \<longleftrightarrow> pipe_items s = []"
    by (auto simp: pipe_empty_def pipe_count_def pipe_items_def ring_items_def)
  show "pipe_full s \<longleftrightarrow> length (pipe_items s) = PIPE_BUF_SIZE"
    using le by (auto simp: pipe_full_def pipe_items_def PIPE_BUF_SIZE_def pipe_count_def)
  show "pipe_inv (pipe_put x s)" "pipe_items (pipe_put x s) = pipe_items s @ [x]"
    if "length (pipe_items s) < PIPE_BUF_SIZE"
  proof -
    have lt: "unat (ptail s - phead s) < 4096"
      using that by (simp add: pipe_items_def PIPE_BUF_SIZE_def)
    note R = ring_put [OF lt _ _ len]
    show "pipe_inv (pipe_put x s)"
      using R(1) len lt by (simp add: pipe_inv_def pipe_put_def PIPE_BUF_SIZE_def pipe_count_def)
    show "pipe_items (pipe_put x s) = pipe_items s @ [x]"
      using R(2) by (simp add: pipe_items_def pipe_put_def PIPE_BUF_SIZE_def)
  qed
  show "pipe_inv (snd (pipe_get s))" "pipe_items s = fst (pipe_get s) # pipe_items (snd (pipe_get s))"
    if "pipe_items s \<noteq> []"
  proof -
    have ne: "phead s \<noteq> ptail s"
      using that by (auto simp: pipe_items_def ring_items_def)
    note R = ring_get [OF ne _ len]
    show "pipe_inv (snd (pipe_get s))"
      using R(1) len le by (simp add: pipe_inv_def pipe_get_def PIPE_BUF_SIZE_def pipe_count_def)
    show "pipe_items s = fst (pipe_get s) # pipe_items (snd (pipe_get s))"
      using R(2) by (simp add: pipe_items_def pipe_get_def PIPE_BUF_SIZE_def)
  qed
qed

end
