(* ===== verification/Intr.thy ===== *)
theory Intr
  imports Prelude "HOL-Library.Monad_Syntax"
begin

text \<open>
  Interrupts: the PLIC of kernel/plic.c and the table of service routines of kernel/intr.c. The
  registers of the PLIC are arrays of words; what it answers to a claim is hardware and an
  argument of the functions that claim. A service routine acts on the rest of the kernel, a type
  parameter. \<open>None\<close> is a failed assertion or a panic.
\<close>

unbundle bit_operations_syntax

subsection \<open>PLIC\<close>

definition PLIC_SRC_CNT :: nat where "PLIC_SRC_CNT = 96"
definition PLIC_CTX_CNT :: nat where "PLIC_CTX_CNT = 2"
definition PLIC_PRIO_MAX :: nat where "PLIC_PRIO_MAX = 7"
definition NIRQ :: nat where "NIRQ = PLIC_SRC_CNT"

record plic_regs =
  priority :: "nat \<Rightarrow> nat"
  pending :: "nat \<Rightarrow> 32 word"
  enable :: "nat \<Rightarrow> nat \<Rightarrow> 32 word"
  threshold :: "nat \<Rightarrow> nat"
  completed :: "nat \<Rightarrow> nat list"

definition CTX :: "nat \<Rightarrow> nat \<Rightarrow> nat" where
  "CTX i s = 2 * i + s"

definition plic_set_source_priority :: "nat \<Rightarrow> nat \<Rightarrow> plic_regs \<Rightarrow> plic_regs option" where
  "plic_set_source_priority srcno level p =
     (if \<not> srcno < PLIC_SRC_CNT \<or> \<not> level \<le> PLIC_PRIO_MAX then None
      else Some (p\<lparr>priority := (priority p)(srcno := level)\<rparr>))"

definition plic_source_pending :: "nat \<Rightarrow> plic_regs \<Rightarrow> bool option" where
  "plic_source_pending srcno p =
     (if \<not> srcno < PLIC_SRC_CNT then None
      else Some (drop_bit (srcno mod 32) (pending p (srcno div 32)) AND 1 \<noteq> 0))"

definition set_enable :: "nat \<Rightarrow> nat \<Rightarrow> 32 word \<Rightarrow> plic_regs \<Rightarrow> plic_regs" where
  "set_enable ctxno i w p = p\<lparr>enable := (enable p)(ctxno := (enable p ctxno)(i := w))\<rparr>"

definition plic_enable_source_for_context :: "nat \<Rightarrow> nat \<Rightarrow> plic_regs \<Rightarrow> plic_regs option" where
  "plic_enable_source_for_context ctxno srcno p =
     (if \<not> ctxno < PLIC_CTX_CNT \<or> \<not> srcno < PLIC_SRC_CNT then None
      else Some (set_enable ctxno (srcno div 32)
                   (enable p ctxno (srcno div 32) OR push_bit (srcno mod 32) 1) p))"

definition plic_disable_source_for_context :: "nat \<Rightarrow> nat \<Rightarrow> plic_regs \<Rightarrow> plic_regs option" where
  "plic_disable_source_for_context ctxno srcid p =
     (if \<not> ctxno < PLIC_CTX_CNT \<or> \<not> srcid < PLIC_SRC_CNT then None
      else Some (set_enable ctxno (srcid div 32)
                   (enable p ctxno (srcid div 32) AND NOT (push_bit (srcid mod 32) 1)) p))"

definition plic_set_context_threshold :: "nat \<Rightarrow> nat \<Rightarrow> plic_regs \<Rightarrow> plic_regs option" where
  "plic_set_context_threshold ctxno level p =
     (if \<not> ctxno < PLIC_CTX_CNT \<or> \<not> level \<le> PLIC_PRIO_MAX then None
      else Some (p\<lparr>threshold := (threshold p)(ctxno := level)\<rparr>))"

text \<open>\<open>claim\<close>: what the claim register of each context reads as.\<close>

definition plic_claim_context_interrupt :: "(nat \<Rightarrow> nat) \<Rightarrow> nat \<Rightarrow> nat option" where
  "plic_claim_context_interrupt claim ctxno = (if \<not> ctxno < PLIC_CTX_CNT then None else Some (claim ctxno))"

definition plic_complete_context_interrupt :: "nat \<Rightarrow> nat \<Rightarrow> plic_regs \<Rightarrow> plic_regs option" where
  "plic_complete_context_interrupt ctxno srcno p =
     (if \<not> ctxno < PLIC_CTX_CNT then None
      else Some (p\<lparr>completed := (completed p)(ctxno := completed p ctxno @ [srcno])\<rparr>))"

definition plic_enable_all_sources_for_context :: "nat \<Rightarrow> plic_regs \<Rightarrow> plic_regs option" where
  "plic_enable_all_sources_for_context ctxno p =
     (if \<not> ctxno < PLIC_CTX_CNT then None
      else Some (fold (\<lambda>i. set_enable ctxno i 0xFFFFFFFF) [0..<PLIC_SRC_CNT div 32] p))"

definition plic_disable_all_sources_for_context :: "nat \<Rightarrow> plic_regs \<Rightarrow> plic_regs option" where
  "plic_disable_all_sources_for_context ctxno p =
     (if \<not> ctxno < PLIC_CTX_CNT then None
      else Some (fold (\<lambda>i. set_enable ctxno i 0) [0..<PLIC_SRC_CNT div 32] p))"

fun for_each :: "('i \<Rightarrow> 's \<Rightarrow> 's option) \<Rightarrow> 'i list \<Rightarrow> 's \<Rightarrow> 's option" where
  "for_each f [] s = Some s"
| "for_each f (i # is) s = Option.bind (f i s) (for_each f is)"

definition plic_init :: "plic_regs \<Rightarrow> plic_regs option" where
  "plic_init p =
     do {
       p \<leftarrow> for_each (\<lambda>i. plic_set_source_priority i 0) [0..<PLIC_SRC_CNT] p;
       p \<leftarrow> for_each plic_disable_all_sources_for_context [0..<PLIC_CTX_CNT] p;
       plic_enable_all_sources_for_context (CTX 0 1) p
     }"

definition plic_enable_source :: "int \<Rightarrow> int \<Rightarrow> plic_regs \<Rightarrow> plic_regs option" where
  "plic_enable_source srcno prio p =
     (if \<not> (0 < srcno \<and> srcno \<le> int PLIC_SRC_CNT) \<or> \<not> prio > 0 then None
      else plic_set_source_priority (nat srcno) (nat prio) p)"

definition plic_disable_source :: "int \<Rightarrow> plic_regs \<Rightarrow> plic_regs option" where
  "plic_disable_source irqno p =
     (if 0 < irqno then plic_set_source_priority (nat irqno) 0 p else Some p)"

definition plic_claim_interrupt :: "(nat \<Rightarrow> nat) \<Rightarrow> nat option" where
  "plic_claim_interrupt claim = plic_claim_context_interrupt claim (CTX 0 1)"

definition plic_finish_interrupt :: "nat \<Rightarrow> plic_regs \<Rightarrow> plic_regs option" where
  "plic_finish_interrupt irqno p = plic_complete_context_interrupt (CTX 0 1) irqno p"

subsection \<open>Service routines\<close>

text \<open>An entry of \<open>isrtab\<close>: the routine with its auxiliary argument.\<close>

record 's intrmgr =
  plic :: plic_regs
  isrtab :: "nat \<Rightarrow> (nat \<Rightarrow> 's \<Rightarrow> 's option) option"

definition enable_intr_source :: "int \<Rightarrow> int \<Rightarrow> (nat \<Rightarrow> 's \<Rightarrow> 's option) \<Rightarrow> 's intrmgr \<Rightarrow> 's intrmgr option" where
  "enable_intr_source srcno prio isr m =
     (if \<not> (0 < srcno \<and> srcno < int NIRQ) \<or> \<not> 0 < prio then None
      else do {
        let m = m\<lparr>isrtab := (isrtab m)(nat srcno \<mapsto> isr)\<rparr>;
        p \<leftarrow> plic_enable_source srcno prio (plic m);
        Some (m\<lparr>plic := p\<rparr>)
      })"

text \<open>\<open>None\<close> also when \<open>srcno\<close> is outside \<open>isrtab\<close>.\<close>

definition disable_intr_source :: "int \<Rightarrow> 's intrmgr \<Rightarrow> 's intrmgr option" where
  "disable_intr_source srcno m =
     do {
       p \<leftarrow> plic_disable_source srcno (plic m);
       if 0 \<le> srcno \<and> srcno < int NIRQ
       then Some (m\<lparr>plic := p, isrtab := (isrtab m)(nat srcno := None)\<rparr>)
       else None
     }"

definition handle_extern_interrupt :: "(nat \<Rightarrow> nat) \<Rightarrow> 's intrmgr \<times> 's \<Rightarrow> ('s intrmgr \<times> 's) option" where
  "handle_extern_interrupt claim ms =
     (case ms of (m, s) \<Rightarrow> do {
       srcno \<leftarrow> plic_claim_interrupt claim;
       if \<not> srcno < NIRQ then None
       else if srcno = 0 then Some (m, s)
       else case isrtab m srcno of
         None \<Rightarrow> None
       | Some isr \<Rightarrow> do {
           s \<leftarrow> isr srcno s;
           p \<leftarrow> plic_finish_interrupt srcno (plic m);
           Some (m\<lparr>plic := p\<rparr>, s)
         }
     })"

definition RISCV_SCAUSE_STI :: nat where "RISCV_SCAUSE_STI = 5"
definition RISCV_SCAUSE_SEI :: nat where "RISCV_SCAUSE_SEI = 9"

text \<open>\<open>timer\<close> is \<open>handle_timer_interrupt\<close>.\<close>

definition handle_interrupt ::
  "('s \<Rightarrow> 's option) \<Rightarrow> (nat \<Rightarrow> nat) \<Rightarrow> nat \<Rightarrow> 's intrmgr \<times> 's \<Rightarrow> ('s intrmgr \<times> 's) option"
where
  "handle_interrupt timer claim cause ms =
     (if cause = RISCV_SCAUSE_STI then map_option (Pair (fst ms)) (timer (snd ms))
      else if cause = RISCV_SCAUSE_SEI then handle_extern_interrupt claim ms
      else None)"

definition handle_smode_interrupt ::
  "('s \<Rightarrow> 's option) \<Rightarrow> (nat \<Rightarrow> nat) \<Rightarrow> nat \<Rightarrow> 's intrmgr \<times> 's \<Rightarrow> ('s intrmgr \<times> 's) option"
where
  "handle_smode_interrupt timer claim cause ms = handle_interrupt timer claim cause ms"

text \<open>\<open>yield\<close> is \<open>thread_yield\<close>.\<close>

definition handle_umode_interrupt ::
  "('s \<Rightarrow> 's option) \<Rightarrow> ('s \<Rightarrow> 's option) \<Rightarrow> (nat \<Rightarrow> nat) \<Rightarrow> nat \<Rightarrow> 's intrmgr \<times> 's \<Rightarrow> ('s intrmgr \<times> 's) option"
where
  "handle_umode_interrupt yield timer claim cause ms =
     do {
       (m, s) \<leftarrow> handle_interrupt timer claim cause ms;
       s \<leftarrow> yield s;
       Some (m, s)
     }"

subsection \<open>Every source that can interrupt has a routine\<close>

lemma set_priorities:
  "\<forall>i \<in> set is. i < PLIC_SRC_CNT \<Longrightarrow>
     \<exists>p'. for_each (\<lambda>i. plic_set_source_priority i 0) is p = Some p' \<and>
       (\<forall>j. priority p' j = (if j \<in> set is then 0 else priority p j)) \<and> completed p' = completed p"
proof (induction "is" arbitrary: p)
  case (Cons i "is")
  let ?p = "p\<lparr>priority := (priority p)(i := 0)\<rparr>"
  have "plic_set_source_priority i 0 p = Some ?p"
    using Cons.prems by (simp add: plic_set_source_priority_def)
  with Cons.IH [of ?p] Cons.prems show ?case by auto
qed simp

lemma priority_set_enables [simp]:
  "priority (fold (\<lambda>i. set_enable ctxno i w) is p) = priority p"
  by (induction "is" arbitrary: p) (simp_all add: set_enable_def)

lemma disable_contexts:
  "\<forall>i \<in> set is. i < PLIC_CTX_CNT \<Longrightarrow>
     \<exists>p'. for_each plic_disable_all_sources_for_context is p = Some p' \<and> priority p' = priority p"
proof (induction "is" arbitrary: p)
  case (Cons i "is")
  let ?p = "fold (\<lambda>j. set_enable i j 0) [0..<PLIC_SRC_CNT div 32] p"
  have "plic_disable_all_sources_for_context i p = Some ?p"
    using Cons.prems by (simp add: plic_disable_all_sources_for_context_def)
  with Cons.IH [of ?p] Cons.prems show ?case by auto
qed simp

lemma plic_init_ok:
  "\<exists>p'. plic_init p = Some p' \<and> (\<forall>j < PLIC_SRC_CNT. priority p' j = 0)"
proof -
  obtain p1 where p1: "for_each (\<lambda>i. plic_set_source_priority i 0) [0..<PLIC_SRC_CNT] p = Some p1"
      "\<forall>j. priority p1 j = (if j \<in> set [0..<PLIC_SRC_CNT] then 0 else priority p j)"
    using set_priorities [of "[0..<PLIC_SRC_CNT]" p] by auto
  obtain p2 where p2: "for_each plic_disable_all_sources_for_context [0..<PLIC_CTX_CNT] p1 = Some p2"
      "priority p2 = priority p1"
    using disable_contexts [of "[0..<PLIC_CTX_CNT]" p1] by auto
  have "CTX 0 1 < PLIC_CTX_CNT" by (simp add: CTX_def PLIC_CTX_CNT_def)
  then show ?thesis
    using p1 p2 by (simp add: plic_init_def plic_enable_all_sources_for_context_def)
qed

text \<open>The interrupt manager after initialization and any calls of drivers.\<close>

inductive intr_reach :: "'s intrmgr \<Rightarrow> bool" where
  intr_init: "plic_init p0 = Some p \<Longrightarrow> intr_reach \<lparr>plic = p, isrtab = \<lambda>_. None\<rparr>"
| intr_enable: "intr_reach m \<Longrightarrow> enable_intr_source srcno prio isr m = Some m' \<Longrightarrow> intr_reach m'"
| intr_disable: "intr_reach m \<Longrightarrow> disable_intr_source srcno m = Some m' \<Longrightarrow> intr_reach m'"

definition intr_inv :: "'s intrmgr \<Rightarrow> bool" where
  "intr_inv m \<longleftrightarrow> (\<forall>j < NIRQ. 0 < priority (plic m) j \<longrightarrow> 0 < j \<and> isrtab m j \<noteq> None)"

lemma intr_reach_inv: "intr_reach m \<Longrightarrow> intr_inv m"
proof (induction rule: intr_reach.induct)
  case (intr_init p0 p)
  then show ?case using plic_init_ok [of p0] by (auto simp: intr_inv_def NIRQ_def)
next
  case (intr_enable m srcno prio isr m')
  then show ?case
    by (auto simp: enable_intr_source_def plic_enable_source_def plic_set_source_priority_def intr_inv_def
        bind_eq_Some_conv Let_def split: if_splits)
next
  case (intr_disable m srcno m')
  then show ?case
    by (auto simp: disable_intr_source_def plic_disable_source_def plic_set_source_priority_def intr_inv_def
        bind_eq_Some_conv Let_def split: if_splits)
qed

text \<open>C24: no external interrupt finds the kernel without a service routine. Whatever sources the
  drivers have enabled and disabled since initialization, if the PLIC answers a claim with 0 or
  with a source of non-zero priority, as its specification says, \<open>handle_extern_interrupt\<close> calls
  the routine registered for that source with that source, and completes exactly that source.\<close>

theorem extern_interrupt_served:
  assumes "intr_reach m" and "claim 1 < NIRQ" and "claim 1 = 0 \<or> 0 < priority (plic m) (claim 1)"
    and "\<forall>j isr s. isrtab m j = Some isr \<longrightarrow> isr j s \<noteq> None"
  shows "if claim 1 = 0 then handle_extern_interrupt claim (m, s) = Some (m, s)
    else \<exists>isr m'. isrtab m (claim 1) = Some isr \<and> handle_extern_interrupt claim (m, s) = Some (m', the (isr (claim 1) s)) \<and>
      isrtab m' = isrtab m \<and> completed (plic m') 1 = completed (plic m) 1 @ [claim 1]"
proof -
  have c: "plic_claim_interrupt claim = Some (claim 1)"
    by (simp add: plic_claim_interrupt_def plic_claim_context_interrupt_def CTX_def PLIC_CTX_CNT_def)
  show ?thesis
  proof (cases "claim 1 = 0")
    case True
    then show ?thesis using assms(2) c by (simp add: handle_extern_interrupt_def)
  next
    case False
    obtain isr where isr: "isrtab m (claim 1) = Some isr"
      using intr_reach_inv [OF assms(1)] assms(2,3) False by (auto simp: intr_inv_def)
    obtain s' where "isr (claim 1) s = Some s'" using assms(4) isr by blast
    then show ?thesis
      using False isr assms(2) c
      by (simp add: handle_extern_interrupt_def plic_finish_interrupt_def plic_complete_context_interrupt_def
          CTX_def PLIC_CTX_CNT_def)
  qed
qed

theorem extern_interrupt_served_witness:
  "\<exists>m m'. intr_reach m \<and> handle_extern_interrupt (\<lambda>_. 10) (m, 5) = Some (m', 6 :: int)"
proof -
  obtain p where p: "plic_init \<lparr>priority = \<lambda>_. 0, pending = \<lambda>_. 0, enable = \<lambda>_ _. 0, threshold = \<lambda>_. 0,
      completed = \<lambda>_. []\<rparr> = Some p"
    using plic_init_ok by blast
  let ?isr = "\<lambda>_ s. Some (s + 1 :: int)"
  obtain m where m: "enable_intr_source 10 3 ?isr \<lparr>plic = p, isrtab = \<lambda>_. None\<rparr> = Some m"
      "isrtab m = [10 \<mapsto> ?isr]" "priority (plic m) 10 = 3"
    by (simp add: enable_intr_source_def plic_enable_source_def plic_set_source_priority_def NIRQ_def
        PLIC_SRC_CNT_def PLIC_PRIO_MAX_def)
  have r: "intr_reach m" using intr_enable [OF intr_init [OF p] m(1)] .
  have h: "\<forall>j isr s. isrtab m j = Some isr \<longrightarrow> isr j s \<noteq> None"
    using m(2) by (auto split: if_splits)
  show ?thesis
    using extern_interrupt_served [OF r _ _ h, of "\<lambda>_. 10" 5] m(2,3) r
    by (auto simp: NIRQ_def PLIC_SRC_CNT_def)
qed

end
