(* ===== verification/Strings.thy ===== *)
theory Strings
  imports Prelude "HOL-Library.Monad_Syntax"
begin

text \<open>
  The string and memory functions of kernel/string.c and the formatted output they share with
  user/string.c. A pointer to characters is the list of bytes from there to the end of the object
  it points into (\<open>None\<close> for a null pointer); a function that reads or writes past that end has
  the result \<open>None\<close>. Characters are unsigned bytes, as on RISC-V. A returned pointer is the offset
  from the argument.
\<close>

type_synonym cstr = "byte list"

definition ch :: "char \<Rightarrow> byte" where
  "ch c = of_char c"

subsection \<open>Comparison, length, search\<close>

fun strcmp_loop :: "cstr \<Rightarrow> cstr \<Rightarrow> int option" where
  "strcmp_loop (a # s1) (b # s2) =
     (if a = b \<and> a \<noteq> 0 then strcmp_loop s1 s2
      else Some (if a < b then - 1 else if a > b then 1 else 0))"
| "strcmp_loop _ _ = None"

definition strcmp :: "cstr option \<Rightarrow> cstr option \<Rightarrow> int option" where
  "strcmp p1 p2 =
     (case p1 of
        None \<Rightarrow> Some (if p2 = None then 0 else - 1)
      | Some s1 \<Rightarrow> (case p2 of None \<Rightarrow> Some 1 | Some s2 \<Rightarrow> strcmp_loop s1 s2))"

fun strncmp :: "cstr \<Rightarrow> cstr \<Rightarrow> nat \<Rightarrow> int option" where
  "strncmp s1 s2 0 = Some 0"
| "strncmp (a # s1) (b # s2) (Suc n) =
     (if a \<noteq> 0 \<and> a = b then strncmp s1 s2 n else Some (uint a - uint b))"
| "strncmp _ _ (Suc n) = None"

fun strlen_loop :: "cstr \<Rightarrow> nat \<Rightarrow> nat option" where
  "strlen_loop [] k = None"
| "strlen_loop (c # p) k = (if c \<noteq> 0 then strlen_loop p (k + 1) else Some k)"

definition strlen :: "cstr option \<Rightarrow> nat option" where
  "strlen s = (case s of None \<Rightarrow> Some 0 | Some p \<Rightarrow> strlen_loop p 0)"

text \<open>The destination afterwards.\<close>

fun strncpy :: "byte list \<Rightarrow> cstr \<Rightarrow> nat \<Rightarrow> byte list option" where
  "strncpy dst src 0 = Some dst"
| "strncpy (d # dst) (c # src) (Suc n) =
     (if c \<noteq> 0 then map_option ((#) c) (strncpy dst src n) else Some (0 # dst))"
| "strncpy _ _ (Suc n) = None"

text \<open>\<open>Some None\<close> is the null pointer, \<open>Some (Some i)\<close> the pointer to the \<open>i\<close>th character.\<close>

fun strchr_loop :: "cstr \<Rightarrow> int \<Rightarrow> nat \<Rightarrow> nat option option" where
  "strchr_loop [] c i = None"
| "strchr_loop (a # s) c i =
     (if a \<noteq> 0 then if uint a = c then Some (Some i) else strchr_loop s c (i + 1) else Some None)"

definition strchr :: "cstr \<Rightarrow> int \<Rightarrow> nat option option" where
  "strchr s c = strchr_loop s c 0"

fun strrchr_loop :: "cstr \<Rightarrow> int \<Rightarrow> nat \<Rightarrow> nat option \<Rightarrow> nat option option" where
  "strrchr_loop [] c i p = None"
| "strrchr_loop (a # s) c i p =
     (if a \<noteq> 0 then strrchr_loop s c (i + 1) (if uint a = c then Some i else p) else Some p)"

definition strrchr :: "cstr \<Rightarrow> int \<Rightarrow> nat option option" where
  "strrchr s c = strrchr_loop s c 0 None"

subsection \<open>Memory\<close>

fun memset :: "byte list \<Rightarrow> int \<Rightarrow> nat \<Rightarrow> byte list option" where
  "memset p c 0 = Some p"
| "memset (_ # p) c (Suc n) = map_option ((#) (word_of_int c)) (memset p c n)"
| "memset [] c (Suc n) = None"

fun memcpy :: "byte list \<Rightarrow> byte list \<Rightarrow> nat \<Rightarrow> byte list option" where
  "memcpy dst src 0 = Some dst"
| "memcpy (_ # dst) (b # src) (Suc n) = map_option ((#) b) (memcpy dst src n)"
| "memcpy _ _ (Suc n) = None"

fun memcmp :: "byte list \<Rightarrow> byte list \<Rightarrow> nat \<Rightarrow> int option" where
  "memcmp u v 0 = Some 0"
| "memcmp (a # u) (b # v) (Suc n) = (if a \<noteq> b then Some (uint a - uint b) else memcmp u v n)"
| "memcmp _ _ (Suc n) = None"

subsection \<open>Numbers\<close>

fun strtoul_loop :: "cstr \<Rightarrow> int \<Rightarrow> bool \<Rightarrow> nat \<Rightarrow> nat \<Rightarrow> (nat \<times> nat option) option" where
  "strtoul_loop [] base neg val i = None"
| "strtoul_loop (c # str) base neg val i =
     (if uint c < 48 \<or> 48 + base \<le> uint c
      then Some (if neg then u64 (18446744073709551616 - val) else val, Some i)
      else strtoul_loop str base neg (u64 (u64 (val * nat base) + nat (uint c - 48))) (i + 1))"

text \<open>The value and \<open>*endptr\<close>.\<close>

definition strtoul :: "cstr option \<Rightarrow> int \<Rightarrow> (nat \<times> nat option) option" where
  "strtoul str base =
     (if str = None \<or> base \<le> 1 \<or> 10 < base then Some (18446744073709551615, None)
      else case the str of
        [] \<Rightarrow> None
      | c # s \<Rightarrow>
          if c = ch CHR ''-'' then strtoul_loop s base True 0 1
          else if c = ch CHR ''+'' then strtoul_loop s base False 0 1
          else strtoul_loop (c # s) base False 0 0)"

subsection \<open>Formatted output\<close>

text \<open>
  The callback \<open>putcfn\<close> returns nothing, so a formatting function is the list of characters it
  passes to the callback, in order, and the count it returns.
\<close>

type_synonym emitted = "byte list \<times> nat"

definition digit_char :: "nat \<Rightarrow> byte" where
  "digit_char d = (if d < 10 then ch CHR ''0'' + word_of_nat d else ch CHR ''a'' + word_of_nat d - 10)"

text \<open>The digits written to \<open>buf\<close> from its end; \<open>room\<close> bytes of it are left.\<close>

fun int_digits :: "nat \<Rightarrow> nat \<Rightarrow> nat \<Rightarrow> byte list \<Rightarrow> byte list option" where
  "int_digits 0 val base acc = None"
| "int_digits (Suc room) val base acc =
     (let acc = digit_char (val mod base) # acc
      in if val div base \<noteq> 0 then int_digits room (val div base) base acc else Some acc)"

fun pad_loop :: "byte \<Rightarrow> nat \<Rightarrow> nat \<Rightarrow> byte list" where
  "pad_loop c k 0 = []"
| "pad_loop c k (Suc len) = (if k < Suc len then c # pad_loop c k len else [])"

definition format_int :: "nat \<Rightarrow> nat \<Rightarrow> bool \<Rightarrow> nat \<Rightarrow> emitted option" where
  "format_int val base zpad len =
     do {
       ds \<leftarrow> int_digits 40 val base [];
       let pad = pad_loop (if zpad then ch CHR ''0'' else ch CHR '' '') (length ds) len;
       Some (pad @ ds, length pad + length ds)
     }"

fun str_chars :: "cstr \<Rightarrow> byte list option" where
  "str_chars [] = None"
| "str_chars (c # s) = (if c \<noteq> 0 then map_option ((#) c) (str_chars s) else Some [])"

definition format_str :: "cstr option \<Rightarrow> nat \<Rightarrow> emitted option" where
  "format_str s len =
     do {
       cs \<leftarrow> str_chars (case s of None \<Rightarrow> map ch ''(null)'' @ [0] | Some s \<Rightarrow> s);
       let nout = length cs;
       Some (if nout < len then (cs @ replicate (len - nout) (ch CHR '' ''), nout + (len - nout)) else (cs, nout))
     }"

definition format_char :: "byte \<Rightarrow> nat \<Rightarrow> emitted" where
  "format_char c len =
     (let len = (if len \<le> 0 then 1 else len) in (replicate (len - 1) (ch CHR '' '') @ [c], len))"

text \<open>A variable argument: a 64-bit slot, or a pointer to characters.\<close>

datatype va = VWord "64 word" | VStr "cstr option"

definition va_word :: "va list \<Rightarrow> (64 word \<times> va list) option" where
  "va_word ap = (case ap of VWord w # ap \<Rightarrow> Some (w, ap) | _ \<Rightarrow> None)"

definition va_str :: "va list \<Rightarrow> (cstr option \<times> va list) option" where
  "va_str ap = (case ap of VStr s # ap \<Rightarrow> Some (s, ap) | _ \<Rightarrow> None)"

text \<open>\<open>va_arg\<close> for \<open>int\<close> takes the low 32 bits of the slot, read as signed or unsigned.\<close>

definition va_signed :: "nat \<Rightarrow> 64 word \<Rightarrow> 64 word" where
  "va_signed lcnt w = (if lcnt > 0 then w else scast (ucast w :: 32 word))"

definition va_unsigned :: "nat \<Rightarrow> 64 word \<Rightarrow> 64 word" where
  "va_unsigned lcnt w = (if lcnt > 0 then w else ucast (ucast w :: 32 word))"

definition conv_signed :: "nat \<Rightarrow> bool \<Rightarrow> nat \<Rightarrow> va list \<Rightarrow> (emitted \<times> va list) option" where
  "conv_signed lcnt zpad len ap =
     do {
       (w, ap) \<leftarrow> va_word ap;
       let ival = va_signed lcnt w;
       if ival <s 0
       then do {
         (out, n) \<leftarrow> format_int (unat (- ival)) 10 zpad (if len > 0 then len - 1 else len);
         Some ((ch CHR ''-'' # out, 1 + n), ap)
       }
       else do {
         e \<leftarrow> format_int (unat ival) 10 zpad len;
         Some (e, ap)
       }
     }"

definition conv_unsigned :: "nat \<Rightarrow> nat \<Rightarrow> bool \<Rightarrow> nat \<Rightarrow> va list \<Rightarrow> (emitted \<times> va list) option" where
  "conv_unsigned base lcnt zpad len ap =
     do {
       (w, ap) \<leftarrow> va_word ap;
       e \<leftarrow> format_int (unat (va_unsigned lcnt w)) base zpad len;
       Some (e, ap)
     }"

definition conv_str :: "nat \<Rightarrow> va list \<Rightarrow> (emitted \<times> va list) option" where
  "conv_str len ap =
     do {
       (s, ap) \<leftarrow> va_str ap;
       e \<leftarrow> format_str s len;
       Some (e, ap)
     }"

definition conv_ptr :: "bool \<Rightarrow> nat \<Rightarrow> va list \<Rightarrow> (emitted \<times> va list) option" where
  "conv_ptr zpad len ap =
     do {
       (w, ap) \<leftarrow> va_word ap;
       (o1, n1) \<leftarrow> format_str (Some (map ch ''0x'' @ [0])) 2;
       (o2, n2) \<leftarrow> format_int (unat w) 16 zpad len;
       Some ((o1 @ o2, n1 + n2), ap)
     }"

text \<open>
  The \<open>switch\<close> on the conversion character; \<open>None\<close> inside: the default branch. The kernel's
  \<open>%c\<close> pads, the user library's does not and has no \<open>%i\<close>.
\<close>

definition conv_kernel :: "byte \<Rightarrow> nat \<Rightarrow> bool \<Rightarrow> nat \<Rightarrow> va list \<Rightarrow> (emitted \<times> va list) option option" where
  "conv_kernel c lcnt zpad len ap =
     (if c = ch CHR ''d'' \<or> c = ch CHR ''i'' then Some (conv_signed lcnt zpad len ap)
      else if c = ch CHR ''u'' then Some (conv_unsigned 10 lcnt zpad len ap)
      else if c = ch CHR ''x'' then Some (conv_unsigned 16 lcnt zpad len ap)
      else if c = ch CHR ''s'' then Some (conv_str len ap)
      else if c = ch CHR ''c''
      then Some (map_option (\<lambda>(w, ap). (format_char (ucast w) len, ap)) (va_word ap))
      else if c = ch CHR ''p'' then Some (conv_ptr zpad len ap)
      else None)"

definition conv_user :: "byte \<Rightarrow> nat \<Rightarrow> bool \<Rightarrow> nat \<Rightarrow> va list \<Rightarrow> (emitted \<times> va list) option option" where
  "conv_user c lcnt zpad len ap =
     (if c = ch CHR ''d'' then Some (conv_signed lcnt zpad len ap)
      else if c = ch CHR ''u'' then Some (conv_unsigned 10 lcnt zpad len ap)
      else if c = ch CHR ''x'' then Some (conv_unsigned 16 lcnt zpad len ap)
      else if c = ch CHR ''s'' then Some (conv_str len ap)
      else if c = ch CHR ''c''
      then Some (map_option (\<lambda>(w, ap). (([ucast w], 1), ap)) (va_word ap))
      else if c = ch CHR ''p'' then Some (conv_ptr zpad len ap)
      else None)"

fun parse_width :: "byte list \<Rightarrow> nat \<Rightarrow> nat \<times> byte list" where
  "parse_width (c # p) len =
     (if ch CHR ''0'' \<le> c \<and> c \<le> ch CHR ''9'' then parse_width p (u32 (u32 (10 * len) + nat (uint c - 48)))
      else (len, c # p))"
| "parse_width [] len = (len, [])"

fun parse_ls :: "byte list \<Rightarrow> nat \<Rightarrow> nat \<times> byte list" where
  "parse_ls (c # p) lcnt = (if c = ch CHR ''l'' then parse_ls p (u32 (lcnt + 1)) else (lcnt, c # p))"
| "parse_ls [] lcnt = (lcnt, [])"

text \<open>\<open>%z\<close> and \<open>%j\<close>: \<open>size_t\<close>, \<open>intmax_t\<close>, \<open>long\<close> and \<open>long long\<close> have the same size.\<close>

definition parse_prefix :: "byte list \<Rightarrow> nat \<times> byte list" where
  "parse_prefix p =
     (case parse_ls p 0 of (lcnt, p) \<Rightarrow>
       case p of
         c # p' \<Rightarrow> if c = ch CHR ''z'' \<or> c = ch CHR ''j'' then (2, p') else (lcnt, p)
       | [] \<Rightarrow> (lcnt, p))"

lemma parse_width_length: "length (snd (parse_width p len)) \<le> length p"
  by (induction p len rule: parse_width.induct) auto

lemma parse_ls_length: "length (snd (parse_ls p n)) \<le> length p"
  by (induction p n rule: parse_ls.induct) auto

lemma parse_prefix_length: "length (snd (parse_prefix p)) \<le> length p"
  using parse_ls_length [of p 0]
  by (auto simp: parse_prefix_def split: prod.splits list.splits)

type_synonym conv = "byte \<Rightarrow> nat \<Rightarrow> bool \<Rightarrow> nat \<Rightarrow> va list \<Rightarrow> (emitted \<times> va list) option option"

definition emit :: "emitted \<Rightarrow> emitted option \<Rightarrow> emitted option" where
  "emit e r = map_option (\<lambda>(out, n). (fst e @ out, snd e + n)) r"

lemma format_step_length:
  assumes "parse_width p 0 = (len, p1)" and "parse_prefix p1 = (lcnt, d # p2)"
  shows "length p2 < length p"
  using parse_width_length [of p 0] parse_prefix_length [of p1] assms by simp

text \<open>After the default branch has met the end of the format the loop ends there.\<close>

function vgprintf_with :: "conv \<Rightarrow> byte list \<Rightarrow> va list \<Rightarrow> emitted option" where
  "vgprintf_with conv [] ap = None"
| "vgprintf_with conv (c # p) ap =
     (if c = 0 then Some ([], 0)
      else if c = ch CHR ''%''
      then (let zpad = (case p of [] \<Rightarrow> False | d # _ \<Rightarrow> d = ch CHR ''0'');
                (len, p) = parse_width p 0;
                (lcnt, p) = parse_prefix p
            in case p of
                 [] \<Rightarrow> None
               | d # p' \<Rightarrow>
                   case conv d lcnt zpad len ap of
                     Some r \<Rightarrow> do { (e, ap) \<leftarrow> r; emit e (vgprintf_with conv p' ap) }
                   | None \<Rightarrow>
                       if d = 0 then Some ([ch CHR ''%'', ch CHR ''?''], 2)
                       else emit ([ch CHR ''%'', if d < ch CHR '' '' \<or> 0x7F \<le> d then ch CHR ''?'' else d], 2)
                              (vgprintf_with conv p' ap))
      else emit ([c], 1) (vgprintf_with conv p ap))"
  by pat_completeness auto

termination
  by (relation "measure (\<lambda>(conv, p, ap). length p)") 
    (auto, (metis format_step_length less_SucI)+)

definition vgprintf :: "byte list \<Rightarrow> va list \<Rightarrow> emitted option" where
  "vgprintf fmt ap = vgprintf_with conv_kernel fmt ap"

subsection \<open>Output to a buffer\<close>

record vsnprintf_state =
  vpos :: nat
  vrem :: nat
  vbuf :: "byte list"

definition vsnprintf_putc :: "byte \<Rightarrow> vsnprintf_state \<Rightarrow> vsnprintf_state option" where
  "vsnprintf_putc c st =
     (if vrem st \<le> 1 then Some st
      else if vpos st < length (vbuf st)
      then Some (st\<lparr>vbuf := (vbuf st)[vpos st := c], vpos := vpos st + 1, vrem := vrem st - 1\<rparr>)
      else None)"

fun vsnprintf_puts :: "byte list \<Rightarrow> vsnprintf_state \<Rightarrow> vsnprintf_state option" where
  "vsnprintf_puts [] st = Some st"
| "vsnprintf_puts (c # cs) st = Option.bind (vsnprintf_putc c st) (vsnprintf_puts cs)"

text \<open>The return value and the buffer afterwards.\<close>

definition vsnprintf :: "byte list \<Rightarrow> nat \<Rightarrow> byte list \<Rightarrow> va list \<Rightarrow> (nat \<times> byte list) option" where
  "vsnprintf buf bufsz fmt ap =
     do {
       (out, n) \<leftarrow> vgprintf fmt ap;
       st \<leftarrow> vsnprintf_puts out \<lparr>vpos = 0, vrem = bufsz, vbuf = buf\<rparr>;
       if vrem st \<noteq> 0
       then if vpos st < length (vbuf st) then Some (n, (vbuf st)[vpos st := 0]) else None
       else Some (n, vbuf st)
     }"

subsection \<open>Comparison\<close>

lemma strcmp_loop_lex:
  "0 \<notin> set s \<Longrightarrow> 0 \<notin> set t \<Longrightarrow> strcmp_loop (s @ 0 # x) (t @ 0 # y) =
     Some (if s = t then 0 else if (s, t) \<in> lexord {(a, b). a < b} then - 1 else 1)"
proof (induction s arbitrary: t)
  case Nil
  then show ?case by (cases t) (auto simp: word_greater_zero_iff)
next
  case (Cons a s)
  show ?case
  proof (cases t)
    case Nil
    with Cons.prems show ?thesis by (auto simp: word_greater_zero_iff)
  next
    case (Cons b t')
    with Cons.prems Cons.IH [of t'] show ?thesis by auto
  qed
qed

text \<open>\<open>strcmp\<close> on two strings is the lexicographic comparison of their characters, read as
  unsigned bytes: 0 exactly for equal strings, -1 when the first comes before the second and 1
  otherwise.\<close>

theorem strcmp_lexicographic:
  assumes "0 \<notin> set s" and "0 \<notin> set t"
  shows "strcmp (Some (s @ 0 # x)) (Some (t @ 0 # y)) =
    Some (if s = t then 0 else if (s, t) \<in> lexord {(a, b). a < b} then - 1 else 1)"
  using strcmp_loop_lex [OF assms] by (simp add: strcmp_def)

theorem strcmp_lexicographic_witness:
  "strcmp (Some ([104, 105] @ 0 # [])) (Some ([104, 105, 33] @ 0 # [7])) = Some (- 1)"
  using strcmp_lexicographic [of "[104, 105]" "[104, 105, 33]" "[]" "[7]"] by simp

subsection \<open>Digits\<close>

definition dec_step :: "nat \<Rightarrow> byte \<Rightarrow> nat" where
  "dec_step v c = 10 * v + (unat c - 48)"

definition is_digit :: "byte \<Rightarrow> bool" where
  "is_digit c \<longleftrightarrow> 48 \<le> unat c \<and> unat c < 58"

lemma digit_char_10: "d < 10 \<Longrightarrow> unat (digit_char d) = 48 + d"
  by (simp add: digit_char_def ch_def unat_word_ariths unat_of_nat)

lemma int_digits_10:
  "val < 10 ^ Suc room \<Longrightarrow> \<exists>ds. int_digits (Suc room) val 10 acc = Some (ds @ acc) \<and>
     list_all is_digit ds \<and> foldl dec_step 0 ds = val \<and> ds \<noteq> [] \<and> length ds \<le> Suc room"
proof (induction room arbitrary: val acc)
  case 0
  then have "val div 10 = 0" "val mod 10 = val" by simp_all
  then show ?case
    by (intro exI [of _ "[digit_char val]"]) (use 0 in \<open>simp add: digit_char_10 is_digit_def dec_step_def\<close>)
next
  case (Suc room)
  let ?c = "digit_char (val mod 10)"
  have c: "is_digit ?c" "\<And>v. dec_step v ?c = 10 * v + val mod 10"
    by (simp_all add: is_digit_def dec_step_def digit_char_10)
  show ?case
  proof (cases "val div 10 = 0")
    case True
    then show ?thesis
      by (intro exI [of _ "[?c]"]) (use c in \<open>simp add: Let_def div_eq_0_iff\<close>)
  next
    case False
    have "val div 10 < 10 ^ Suc room"
      using Suc.prems by (intro less_mult_imp_div_less) (simp add: ac_simps)
    from Suc.IH [OF this, of "?c # acc"] obtain ds where
      ds: "int_digits (Suc room) (val div 10) 10 (?c # acc) = Some (ds @ ?c # acc)"
        "list_all is_digit ds" "foldl dec_step 0 ds = val div 10" "ds \<noteq> []" "length ds \<le> Suc room"
      by blast
    have "int_digits (Suc (Suc room)) val 10 acc = Some ((ds @ [?c]) @ acc)"
      by (subst int_digits.simps) (use False ds(1) in \<open>simp add: Let_def del: int_digits.simps\<close>)
    then show ?thesis
      by (intro exI [of _ "ds @ [?c]"]) (use ds c in simp)
  qed
qed

lemma dec_step_mono: "v \<le> foldl dec_step v ds"
proof (induction ds arbitrary: v)
  case (Cons c ds)
  have "v \<le> dec_step v c" by (simp add: dec_step_def)
  also have "\<dots> \<le> foldl dec_step (dec_step v c) ds" by (rule Cons.IH)
  finally show ?case by simp
qed simp

lemma strtoul_digits:
  "list_all is_digit ds \<Longrightarrow> foldl dec_step v ds < 18446744073709551616 \<Longrightarrow>
     strtoul_loop (ds @ 0 # rest) 10 False v i = Some (foldl dec_step v ds, Some (i + length ds))"
proof (induction ds arbitrary: v i)
  case (Cons c ds)
  have d: "48 \<le> unat c" "unat c < 58" using Cons.prems(1) by (simp_all add: is_digit_def)
  have bnd: "dec_step v c < 18446744073709551616"
    using Cons.prems(2) dec_step_mono [of "dec_step v c" ds] by simp
  then have "u64 (u64 (v * 10) + (unat c - 48)) = dec_step v c"
    by (simp add: dec_step_def)
  moreover have "nat (uint c - 48) = unat c - 48" using d unfolding uint_nat by arith
  moreover have "\<not> (uint c < 48 \<or> 48 + 10 \<le> uint c)"
    using d unfolding uint_nat by arith
  ultimately show ?case using Cons.IH [of "dec_step v c" "i + 1"] Cons.prems by simp
qed simp

lemma int_digits_more:
  "int_digits r val base acc = Some ds \<Longrightarrow> int_digits (r + k) val base acc = Some ds"
  by (induction r val base acc rule: int_digits.induct) (auto simp: Let_def split: if_splits)

lemma int_digits_unfold:
  "0 < room \<Longrightarrow> int_digits room val base acc =
     (let acc = digit_char (val mod base) # acc
      in if val div base \<noteq> 0 then int_digits (room - 1) (val div base) base acc else Some acc)"
  by (cases room) (simp_all add: Let_def)

lemma pad_loop_eq: "pad_loop c k len = replicate (len - k) c"
  by (induction c k len rule: pad_loop.induct) (auto simp: Suc_diff_le)

text \<open>C21: printing and parsing numbers. \<open>format_int\<close> in base 10 with no width never runs off its
  40-byte buffer: it writes at most 20 digits, and \<open>strtoul\<close> reads them back to the same 64-bit
  value and stops at the terminator.\<close>

theorem format_int_strtoul:
  assumes "val < 2 ^ 64"
  shows "\<exists>ds. format_int val 10 zpad 0 = Some (ds, length ds) \<and> ds \<noteq> [] \<and> length ds \<le> 20 \<and>
    strtoul (Some (ds @ 0 # rest)) 10 = Some (val, Some (length ds))"
proof -
  have "val < 10 ^ Suc 19" using assms by simp
  from int_digits_10 [OF this, of "[]"] obtain ds where
    ds: "int_digits (Suc 19) val 10 [] = Some ds" "list_all is_digit ds" "foldl dec_step 0 ds = val"
      "ds \<noteq> []" "length ds \<le> 20"
    by auto
  have "int_digits 40 val 10 [] = Some ds"
    using int_digits_more [OF ds(1), of 20] by simp
  then have "format_int val 10 zpad 0 = Some (ds, length ds)"
    by (simp add: format_int_def)
  moreover obtain c cs where c: "ds = c # cs" "is_digit c"
    using ds(2,4) by (cases ds) auto
  have "c \<noteq> ch CHR ''-''" "c \<noteq> ch CHR ''+''"
    using c(2) by (auto simp: is_digit_def ch_def)
  then have "strtoul (Some (ds @ 0 # rest)) 10 = Some (val, Some (length ds))"
    using strtoul_digits [of ds 0 rest 0] ds(2,3) assms c(1) by (simp add: strtoul_def)
  ultimately show ?thesis using ds(4,5) by blast
qed

theorem format_int_strtoul_witness:
  "\<exists>ds. format_int 90210 10 False 0 = Some (ds, length ds) \<and>
    strtoul (Some (ds @ [0])) 10 = Some (90210, Some (length ds))"
  using format_int_strtoul [of 90210 False "[]"] by auto

subsection \<open>Counting\<close>

text \<open>The count a conversion returns is the number of characters it has put out.\<close>

definition counted :: "(emitted \<times> va list) option \<Rightarrow> bool" where
  "counted r = (case r of None \<Rightarrow> True | Some (e, ap) \<Rightarrow> snd e = length (fst e))"

lemma format_int_count: "format_int val base zpad len = Some e \<Longrightarrow> snd e = length (fst e)"
  by (auto simp: format_int_def bind_eq_Some_conv Let_def)

lemma format_str_count: "format_str s len = Some e \<Longrightarrow> snd e = length (fst e)"
  by (auto simp: format_str_def bind_eq_Some_conv Let_def split: if_splits)

lemma format_char_count: "format_char c len = e \<Longrightarrow> snd e = length (fst e)"
  by (auto simp: format_char_def Let_def)

lemmas format_counts = format_int_count format_str_count format_char_count
lemmas conv_defs = conv_signed_def conv_unsigned_def conv_str_def conv_ptr_def

lemma conv_kernel_counted:
  "conv_kernel c lcnt zpad len ap = Some r \<Longrightarrow> counted r"
  by (auto simp: conv_kernel_def counted_def conv_defs bind_eq_Some_conv Let_def dest!: format_counts
      split: if_splits option.splits)

lemma conv_user_counted:
  "conv_user c lcnt zpad len ap = Some r \<Longrightarrow> counted r"
  by (auto simp: conv_user_def counted_def conv_defs bind_eq_Some_conv Let_def dest!: format_counts
      split: if_splits option.splits)

lemma emit_Some: "emit e r = Some (out, n) \<longleftrightarrow>
    (\<exists>o' n'. r = Some (o', n') \<and> out = fst e @ o' \<and> n = snd e + n')"
  by (auto simp: emit_def)

lemma vgprintf_with_count:
  assumes conv: "\<And>c lcnt zpad len ap r. conv c lcnt zpad len ap = Some r \<Longrightarrow> counted r"
  shows "vgprintf_with conv p ap = Some (out, n) \<Longrightarrow> n = length out"
proof (induction "length p" arbitrary: p ap out n rule: less_induct)
  case less
  note IH = less.hyps
  obtain c q where p: "p = c # q" using less.prems by (cases p) auto
  show ?case
  proof (cases "c \<noteq> 0 \<and> c = ch CHR ''%''")
    case False
    then show ?thesis
      using less.prems IH [of q] p by (auto simp: emit_Some split: if_splits)
  next
    case True
    obtain len p1 lcnt p2 where e: "parse_width q 0 = (len, p1)" "parse_prefix p1 = (lcnt, p2)"
      by fastforce
    obtain d p' where d: "p2 = d # p'" using less.prems p True e by (cases p2) auto
    have lt: "length p' < length p" using format_step_length [of q len p1 lcnt d p'] e d p by simp
    let ?z = "case q of [] \<Rightarrow> False | d # _ \<Rightarrow> d = ch CHR ''0''"
    show ?thesis
    proof (cases "conv d lcnt ?z len ap")
      case None
      then show ?thesis
        using less.prems p True e d IH [OF lt] by (auto simp: emit_Some split: if_splits)
    next
      case (Some r)
      with less.prems p True e d obtain e' ap' where r: "r = Some (e', ap')"
          "emit e' (vgprintf_with conv p' ap') = Some (out, n)"
        by (auto simp: bind_eq_Some_conv)
      then show ?thesis
        using IH [OF lt] conv [OF Some] by (auto simp: emit_Some counted_def)
    qed
  qed
qed

subsection \<open>Printing into a buffer\<close>

lemma vsnprintf_puts_ok:
  assumes "pos + rem \<le> length buf" and "0 < rem"
  shows "vsnprintf_puts out \<lparr>vpos = pos, vrem = rem, vbuf = buf\<rparr> =
    Some \<lparr>vpos = pos + min (rem - 1) (length out), vrem = rem - min (rem - 1) (length out),
          vbuf = take pos buf @ take (rem - 1) out @ drop (pos + min (rem - 1) (length out)) buf\<rparr>"
  using assms
proof (induction out arbitrary: pos rem buf)
  case (Cons c out)
  show ?case
  proof (cases "rem \<le> 1")
    case True
    then have "rem = 1" using Cons.prems by simp
    then show ?thesis
      using Cons.IH [of pos 1 buf] Cons.prems by (simp add: vsnprintf_putc_def)
  next
    case False
    then obtain r where r: "rem = Suc (Suc r)" by (metis Suc_diff_Suc diff_Suc_1 not_le Suc_pred less_imp_Suc_add One_nat_def)
    have pos: "pos < length buf" using Cons.prems r by simp
    have "take (Suc pos) (buf[pos := c]) = take pos buf @ [c]"
      using pos by (simp add: take_Suc_conv_app_nth)
    then show ?thesis
      using Cons.IH [of "pos + 1" "Suc r" "buf[pos := c]"] Cons.prems r pos
      by (simp add: vsnprintf_putc_def)
  qed
qed simp

text \<open>C22: \<open>vsnprintf\<close> writes at most \<open>bufsz\<close> bytes: with a buffer of at least that size it puts the
  first \<open>bufsz - 1\<close> characters of the whole output, a terminator after them, and leaves the rest
  of the buffer alone; it returns the length of the whole output, whether it fits or not.\<close>

theorem vsnprintf_bounded:
  assumes "0 < bufsz" and "bufsz \<le> length buf" and "vgprintf fmt ap = Some (out, n)"
  shows "n = length out \<and> vsnprintf buf bufsz fmt ap =
    Some (n, take (bufsz - 1) out @ 0 # drop (Suc (min (bufsz - 1) (length out))) buf)"
proof -
  let ?k = "min (bufsz - 1) (length out)"
  have n: "n = length out"
    using vgprintf_with_count [OF conv_kernel_counted] assms(3) by (simp add: vgprintf_def)
  have k: "?k < length buf" using assms(1,2) by simp
  have "(take (bufsz - 1) out @ drop ?k buf)[?k := 0] = take (bufsz - 1) out @ 0 # drop (Suc ?k) buf"
  proof -
    have "length (take (bufsz - 1) out) = ?k" by simp
    moreover have "drop ?k buf = buf ! ?k # drop (Suc ?k) buf" using k by (simp add: Cons_nth_drop_Suc)
    ultimately show ?thesis by (simp add: list_update_append)
  qed
  then show ?thesis
    using vsnprintf_puts_ok [of 0 bufsz buf out] assms k n by (auto simp: vsnprintf_def)
qed

theorem vsnprintf_bounded_witness:
  "vsnprintf (replicate 8 255) 6 (map ch ''x=%04d!'' @ [0]) [VWord 42] =
    Some (7, map ch ''x=004'' @ [0, 255, 255])"
proof -
  have ns: "\<not> (42 :: 64 word) <s 0" by (simp add: word_sless_alt)
  have r2: "replicate 2 (48 :: byte) = [48, 48]" by (simp add: numeral_eq_Suc)
  have "vgprintf (map ch ''x=%04d!'' @ [0]) [VWord 42] = Some (map ch ''x=0042!'', 7)"
    by (simp add: vgprintf_def ch_def parse_prefix_def conv_kernel_def conv_signed_def va_word_def va_signed_def
        emit_def format_int_def digit_char_def Let_def pad_loop_eq int_digits_unfold ns r2)
  from vsnprintf_bounded [OF _ _ this, of 6 "replicate 8 255"] show ?thesis
    by (simp add: numeral_eq_Suc)
qed

end
