(* ===== verification/Device.thy ===== *)
theory Device
  imports Strings
begin

text \<open>
  The device manager of kernel/device.c: the table of device names and open functions, and the
  parser of device specifications. A name is a terminated string. The open function is a value of
  a type parameter; \<open>open_device\<close> gives the function it calls, or the error it returns. \<open>None\<close> is
  a panic or a read outside a string.
\<close>

definition NDEV :: nat where "NDEV = 16"
definition INT_MAX :: nat where "INT_MAX = 2147483647"

subsection \<open>The table\<close>

record 'f devent =
  dname :: cstr
  openfn :: "'f option"

type_synonym 'f devtab = "'f devent option list"

fun register_loop :: "'f devtab \<Rightarrow> cstr \<Rightarrow> 'f option \<Rightarrow> int \<Rightarrow> (int \<times> 'f devtab) option" where
  "register_loop [] name f instno = None"
| "register_loop (None # tab) name f instno = Some (instno, Some \<lparr>dname = name, openfn = f\<rparr> # tab)"
| "register_loop (Some e # tab) name f instno =
     do {
       r \<leftarrow> strcmp (Some name) (Some (dname e));
       (k, tab) \<leftarrow> register_loop tab name f (if r = 0 then instno + 1 else instno);
       Some (k, Some e # tab)
     }"

definition register_device :: "cstr option \<Rightarrow> 'f option \<Rightarrow> 'f devtab \<Rightarrow> (int \<times> 'f devtab) option" where
  "register_device name f tab = (case name of None \<Rightarrow> None | Some name \<Rightarrow> register_loop tab name f 0)"

fun open_loop :: "'f devtab \<Rightarrow> cstr \<Rightarrow> int \<Rightarrow> int \<Rightarrow> (int + 'f) option" where
  "open_loop [] name instno k = Some (Inl (- ENODEV))"
| "open_loop (None # tab) name instno k = Some (Inl (- ENODEV))"
| "open_loop (Some e # tab) name instno k =
     do {
       r \<leftarrow> strcmp (Some name) (Some (dname e));
       if r = 0
       then if k = instno
            then Some (case openfn e of Some f \<Rightarrow> Inr f | None \<Rightarrow> Inl (- ENOTSUP))
            else open_loop tab name instno (k + 1)
       else open_loop tab name instno k
     }"

definition open_device :: "cstr \<Rightarrow> int \<Rightarrow> 'f devtab \<Rightarrow> (int + 'f) option" where
  "open_device name instno tab = open_loop tab name instno 0"

subsection \<open>Device specifications\<close>

text \<open>The scan: the position after it and the start of the number, or no result for a bad character.\<close>

fun spec_scan :: "cstr \<Rightarrow> nat \<Rightarrow> nat option \<Rightarrow> (nat \<times> nat option) option option" where
  "spec_scan [] i p = None"
| "spec_scan (c # s) i p =
     (if c = 0 then Some (Some (i, p))
      else if 48 \<le> c \<and> c \<le> 57 then spec_scan s (i + 1) (if p = None then Some i else p)
      else if 32 < c \<and> c < 127 then spec_scan s (i + 1) None
      else Some None)"

text \<open>The return value and the string afterwards.\<close>

definition parse_device_spec :: "cstr \<Rightarrow> (int \<times> cstr) option" where
  "parse_device_spec spec =
     do {
       r \<leftarrow> spec_scan spec 0 None;
       case r of
         None \<Rightarrow> Some (- EINVAL, spec)
       | Some (i, p) \<Rightarrow>
           (case p of
              None \<Rightarrow> Some (- EINVAL, spec)
            | Some p \<Rightarrow>
                if p \<noteq> i
                then do {
                  (ulval, e) \<leftarrow> strtoul (Some (drop p spec)) 10;
                  if ulval \<le> INT_MAX \<and> e \<noteq> None \<and> p + the e < length spec \<and> spec ! (p + the e) = 0
                  then Some (int ulval, spec[p := 0])
                  else Some (- EINVAL, spec)
                }
                else Some (- EINVAL, spec))
     }"

subsection \<open>Registration and opening\<close>

definition is_name :: "cstr \<Rightarrow> bool" where
  "is_name s \<longleftrightarrow> s \<noteq> [] \<and> last s = 0 \<and> 0 \<notin> set (butlast s)"

lemma is_nameE: "is_name s \<Longrightarrow> \<exists>s'. s = s' @ [0] \<and> 0 \<notin> set s'"
  by (cases s rule: rev_cases) (auto simp: is_name_def)

lemma strcmp_names:
  assumes "is_name s" and "is_name t"
  shows "\<exists>r. strcmp (Some s) (Some t) = Some r \<and> (r = 0 \<longleftrightarrow> s = t)"
proof -
  obtain s' where s: "s = s' @ 0 # []" "0 \<notin> set s'" using is_nameE [OF assms(1)] by blast
  obtain t' where t: "t = t' @ 0 # []" "0 \<notin> set t'" using is_nameE [OF assms(2)] by blast
  let ?r = "if s' = t' then 0 else if (s', t') \<in> lexord {(a, b). a < b} then - 1 else 1 :: int"
  have "strcmp (Some s) (Some t) = Some ?r"
    unfolding strcmp_def option.case s(1) t(1) by (rule strcmp_loop_lex [OF s(2) t(2)])
  moreover have "?r = 0 \<longleftrightarrow> s = t" unfolding s(1) t(1) by simp
  ultimately show ?thesis by blast
qed

lemma register_loop_ok:
  assumes "is_name name" and "list_all (is_name \<circ> dname) es"
  shows "register_loop (map Some es @ None # rest) name f i =
    Some (i + int (length [e \<leftarrow> es. dname e = name]), map Some es @ Some \<lparr>dname = name, openfn = f\<rparr> # rest)"
  using assms(2)
proof (induction es arbitrary: i)
  case (Cons e es)
  obtain r where "strcmp (Some name) (Some (dname e)) = Some r" "r = 0 \<longleftrightarrow> name = dname e"
    using strcmp_names [OF assms(1), of "dname e"] Cons.prems by auto
  then show ?case using Cons by (auto simp: algebra_simps)
qed simp

lemma open_loop_ok:
  assumes "is_name name" and "list_all (is_name \<circ> dname) es"
  shows "open_loop (map Some es @ replicate n None) name instno k =
    Some (let ms = [e \<leftarrow> es. dname e = name]; j = instno - k
          in if 0 \<le> j \<and> j < int (length ms)
             then case openfn (ms ! nat j) of Some f \<Rightarrow> Inr f | None \<Rightarrow> Inl (- ENOTSUP)
             else Inl (- ENODEV))"
  using assms(2)
proof (induction es arbitrary: k)
  case Nil
  then show ?case by (cases n) (auto simp: Let_def)
next
  case (Cons e es)
  obtain r where r: "strcmp (Some name) (Some (dname e)) = Some r" "r = 0 \<longleftrightarrow> name = dname e"
    using strcmp_names [OF assms(1), of "dname e"] Cons.prems by auto
  show ?case
  proof (cases "dname e = name")
    case False
    then show ?thesis using Cons r by auto
  next
    case True
    consider "instno = k" | "instno < k" | "k < instno" by linarith
    then show ?thesis
    proof cases
      case 3
      then have "nat (instno - k) = Suc (nat (instno - (k + 1)))" by simp
      then show ?thesis using 3 True Cons r by (auto simp: Let_def)
    qed (use True Cons r in \<open>auto simp: Let_def\<close>)
  qed
qed

text \<open>a registered device can be opened. Registering a device gives it the number of devices of
  that name already in the table; opening that name and number then calls its open function, and
  every other name and number opens as before. The table fills up only after 16 devices.\<close>

theorem register_open_device:
  assumes "is_name name" and "is_name name'" and "tab = map Some es @ replicate n None"
    and "list_all (is_name \<circ> dname) es" and "0 < n"
  defines "k \<equiv> int (length [e \<leftarrow> es. dname e = name])"
  shows "\<exists>tab'. register_device (Some name) (Some f) tab = Some (k, tab') \<and> length tab' = length tab \<and>
    open_device name k tab' = Some (Inr f) \<and>
    (\<forall>i. (name', i) \<noteq> (name, k) \<longrightarrow> open_device name' i tab' = open_device name' i tab)"
proof -
  obtain m where m: "n = Suc m" using assms(5) by (cases n) auto
  let ?es = "es @ [\<lparr>dname = name, openfn = Some f\<rparr>]"
  let ?tab = "map Some ?es @ replicate m None"
  have wf: "list_all (is_name \<circ> dname) ?es" using assms(1,4) by simp
  have "register_device (Some name) (Some f) tab = Some (k, ?tab)"
    using register_loop_ok [OF assms(1,4), of "replicate m None" "Some f" 0] assms(3) m
    by (simp add: register_device_def k_def)
  moreover have "open_device name k ?tab = Some (Inr f)"
    unfolding open_device_def open_loop_ok [OF assms(1) wf] by (simp add: k_def Let_def)
  moreover have "open_device name' i ?tab = open_device name' i tab" if "(name', i) \<noteq> (name, k)" for i
  proof -
    have "\<not> (name' = name \<and> i = k)" using that by simp
    then show ?thesis
      unfolding open_device_def open_loop_ok [OF assms(2) wf] assms(3) open_loop_ok [OF assms(2,4)]
      by (auto simp: Let_def nth_append k_def)
  qed
  ultimately show ?thesis using assms(3) m by (intro exI [of _ ?tab]) simp
qed

theorem register_open_device_witness:
  "\<exists>tab'. register_device (Some [117, 0]) (Some True) (replicate 16 None) = Some (0, tab') \<and>
    open_device [117, 0] 0 tab' = Some (Inr True)"
  using register_open_device [of "[117, 0]" "[117, 0]" "replicate 16 None" "[]" 16 True]
  by (auto simp: is_name_def)

subsection \<open>Parsing a specification\<close>

lemma spec_scan_digits:
  "list_all is_digit ds \<Longrightarrow> spec_scan (ds @ 0 # rest) i p =
     Some (Some (i + length ds, if p = None \<and> ds \<noteq> [] then Some i else p))"
proof (induction ds arbitrary: i p)
  case (Cons c ds)
  have "c \<noteq> 0" "48 \<le> c" "c \<le> 57"
    using Cons.prems by (auto simp: is_digit_def word_le_nat_alt)
  then show ?case using Cons by auto
qed simp

definition name_char :: "byte \<Rightarrow> bool" where
  "name_char c \<longleftrightarrow> 32 < c \<and> c < 127"

lemma spec_scan_name:
  "list_all name_char s \<Longrightarrow> \<exists>p'. spec_scan (s @ t) i p = spec_scan t (i + length s) p' \<and>
     (s \<noteq> [] \<and> \<not> is_digit (last s) \<longrightarrow> p' = None)"
proof (induction s arbitrary: i p)
  case (Cons c s)
  have c: "c \<noteq> 0" "32 < c" "c < 127" using Cons.prems by (auto simp: name_char_def)
  have d: "48 \<le> c \<and> c \<le> 57 \<longleftrightarrow> is_digit c" by (auto simp: is_digit_def word_le_nat_alt)
  obtain p1 where 1: "spec_scan (c # s @ t) i p = spec_scan (s @ t) (i + 1) p1" "\<not> is_digit c \<longrightarrow> p1 = None"
    using c d by (cases "is_digit c") auto
  show ?case
  proof (cases "s = []")
    case True
    with 1 show ?thesis by (intro exI [of _ p1]) simp
  next
    case False
    obtain p' where "spec_scan (s @ t) (i + 1) p1 = spec_scan t (i + 1 + length s) p'"
        "s \<noteq> [] \<and> \<not> is_digit (last s) \<longrightarrow> p' = None"
      using Cons.IH [of "i + 1" p1] Cons.prems by auto
    with 1 False show ?thesis by (intro exI [of _ p']) simp
  qed
qed auto

text \<open>\<open>parse_device_spec\<close> inverts the printing of an instance number. A name of printable
  characters that does not end in a digit, followed by the decimal digits of an instance number
  that fits an \<open>int\<close>, is split into the name, terminated in place, and that number.\<close>

theorem parse_device_spec_splits:
  assumes "list_all name_char name" and "name \<noteq> []" and "\<not> is_digit (last name)" and "val \<le> INT_MAX"
  shows "\<exists>ds. format_int val 10 False 0 = Some (ds, length ds) \<and>
    parse_device_spec (name @ ds @ 0 # rest) = Some (int val, name @ 0 # tl ds @ 0 # rest)"
proof -
  have "val < 10 ^ Suc 39" using assms(4) by (simp add: INT_MAX_def)
  from int_digits_10 [OF this, of "[]"] obtain ds where
    ds: "int_digits 40 val 10 [] = Some ds" "list_all is_digit ds" "foldl dec_step 0 ds = val" "ds \<noteq> []"
    by auto
  have f: "format_int val 10 False 0 = Some (ds, length ds)" using ds(1) by (simp add: format_int_def)
  let ?spec = "name @ ds @ 0 # rest"
  have scan: "spec_scan ?spec 0 None = Some (Some (length name + length ds, Some (length name)))"
    using spec_scan_name [OF assms(1), of "ds @ 0 # rest" 0 None] assms(2,3) spec_scan_digits [OF ds(2)] ds(4)
    by auto
  obtain c cs where c: "ds = c # cs" "is_digit c" using ds(2,4) by (cases ds) auto
  have "c \<noteq> ch CHR ''-''" "c \<noteq> ch CHR ''+''" using c(2) by (auto simp: is_digit_def ch_def)
  then have "strtoul (Some (ds @ 0 # rest)) 10 = Some (val, Some (length ds))"
    using strtoul_digits [of ds 0 rest 0] ds(2,3) assms(4) c(1) by (simp add: strtoul_def INT_MAX_def)
  then have "parse_device_spec ?spec = Some (int val, ?spec[length name := 0])"
    using scan assms(4) ds(4) by (simp add: parse_device_spec_def nth_append)
  with f c(1) show ?thesis by (simp add: list_update_append)
qed

theorem parse_device_spec_splits_witness:
  "\<exists>ds. format_int 12 10 False 0 = Some (ds, length ds) \<and>
    parse_device_spec ([117, 97] @ ds @ [0]) = Some (12, [117, 97, 0] @ tl ds @ [0])"
  using parse_device_spec_splits [of "[117, 97]" 12 "[]"] by (simp add: name_char_def is_digit_def INT_MAX_def)

end
