(* ===== verification/Uart.thy ===== *)
theory Uart
  imports Ring Thread Intr Device
begin

text \<open>
  The serial driver of kernel/dev/uart.c: attachment, opening and closing, the blocking read and
  write, and the interrupt service routine, on top of the ring buffers of \<open>Ring\<close>. The device is
  what the driver can see of it: the bytes its receiver holds, whether the transmitter is empty,
  and the bytes that were stored to the transmitter. A call that yields the processor is
  \<open>USuspended\<close> with the place where it goes on.
\<close>

subsection \<open>State\<close>

definition UART_INTR_PRIO :: int where "UART_INTR_PRIO = 3"
definition UART0_MMIO_BASE :: nat where "UART0_MMIO_BASE = 0x10000000"
definition IER_DRIE :: "8 word" where "IER_DRIE = push_bit 0 1"
definition IER_THREIE :: "8 word" where "IER_THREIE = push_bit 1 1"
definition LCR_DLAB :: "8 word" where "LCR_DLAB = push_bit 7 1"

datatype uart_reg = THR | DLL | IER | DLM | LCR

record uart_regs =
  rbr_in :: "byte list"
  thre :: bool
  thr_out :: "byte list"
  ier :: "8 word"

record uart_device =
  irqno :: int
  instno :: int
  u_refcnt :: nat
  rxbuf :: ringbuf
  txbuf :: ringbuf
  rx_cond :: nat
  tx_cond :: nat

record uart_sys =
  udev :: uart_device
  regs :: uart_regs
  kt :: kthr

datatype uart_pc = URead nat | UWrite "byte list" nat
datatype uart_res = URet int "byte list" | USuspended uart_pc

subsection \<open>Attachment\<close>

text \<open>The stores to the registers of a port that is not the console, in order.\<close>

definition uart_setup :: "(uart_reg \<times> 8 word) list" where
  "uart_setup = [(IER, 0), (LCR, LCR_DLAB), (DLL, 0x01), (DLM, 0x00), (LCR, 0)]"

text \<open>\<open>f\<close> stands for the registered open function with its device.\<close>

definition uart_attach ::
  "nat \<Rightarrow> int \<Rightarrow> nat \<Rightarrow> nat \<Rightarrow> 'f \<Rightarrow> 'f devtab \<Rightarrow> (uart_device \<times> (uart_reg \<times> 8 word) list \<times> 'f devtab) option"
where
  "uart_attach mmio_base irq rxc txc f tab =
     (let zero = \<lparr>hpos = 0, tpos = 0, rdata = replicate UART_RBUFSZ 0\<rparr>;
          console = (mmio_base = UART0_MMIO_BASE)
      in do {
        (k, tab) \<leftarrow> register_device (Some (map ch ''uart'' @ [0])) (if console then None else Some f) tab;
        Some (\<lparr>irqno = irq, instno = k, u_refcnt = 0, rxbuf = zero, txbuf = zero, rx_cond = rxc, tx_cond = txc\<rparr>,
              if console then [] else uart_setup, tab)
      })"

subsection \<open>The service routine\<close>

definition uart_isr :: "nat \<Rightarrow> uart_sys \<Rightarrow> uart_sys option" where
  "uart_isr srcno s =
     (let u = udev s; r = regs s;
          (rest, rx) = fill rbuf_full rbuf_putc (rbr_in r) (rxbuf u);
          rx_pushed = (length rest < length (rbr_in r));
          r = r\<lparr>rbr_in := rest\<rparr>;
          r = (if rbuf_full rx then r\<lparr>ier := ier r AND NOT IER_DRIE\<rparr> else r);
          (tx, r, tx_drained) =
            (if thre r
             then if \<not> rbuf_empty (txbuf u)
                  then (case rbuf_getc (txbuf u) of (c, tx) \<Rightarrow> (tx, r\<lparr>thr_out := thr_out r @ [c], thre := False\<rparr>, True))
                  else (txbuf u, r\<lparr>ier := ier r AND NOT IER_THREIE\<rparr>, False)
             else (txbuf u, r, False))
      in do {
        k \<leftarrow> (if rx_pushed then condition_broadcast (Cond (rx_cond u)) (kt s) else Some (kt s));
        k \<leftarrow> (if tx_drained then condition_broadcast (Cond (tx_cond u)) k else Some k);
        Some \<lparr>udev = u\<lparr>rxbuf := rx, txbuf := tx\<rparr>, regs = r, kt = k\<rparr>
      })"

subsection \<open>Opening and closing\<close>

text \<open>Opening reads the receiver once, to drop a stale byte.\<close>

definition uart_open :: "uart_sys intrmgr \<times> uart_sys \<Rightarrow> (int \<times> uart_sys intrmgr \<times> uart_sys) option" where
  "uart_open ms =
     (case ms of (m, s) \<Rightarrow>
        let u = udev s
        in if u_refcnt u \<noteq> 0 then Some (- EBUSY, m, s)
           else do {
             let k = condition_init (Cond (tx_cond u)) (condition_init (Cond (rx_cond u)) (kt s));
             let r = (regs s)\<lparr>rbr_in := tl (rbr_in (regs s)), ier := IER_DRIE\<rparr>;
             m \<leftarrow> enable_intr_source (irqno u) UART_INTR_PRIO uart_isr m;
             Some (0, m, \<lparr>udev = u\<lparr>rxbuf := rbuf_init (rxbuf u), txbuf := rbuf_init (txbuf u), u_refcnt := 1\<rparr>,
                          regs = r, kt = k\<rparr>)
           })"

definition uart_close :: "uart_sys intrmgr \<times> uart_sys \<Rightarrow> (uart_sys intrmgr \<times> uart_sys) option" where
  "uart_close ms =
     (case ms of (m, s) \<Rightarrow>
        if u_refcnt (udev s) \<noteq> 0 then None
        else do {
          m \<leftarrow> disable_intr_source (irqno (udev s)) m;
          Some (m, s\<lparr>regs := (regs s)\<lparr>ier := 0\<rparr>\<rparr>)
        })"

subsection \<open>Reading and writing\<close>

definition arm :: "8 word \<Rightarrow> uart_sys \<Rightarrow> uart_sys" where
  "arm b s = s\<lparr>regs := (regs s)\<lparr>ier := ier (regs s) OR b\<rparr>\<rparr>"

definition uart_read_loop :: "nat \<Rightarrow> uart_sys \<Rightarrow> (uart_res \<times> uart_sys) option" where
  "uart_read_loop bufsz s =
     (if rbuf_empty (rxbuf (udev s))
      then map_option (\<lambda>k. (USuspended (URead bufsz), s\<lparr>kt := k\<rparr>)) (thread_yield (kt s))
      else case drain rbuf_empty rbuf_getc bufsz (rxbuf (udev s)) of (out, rx) \<Rightarrow>
        Some (URet (int (length out)) out, arm IER_DRIE (s\<lparr>udev := (udev s)\<lparr>rxbuf := rx\<rparr>\<rparr>)))"

definition uart_read :: "int \<Rightarrow> uart_sys \<Rightarrow> (uart_res \<times> uart_sys) option" where
  "uart_read bufsz s = (if bufsz \<le> 0 then Some (URet 0 [], s) else uart_read_loop (nat bufsz) s)"

partial_function (option) uart_write_loop :: "byte list \<Rightarrow> nat \<Rightarrow> uart_sys \<Rightarrow> (uart_res \<times> uart_sys) option" where
  "uart_write_loop data n s =
     (if n < length data
      then if rbuf_full (txbuf (udev s))
        then map_option (\<lambda>k. (USuspended (UWrite data n), s\<lparr>kt := k\<rparr>)) (thread_yield (kt s))
        else case fill rbuf_full rbuf_putc (drop n data) (txbuf (udev s)) of (rest, tx) \<Rightarrow>
          uart_write_loop data (length data - length rest) (arm IER_THREIE (s\<lparr>udev := (udev s)\<lparr>txbuf := tx\<rparr>\<rparr>))
      else Some (URet (int n) [], s))"

definition uart_write :: "byte list \<Rightarrow> int \<Rightarrow> uart_sys \<Rightarrow> (uart_res \<times> uart_sys) option" where
  "uart_write buf len s = (if len \<le> 0 then Some (URet 0 [], s) else uart_write_loop (take (nat len) buf) 0 s)"

subsection \<open>The polled console\<close>

text \<open>The loops of the polled functions wait for the status bits; afterwards the device is as follows.\<close>

definition console_device_init :: "(uart_reg \<times> 8 word) list" where
  "console_device_init = [(IER, 0x00), (LCR, LCR_DLAB), (DLL, 0x01), (DLM, 0x00), (LCR, 0)]"

definition uart0_putc :: "byte \<Rightarrow> uart_regs \<Rightarrow> uart_regs option" where
  "uart0_putc c r = (if \<not> thre r then None else Some (r\<lparr>thr_out := thr_out r @ [c], thre := False\<rparr>))"

definition uart0_getc :: "uart_regs \<Rightarrow> (byte \<times> uart_regs) option" where
  "uart0_getc r = (case rbr_in r of [] \<Rightarrow> None | c # cs \<Rightarrow> Some (c, r\<lparr>rbr_in := cs\<rparr>))"

subsection \<open>Nothing is lost or reordered\<close>

fun progress :: "uart_res \<Rightarrow> nat" where
  "progress (URet k _) = nat k"
| "progress (USuspended (UWrite _ k)) = k"
| "progress (USuspended (URead _)) = 0"

fun delivered :: "uart_res \<Rightarrow> byte list" where
  "delivered (URet _ bs) = bs"
| "delivered (USuspended _) = []"

text \<open>
  \<open>uart_io s a r d\<close>: since the port was opened, writers have handed \<open>a\<close> to the driver, the driver
  has taken \<open>r\<close> from the receiver, and readers have been given \<open>d\<close>. The steps are the calls of the
  driver, from their start or where they were suspended, the service routine, and the line.
\<close>

inductive uart_io :: "uart_sys \<Rightarrow> byte list \<Rightarrow> byte list \<Rightarrow> byte list \<Rightarrow> bool" where
  u_opened: "uart_open (m, s0) = Some (0, m', s) \<Longrightarrow> length (rdata (rxbuf (udev s0))) = UART_RBUFSZ \<Longrightarrow>
    length (rdata (txbuf (udev s0))) = UART_RBUFSZ \<Longrightarrow> thr_out (regs s0) = [] \<Longrightarrow> uart_io s [] [] []"
| u_line: "uart_io s a r d \<Longrightarrow>
    uart_io (s\<lparr>regs := (regs s)\<lparr>rbr_in := rbr_in (regs s) @ xs, thre := b\<rparr>\<rparr>) a r d"
| u_isr: "uart_io s a r d \<Longrightarrow> uart_isr srcno s = Some s' \<Longrightarrow> rbr_in (regs s) = xs @ rbr_in (regs s') \<Longrightarrow>
    uart_io s' a (r @ xs) d"
| u_read: "uart_io s a r d \<Longrightarrow> uart_read_loop n s = Some (res, s') \<Longrightarrow> uart_io s' a r (d @ delivered res)"
| u_write: "uart_io s a r d \<Longrightarrow> uart_write_loop data n s = Some (res, s') \<Longrightarrow> n \<le> length data \<Longrightarrow>
    uart_io s' (a @ take (progress res - n) (drop n data)) r d"

definition uart_inv :: "uart_sys \<Rightarrow> byte list \<Rightarrow> byte list \<Rightarrow> byte list \<Rightarrow> bool" where
  "uart_inv s a r d \<longleftrightarrow>
     rbuf_inv (rxbuf (udev s)) \<and> rbuf_inv (txbuf (udev s)) \<and>
     a = thr_out (regs s) @ rbuf_items (txbuf (udev s)) \<and> r = d @ rbuf_items (rxbuf (udev s)) \<and>
     (rbuf_full (rxbuf (udev s)) \<or> bit (ier (regs s)) 0) \<and>
     (rbuf_empty (txbuf (udev s)) \<or> bit (ier (regs s)) 1)"

lemma ier_bits:
  "bit IER_DRIE i \<longleftrightarrow> i = 0" "bit IER_THREIE i \<longleftrightarrow> i = Suc 0"
  unfolding IER_DRIE_def IER_THREIE_def bit_push_bit_iff by (auto simp: bit_1_iff)

lemmas bit_ops = bit_or_iff bit_and_iff bit_not_iff ier_bits

lemma rbuf_items_init:
  "rbuf_items (rbuf_init b) = []" "rbuf_empty (rbuf_init b)" "length (rdata b) = UART_RBUFSZ \<Longrightarrow> rbuf_inv (rbuf_init b)"
  by (simp_all add: rbuf_items_def rbuf_init_def ring_items_def rbuf_inv_def rbuf_empty_def)

lemma uart_isr_inv:
  assumes I: "uart_inv s a r d" and S: "uart_isr srcno s = Some s'" and x: "rbr_in (regs s) = xs @ rbr_in (regs s')"
  shows "uart_inv s' a (r @ xs) d"
proof -
  let ?u = "udev s" and ?r = "regs s"
  have inv: "rbuf_inv (rxbuf ?u)" "rbuf_inv (txbuf ?u)" using I by (simp_all add: uart_inv_def)
  obtain rest rx where f: "fill rbuf_full rbuf_putc (rbr_in ?r) (rxbuf ?u) = (rest, rx)" by fastforce
  have F: "rest = drop (UART_RBUFSZ - length (rbuf_items (rxbuf ?u))) (rbr_in ?r)"
      "rbuf_items rx = rbuf_items (rxbuf ?u) @ take (UART_RBUFSZ - length (rbuf_items (rxbuf ?u))) (rbr_in ?r)"
      "rbuf_inv rx"
    using rbuf.fill_ok [OF inv(1), of "rbr_in ?r"] f by simp_all
  obtain c tx where g: "rbuf_getc (txbuf ?u) = (c, tx)" by fastforce
  have G: "rbuf_items (txbuf ?u) = c # rbuf_items tx" "rbuf_inv tx" if "\<not> rbuf_empty (txbuf ?u)"
    using rbuf.get_items [OF inv(2)] rbuf.get_inv [OF inv(2)] rbuf.empty_iff [OF inv(2)] that g by auto
  have dev': "udev s' = ?u\<lparr>rxbuf := rx, txbuf := if thre ?r \<and> \<not> rbuf_empty (txbuf ?u) then tx else txbuf ?u\<rparr>"
    and reg': "rbr_in (regs s') = rest"
      "thr_out (regs s') = (if thre ?r \<and> \<not> rbuf_empty (txbuf ?u) then thr_out ?r @ [c] else thr_out ?r)"
      "bit (ier (regs s')) 0 \<longleftrightarrow> \<not> rbuf_full rx \<and> bit (ier ?r) 0"
      "bit (ier (regs s')) 1 \<longleftrightarrow> \<not> (thre ?r \<and> rbuf_empty (txbuf ?u)) \<and> bit (ier ?r) 1"
    using S f g
    by (auto simp: uart_isr_def Let_def bind_eq_Some_conv bit_ops split: if_splits)
  have "xs = take (UART_RBUFSZ - length (rbuf_items (rxbuf ?u))) (rbr_in ?r)"
    using x reg'(1) F(1) by (metis append_same_eq append_take_drop_id)
  moreover have "rbuf_full rx \<or> bit (ier ?r) 0"
  proof -
    have "rbuf_full rx" if "rbuf_full (rxbuf ?u)"
      using that rbuf.full_iff [OF inv(1)] rbuf.full_iff [OF F(3)] F(2) by simp
    then show ?thesis using I by (auto simp: uart_inv_def)
  qed
  moreover have "rbuf_empty tx \<or> bit (ier ?r) 1" "rbuf_empty (txbuf ?u) \<or> bit (ier ?r) 1" if "\<not> rbuf_empty (txbuf ?u)"
    using I that by (auto simp: uart_inv_def)
  ultimately show ?thesis
    using I F G reg' inv unfolding uart_inv_def dev' by auto
qed

lemma uart_read_inv:
  assumes I: "uart_inv s a r d" and S: "uart_read_loop n s = Some (res, s')"
  shows "uart_inv s' a r (d @ delivered res)"
proof (cases "rbuf_empty (rxbuf (udev s))")
  case True
  with I S show ?thesis by (auto simp: uart_read_loop_def uart_inv_def)
next
  case False
  have inv: "rbuf_inv (rxbuf (udev s))" using I by (simp add: uart_inv_def)
  obtain out rx where g: "drain rbuf_empty rbuf_getc n (rxbuf (udev s)) = (out, rx)" by fastforce
  have "out = take n (rbuf_items (rxbuf (udev s)))" "rbuf_items rx = drop n (rbuf_items (rxbuf (udev s)))" "rbuf_inv rx"
    using rbuf.drain_ok [OF inv, of n] g by simp_all
  with I S False g show ?thesis
    by (auto simp: uart_read_loop_def uart_inv_def arm_def bit_ops)
qed

lemma take_min_length: "take (min (length xs) k) xs = take k xs"
  by (simp add: min_def)

lemma uart_write_inv:
  assumes I: "uart_inv s a r d" and S: "uart_write_loop data n s = Some (res, s')" and n: "n \<le> length data"
  shows "uart_inv s' (a @ take (progress res - n) (drop n data)) r d"
proof -
  have quiet: "uart_inv s' a r d \<and> progress res = n"
    if "uart_inv s a r d" "uart_write_loop data n s = Some (res, s')" "n \<le> length data"
      "n = length data \<or> rbuf_full (txbuf (udev s))" for s a n
    using that(2)
    by (subst (asm) uart_write_loop.simps) (use that(1,3,4) in \<open>auto simp: uart_inv_def split: if_splits\<close>)
  show ?thesis
  proof (cases "n = length data \<or> rbuf_full (txbuf (udev s))")
    case True
    then show ?thesis using quiet [OF I S n] by simp
  next
    case False
    have inv: "rbuf_inv (txbuf (udev s))" using I by (simp add: uart_inv_def)
    let ?room = "UART_RBUFSZ - length (rbuf_items (txbuf (udev s)))"
    obtain rest tx where f: "fill rbuf_full rbuf_putc (drop n data) (txbuf (udev s)) = (rest, tx)" by fastforce
    have F: "rest = drop ?room (drop n data)"
        "rbuf_items tx = rbuf_items (txbuf (udev s)) @ take ?room (drop n data)" "rbuf_inv tx"
      using rbuf.fill_ok [OF inv, of "drop n data"] f by simp_all
    let ?s = "arm IER_THREIE (s\<lparr>udev := (udev s)\<lparr>txbuf := tx\<rparr>\<rparr>)" and ?n = "length data - length rest"
    have eq: "uart_write_loop data n s = uart_write_loop data ?n ?s"
      by (subst uart_write_loop.simps) (use False n f in simp)
    have I': "uart_inv ?s (a @ take ?room (drop n data)) r d"
      using I F by (auto simp: uart_inv_def arm_def bit_ops)
    have stop: "?n = length data \<or> rbuf_full (txbuf (udev ?s))"
    proof (cases "rest = []")
      case False
      then have "?room < length (drop n data)" using F(1) by simp
      then have "length (rbuf_items tx) = UART_RBUFSZ"
        using F(2) rbuf.bound [OF inv] by simp
      then show ?thesis using rbuf.full_iff [OF F(3)] by (simp add: arm_def)
    qed simp
    have P: "uart_inv s' (a @ take ?room (drop n data)) r d" "progress res = ?n"
      using quiet [OF I' S [unfolded eq] _ stop] by simp_all
    have "length rest = length (drop n data) - ?room" using F(1) by simp
    moreover have "l - (l - n - k) - n = min (l - n) k" if "n \<le> l" for l k :: nat
      using that by linarith
    ultimately have "progress res - n = min (length (drop n data)) ?room"
      using P(2) n by (simp only: length_drop)
    then have "take (progress res - n) (drop n data) = take ?room (drop n data)"
      by (simp only: take_min_length)
    then show ?thesis using P(1) by simp
  qed
qed



end
