(* ===== verification/Console.thy ===== *)
theory Console
  imports Strings
begin

text \<open>
  The console of kernel/console.c, and the character functions of user/string.c that treat line
  ends the same way. The device behind the console is the list of bytes it has put out and the
  list of bytes it will deliver; a function that needs a byte when there is none left has no
  result, since the code spins. Interrupt masking is left out.
\<close>

subsection \<open>Kernel console\<close>

record console =
  pprev :: byte
  gprev :: byte
  cout :: "byte list"
  cin :: "byte list"

definition console_device_putc :: "byte \<Rightarrow> console \<Rightarrow> console" where
  "console_device_putc c st = st\<lparr>cout := cout st @ [c]\<rparr>"

definition console_device_getc :: "console \<Rightarrow> (byte \<times> console) option" where
  "console_device_getc st = (case cin st of [] \<Rightarrow> None | c # cs \<Rightarrow> Some (c, st\<lparr>cin := cs\<rparr>))"

definition kputc :: "byte \<Rightarrow> console \<Rightarrow> console" where
  "kputc c st =
     (let st = (if c = 13 then console_device_putc 10 (console_device_putc c st)
                else if c = 10
                then console_device_putc c (if pprev st \<noteq> 13 then console_device_putc 13 st else st)
                else console_device_putc c st)
      in st\<lparr>pprev := c\<rparr>)"

fun kgetc_loop :: "byte \<Rightarrow> byte list \<Rightarrow> (byte \<times> byte list) option" where
  "kgetc_loop prev [] = None"
| "kgetc_loop prev (c # cs) = (if c = 10 \<and> prev = 13 then kgetc_loop prev cs else Some (c, cs))"

definition kgetc :: "console \<Rightarrow> (byte \<times> console) option" where
  "kgetc st =
     do {
       (c, cs) \<leftarrow> kgetc_loop (gprev st) (cin st);
       Some (if c = 13 then 10 else c, st\<lparr>cin := cs, gprev := c\<rparr>)
     }"

definition kputcs :: "byte list \<Rightarrow> console \<Rightarrow> console" where
  "kputcs cs st = fold kputc cs st"

definition kputs :: "cstr \<Rightarrow> console \<Rightarrow> console option" where
  "kputs str st = map_option (\<lambda>cs. kputc 10 (kputcs cs st)) (str_chars str)"

lemma kgetc_loop_shorter: "kgetc_loop prev cs = Some (c, cs') \<Longrightarrow> length cs' < length cs"
  by (induction prev cs rule: kgetc_loop.induct) (auto split: if_splits)

lemma kgetc_shorter: "kgetc st = Some (c, st') \<Longrightarrow> length (cin st') < length (cin st)"
  by (auto simp: kgetc_def bind_eq_Some_conv dest: kgetc_loop_shorter)

lemma kputc_cin [simp]: "cin (kputc c st) = cin st"
  by (simp add: kputc_def console_device_putc_def Let_def)

text \<open>\<open>p\<close> is the position in the buffer and \<open>n\<close> what is left of its size.\<close>

function kgetsn_loop :: "byte list \<Rightarrow> nat \<Rightarrow> nat \<Rightarrow> console \<Rightarrow> (byte list \<times> console) option" where
  "kgetsn_loop buf p n st =
     (case kgetc st of
        None \<Rightarrow> None
      | Some (c, st) \<Rightarrow>
          if c = 13 then kgetsn_loop buf p n st
          else if c = 10 then if p < length buf then Some (buf[p := 0], kputc 10 st) else None
          else if c = 8 \<or> c = 127
          then if p \<noteq> 0
               then kgetsn_loop buf (p - 1) (n + 1) (kputc 8 (kputc 32 (kputc 8 st)))
               else kgetsn_loop buf p n st
          else if n > 1
          then if p < length buf then kgetsn_loop (buf[p := c]) (p + 1) (n - 1) (kputc c st) else None
          else kgetsn_loop buf p n (kputc 7 st))"
  by pat_completeness auto

termination
  by (relation "measure (\<lambda>(buf, p, n, st). length (cin st))") (auto dest: kgetc_shorter)

definition kgetsn :: "byte list \<Rightarrow> nat \<Rightarrow> console \<Rightarrow> (byte list \<times> console) option" where
  "kgetsn buf n st = kgetsn_loop buf 0 n st"

definition kvprintf :: "byte list \<Rightarrow> va list \<Rightarrow> console \<Rightarrow> console option" where
  "kvprintf fmt ap st = map_option (\<lambda>(out, n). kputcs out st) (vgprintf fmt ap)"

definition klprintf :: "cstr option \<Rightarrow> cstr option \<Rightarrow> 64 word \<Rightarrow> byte list \<Rightarrow> va list \<Rightarrow> console \<Rightarrow> console option"
where
  "klprintf label src_flname src_lineno fmt ap st =
     do {
       st \<leftarrow> kvprintf (map ch ''%s %s:%d: '' @ [0]) [VStr label, VStr src_flname, VWord src_lineno] st;
       st \<leftarrow> kvprintf fmt ap st;
       Some (kputc 10 st)
     }"

subsection \<open>The console as an I/O object\<close>

text \<open>What is read, up to and including the first newline.\<close>

fun cio_read_loop :: "nat \<Rightarrow> console \<Rightarrow> (byte list \<times> console) option" where
  "cio_read_loop 0 st = Some ([], st)"
| "cio_read_loop (Suc k) st =
     do {
       (c, st) \<leftarrow> kgetc st;
       let c = (if c = 13 then 10 else c);
       if c = 10 then Some ([c], st)
       else do {
         (cs, st) \<leftarrow> cio_read_loop k st;
         Some (c # cs, st)
       }
     }"

definition cio_read :: "int \<Rightarrow> console \<Rightarrow> ((int \<times> byte list) \<times> console) option" where
  "cio_read bufsz st =
     (if bufsz \<le> 0 then Some ((bufsz, []), st)
      else map_option (\<lambda>(cs, st). ((int (length cs), cs), st)) (cio_read_loop (nat bufsz) st))"

definition cio_write :: "byte list \<Rightarrow> int \<Rightarrow> console \<Rightarrow> int \<times> console" where
  "cio_write buf len st = (len, kputcs (take (nat len) buf) st)"

definition cio_cntl :: int where
  "cio_cntl = - ENOTSUP"

subsection \<open>Line ends\<close>

definition enc :: "byte \<Rightarrow> byte list" where
  "enc c = (if c = 10 then [13, 10] else [c])"

lemma kputcs_enc:
  "13 \<notin> set s \<Longrightarrow> pprev st \<noteq> 13 \<Longrightarrow> cout (kputcs s st) = cout st @ concat (map enc s)"
proof (induction s arbitrary: st)
  case (Cons c s)
  have "pprev (kputc c st) \<noteq> 13" "cout (kputc c st) = cout st @ enc c"
    using Cons.prems by (auto simp: kputc_def console_device_putc_def Let_def enc_def)
  then show ?case using Cons.IH [of "kputc c st"] Cons.prems by (simp add: kputcs_def)
qed (simp add: kputcs_def)

fun kgetcs :: "nat \<Rightarrow> console \<Rightarrow> (byte list \<times> console) option" where
  "kgetcs 0 st = Some ([], st)"
| "kgetcs (Suc k) st =
     do { (c, st) \<leftarrow> kgetc st; (cs, st) \<leftarrow> kgetcs k st; Some (c # cs, st) }"

lemma kgetc_enc:
  assumes "c \<noteq> 13" and "gprev st \<noteq> 13 \<and> cin st = enc c @ rest \<or> gprev st = 13 \<and> cin st = 10 # enc c @ rest"
  obtains st' where "kgetc st = Some (c, st')"
    "gprev st' \<noteq> 13 \<and> cin st' = rest \<or> gprev st' = 13 \<and> cin st' = 10 # rest"
  using assms that by (fastforce simp: kgetc_def enc_def split: if_splits)

lemma kgetcs_enc:
  "13 \<notin> set s \<Longrightarrow>
   gprev st \<noteq> 13 \<and> cin st = concat (map enc s) @ rest \<or> gprev st = 13 \<and> cin st = 10 # concat (map enc s) @ rest \<Longrightarrow>
   \<exists>st'. kgetcs (length s) st = Some (s, st')"
proof (induction s arbitrary: st)
  case (Cons c s)
  have "gprev st \<noteq> 13 \<and> cin st = enc c @ concat (map enc s) @ rest \<or>
      gprev st = 13 \<and> cin st = 10 # enc c @ concat (map enc s) @ rest"
    using Cons.prems(2) by simp
  moreover have "c \<noteq> 13" using Cons.prems(1) by simp
  ultimately obtain st' where st': "kgetc st = Some (c, st')"
      "gprev st' \<noteq> 13 \<and> cin st' = concat (map enc s) @ rest \<or> gprev st' = 13 \<and> cin st' = 10 # concat (map enc s) @ rest"
    using kgetc_enc by blast
  then show ?case using Cons.IH [of st'] Cons.prems(1) by auto
qed simp

text \<open>line ends survive the console. Text without carriage returns written with \<open>kputc\<close> goes
  out with every newline as carriage return and newline, and reading those bytes with \<open>kgetc\<close>
  gives the text back.\<close>

theorem kputc_kgetc_round_trip:
  assumes "13 \<notin> set s" and "pprev st \<noteq> 13" and "cout st = []" and "gprev st' \<noteq> 13"
    and "cin st' = cout (kputcs s st) @ rest"
  shows "cout (kputcs s st) = concat (map enc s) \<and> (\<exists>st''. kgetcs (length s) st' = Some (s, st''))"
  using kputcs_enc [OF assms(1,2)] kgetcs_enc [OF assms(1), of st' rest] assms(3-) by simp

theorem kputc_kgetc_round_trip_witness:
  "\<exists>st''. kgetcs 3 \<lparr>pprev = 0, gprev = 0, cout = [], cin = [104, 13, 10, 105]\<rparr> = Some ([104, 10, 105], st'')"
proof -
  let ?st = "\<lparr>pprev = 0, gprev = 0, cout = [], cin = []\<rparr>"
  have "cout (kputcs [104, 10, 105] ?st) = [104, 13, 10, 105]"
    by (simp add: kputcs_def kputc_def console_device_putc_def)
  then show ?thesis
    using kputc_kgetc_round_trip [of "[104, 10, 105]" ?st "\<lparr>pprev = 0, gprev = 0, cout = [], cin = [104, 13, 10, 105]\<rparr>" "[]"]
    by (simp add: numeral_3_eq_3 enc_def del: kgetcs.simps)
qed

subsection \<open>Reading a line\<close>

lemma kgetc_loop_cr: "13 \<in> set cs \<Longrightarrow> \<exists>c cs'. kgetc_loop prev cs = Some (c, cs') \<and> (c = 13 \<or> 13 \<in> set cs')"
  by (induction prev cs rule: kgetc_loop.induct) auto

lemma kgetc_cr: "13 \<in> set (cin st) \<Longrightarrow> \<exists>c st'. kgetc st = Some (c, st') \<and> c \<noteq> 13 \<and> (c = 10 \<or> 13 \<in> set (cin st'))"
  using kgetc_loop_cr [of "cin st" "gprev st"] by (fastforce simp: kgetc_def)

lemma kgetsn_loop_ok:
  assumes "p + n \<le> length buf" and "0 < n" and "13 \<in> set (cin st)"
  shows "\<exists>buf' st'. kgetsn_loop buf p n st = Some (buf', st') \<and> length buf' = length buf \<and>
    drop (p + n) buf' = drop (p + n) buf \<and> (\<exists>k < p + n. buf' ! k = 0)"
  using assms
proof (induction "length (cin st)" arbitrary: buf p n st rule: less_induct)
  case less
  obtain c st1 where c: "kgetc st = Some (c, st1)" "c \<noteq> 13" "c = 10 \<or> 13 \<in> set (cin st1)"
    using kgetc_cr [OF less.prems(3)] by blast
  note IH = less.hyps
  note lt = kgetc_shorter [OF c(1)]
  note unf = kgetsn_loop.simps [of buf p n st]
  consider "c = 10" | "c \<noteq> 10" "c = 8 \<or> c = 127" "p = 0" | "c \<noteq> 10" "c = 8 \<or> c = 127" "p \<noteq> 0"
    | "c \<noteq> 10" "\<not> (c = 8 \<or> c = 127)" "n \<le> 1" | "c \<noteq> 10" "\<not> (c = 8 \<or> c = 127)" "1 < n"
    by linarith
  then show ?case
  proof cases
    case 1
    moreover have "buf[p := 0] ! p = 0" using less.prems(1,2) by simp
    ultimately show ?thesis using less.prems c by (subst unf) (auto intro!: exI [of _ p])
  next
    case 2
    then show ?thesis using IH [of st1 p n buf] less.prems c lt by (subst unf) auto
  next
    case 3
    then show ?thesis
      using IH [of "kputc 8 (kputc 32 (kputc 8 st1))" "p - 1" "n + 1" buf] less.prems c lt by (subst unf) auto
  next
    case 4
    then show ?thesis using IH [of "kputc 7 st1" p n buf] less.prems c lt by (subst unf) auto
  next
    case 5
    have "drop (p + n) (buf[p := c]) = drop (p + n) buf" using less.prems(2) by simp
    with 5 show ?thesis
      using IH [of "kputc c st1" "p + 1" "n - 1" "buf[p := c]"] less.prems c lt by (subst unf) auto
  qed
qed

text \<open>C23: \<open>kgetsn\<close> stays inside its buffer. With \<open>n\<close> at least 1 and a buffer of at least \<open>n\<close> bytes it
  returns as soon as a line end arrives, has changed only the first \<open>n\<close> bytes, and has put a
  terminator among them, however many characters and erasures came before.\<close>

theorem kgetsn_bounded:
  assumes "0 < n" and "n \<le> length buf" and "13 \<in> set (cin st)"
  shows "\<exists>buf' st'. kgetsn buf n st = Some (buf', st') \<and> length buf' = length buf \<and>
    drop n buf' = drop n buf \<and> (\<exists>k < n. buf' ! k = 0)"
  using kgetsn_loop_ok [of 0 n buf st] assms by (simp add: kgetsn_def)

theorem kgetsn_bounded_witness:
  "\<exists>buf' st'. kgetsn [1, 2, 3, 4] 3 \<lparr>pprev = 0, gprev = 0, cout = [], cin = [97, 98, 8, 99, 100, 13]\<rparr> =
      Some (buf', st') \<and> drop 3 buf' = [4]"
  using kgetsn_bounded [of 3 "[1, 2, 3, 4]"
      "\<lparr>pprev = 0, gprev = 0, cout = [], cin = [97, 98, 8, 99, 100, 13]\<rparr>"]
  by (auto simp del: kgetsn_def)

end
