(* ===== verification/Pages.thy ===== *)
theory Pages
  imports Prelude "HOL-Library.Monad_Syntax"
begin

text \<open>
  Physical pages: the free chunk list of kernel/memory.c. Memory is a function from byte addresses
  (of 8-byte words) to the values of those words; a chunk has its header in its first page, \<open>next\<close>
  at offset 0 and \<open>pagecnt\<close> at offset 8, and 0 is the null pointer. The walk over the list may run
  forever on a list that is a cycle, which is \<open>None\<close>; on the states the allocator reaches it
  returns. The allocator implements a set of free page numbers.
\<close>

definition PAGE_SIZE :: nat where "PAGE_SIZE = 4096"

record kmem =
  mem :: "nat \<Rightarrow> nat"
  free_chunk_list :: nat
  satp :: nat
  main_mtag :: nat

subsection \<open>The allocator\<close>

definition wr :: "nat \<Rightarrow> nat \<Rightarrow> kmem \<Rightarrow> kmem" where
  "wr a v m = m\<lparr>mem := (mem m)(a := v)\<rparr>"

definition ck_next :: "kmem \<Rightarrow> nat \<Rightarrow> nat" where
  "ck_next m c = mem m c"

definition ck_pagecnt :: "kmem \<Rightarrow> nat \<Rightarrow> nat" where
  "ck_pagecnt m c = mem m (c + 8)"

text \<open>A link of the list: \<open>None\<close> is \<open>&free_chunk_list\<close> and \<open>Some c\<close> is \<open>&c->next\<close>.\<close>

fun read_link :: "kmem \<Rightarrow> nat option \<Rightarrow> nat" where
  "read_link m None = free_chunk_list m"
| "read_link m (Some c) = ck_next m c"

fun write_link :: "nat option \<Rightarrow> nat \<Rightarrow> kmem \<Rightarrow> kmem" where
  "write_link None v m = m\<lparr>free_chunk_list := v\<rparr>"
| "write_link (Some c) v m = wr c v m"

partial_function (option) best_fit ::
  "kmem \<Rightarrow> nat \<Rightarrow> nat option \<Rightarrow> (nat option \<times> nat) option \<Rightarrow> (nat option \<times> nat) option option"
where
  "best_fit m cnt link best =
     (let c = read_link m link
      in if c = 0 then Some best
         else best_fit m cnt (Some c)
                (if cnt \<le> ck_pagecnt m c \<and>
                    (case best of None \<Rightarrow> True | Some (_, b) \<Rightarrow> ck_pagecnt m c < ck_pagecnt m b)
                 then Some (link, c) else best))"

definition alloc_phys_pages :: "nat \<Rightarrow> kmem \<Rightarrow> (nat \<times> kmem) option" where
  "alloc_phys_pages cnt m =
     (if cnt = 0 then Some (0, m)
      else do {
        best \<leftarrow> best_fit m cnt None None;
        case best of
          None \<Rightarrow> Some (0, m)
        | Some (link, b) \<Rightarrow>
            if cnt < ck_pagecnt m b
            then let remainder = b + cnt * PAGE_SIZE;
                     m = wr remainder (ck_next m b) m;
                     m = wr (remainder + 8) (ck_pagecnt m b - cnt) m
                 in Some (b, write_link link remainder m)
            else Some (b, write_link link (ck_next m b) m)
      })"

definition free_phys_pages :: "nat \<Rightarrow> nat \<Rightarrow> kmem \<Rightarrow> kmem" where
  "free_phys_pages pp cnt m =
     (if pp = 0 \<or> cnt = 0 then m
      else (wr pp (free_chunk_list m) (wr (pp + 8) cnt m))\<lparr>free_chunk_list := pp\<rparr>)"

definition alloc_phys_page :: "kmem \<Rightarrow> (nat \<times> kmem) option" where
  "alloc_phys_page m = alloc_phys_pages 1 m"

definition free_phys_page :: "nat \<Rightarrow> kmem \<Rightarrow> kmem" where
  "free_phys_page pp m = free_phys_pages pp 1 m"

partial_function (option) count_loop :: "kmem \<Rightarrow> nat \<Rightarrow> nat \<Rightarrow> nat option" where
  "count_loop m c tot =
     (if c = 0 then Some tot else count_loop m (ck_next m c) (u64 (tot + ck_pagecnt m c)))"

definition free_phys_page_count :: "kmem \<Rightarrow> nat option" where
  "free_phys_page_count m = count_loop m (free_chunk_list m) 0"

subsection \<open>The set of free pages\<close>

text \<open>Physical addresses have 56 bits.\<close>

definition pgs :: "nat \<Rightarrow> nat \<Rightarrow> nat set" where
  "pgs a n = {a div PAGE_SIZE ..< a div PAGE_SIZE + n}"

definition chunk_ok :: "nat \<times> nat \<Rightarrow> bool" where
  "chunk_ok x = (case x of (c, n) \<Rightarrow> 0 < c \<and> c mod PAGE_SIZE = 0 \<and> 0 < n \<and> c + n * PAGE_SIZE \<le> 2 ^ 56)"

fun free_set :: "(nat \<times> nat) list \<Rightarrow> nat set" where
  "free_set [] = {}"
| "free_set (x # xs) = pgs (fst x) (snd x) \<union> free_set xs"

fun disjoint_chunks :: "(nat \<times> nat) list \<Rightarrow> bool" where
  "disjoint_chunks [] = True"
| "disjoint_chunks (x # xs) = (pgs (fst x) (snd x) \<inter> free_set xs = {} \<and> disjoint_chunks xs)"

fun chunks :: "kmem \<Rightarrow> nat \<Rightarrow> (nat \<times> nat) list \<Rightarrow> bool" where
  "chunks m p [] = (p = 0)"
| "chunks m p (x # xs) = (p = fst x \<and> ck_pagecnt m p = snd x \<and> chunk_ok x \<and> chunks m (ck_next m p) xs)"

definition free_is :: "kmem \<Rightarrow> nat set \<Rightarrow> bool" where
  "free_is m F = (\<exists>xs. chunks m (free_chunk_list m) xs \<and> disjoint_chunks xs \<and> F = free_set xs)"

text \<open>\<open>same_outside F m m'\<close>: no word outside the pages of \<open>F\<close> differs.\<close>

definition same_outside :: "nat set \<Rightarrow> kmem \<Rightarrow> kmem \<Rightarrow> bool" where
  "same_outside F m m' =
     ((\<forall>a. a div PAGE_SIZE \<notin> F \<longrightarrow> mem m' a = mem m a) \<and> satp m' = satp m \<and> main_mtag m' = main_mtag m)"

subsection \<open>Segments of the list\<close>

fun cseg :: "kmem \<Rightarrow> nat \<Rightarrow> (nat \<times> nat) list \<Rightarrow> nat \<Rightarrow> bool" where
  "cseg m p [] q = (p = q)"
| "cseg m p (x # xs) q = (p = fst x \<and> ck_pagecnt m p = snd x \<and> chunk_ok x \<and> cseg m (ck_next m p) xs q)"

definition last_link :: "(nat \<times> nat) list \<Rightarrow> nat option" where
  "last_link ys = (if ys = [] then None else Some (fst (last ys)))"

lemma last_link_simps [simp]: "last_link [] = None" "last_link (ys @ [x]) = Some (fst x)"
  by (simp_all add: last_link_def)

lemma chunks_append: "chunks m p (ys @ zs) \<longleftrightarrow> (\<exists>q. cseg m p ys q \<and> chunks m q zs)"
  by (induction ys arbitrary: p) auto

lemma cseg_append: "cseg m p (ys @ zs) q \<longleftrightarrow> (\<exists>r. cseg m p ys r \<and> cseg m r zs q)"
  by (induction ys arbitrary: p) auto

lemma free_set_append [simp]: "free_set (ys @ zs) = free_set ys \<union> free_set zs"
  by (induction ys) auto

lemma disjoint_chunks_append [simp]:
  "disjoint_chunks (ys @ zs) \<longleftrightarrow> disjoint_chunks ys \<and> disjoint_chunks zs \<and> free_set ys \<inter> free_set zs = {}"
  by (induction ys) auto

lemma finite_free_set [simp]: "finite (free_set xs)"
  by (induction xs) (auto simp: pgs_def)

lemma header_page:
  assumes "chunk_ok x"
  shows "fst x div PAGE_SIZE \<in> pgs (fst x) (snd x)" "(fst x + 8) div PAGE_SIZE \<in> pgs (fst x) (snd x)"
proof -
  obtain k where "fst x = PAGE_SIZE * k" using assms by (auto simp: chunk_ok_def mod_eq_0_iff_dvd elim: dvdE split: prod.splits)
  then show "fst x div PAGE_SIZE \<in> pgs (fst x) (snd x)" "(fst x + 8) div PAGE_SIZE \<in> pgs (fst x) (snd x)"
    using assms by (auto simp: chunk_ok_def pgs_def PAGE_SIZE_def split: prod.splits)
qed

lemma cseg_frame:
  assumes "cseg m p xs q" and "\<And>a. a div PAGE_SIZE \<in> free_set xs \<Longrightarrow> mem m' a = mem m a"
  shows "cseg m' p xs q"
  using assms
proof (induction xs arbitrary: p)
  case (Cons x xs)
  have "mem m' (fst x) = mem m (fst x)" "mem m' (fst x + 8) = mem m (fst x + 8)"
    using Cons.prems header_page [of x] by auto
  then show ?case using Cons.prems Cons.IH [of "ck_next m p"] by (auto simp: ck_next_def ck_pagecnt_def)
qed simp

lemma chunks_cseg: "chunks m p xs \<longleftrightarrow> cseg m p xs 0"
  by (induction xs arbitrary: p) auto

lemma read_last_link: "cseg m (free_chunk_list m) ys q \<Longrightarrow> read_link m (last_link ys) = q"
  by (cases ys rule: rev_cases) (auto simp: cseg_append)

lemma write_last_link:
  fixes ys m v
  defines "m' \<equiv> write_link (last_link ys) v m"
  assumes "cseg m (free_chunk_list m) ys q" and "disjoint_chunks ys"
  shows "cseg m' (free_chunk_list m') ys v" and "same_outside (free_set ys) m m'"
proof -
  have "cseg m' (free_chunk_list m') ys v \<and> same_outside (free_set ys) m m'"
  proof (cases ys rule: rev_cases)
    case Nil
    then show ?thesis using assms by (simp add: same_outside_def)
  next
    case (snoc zs x)
    have x: "cseg m (free_chunk_list m) zs (fst x)" "chunk_ok x" "ck_pagecnt m (fst x) = snd x"
      using assms(2) by (auto simp: snoc cseg_append)
    have m': "m' = wr (fst x) v m" by (simp add: m'_def snoc)
    have "cseg m' (free_chunk_list m) zs (fst x)"
      by (rule cseg_frame [OF x(1)]) (use assms(3) header_page [OF x(2)] in \<open>auto simp: m' wr_def snoc\<close>)
    then show ?thesis
      using x header_page [OF x(2)]
      by (auto simp: m' wr_def snoc cseg_append ck_next_def ck_pagecnt_def same_outside_def)
  qed
  then show "cseg m' (free_chunk_list m') ys v" "same_outside (free_set ys) m m'" by simp_all
qed

subsection \<open>Best fit\<close>

definition best_of :: "nat \<Rightarrow> (nat \<times> nat) list \<Rightarrow> (nat option \<times> nat) option \<Rightarrow> bool" where
  "best_of cnt ys best =
     (case best of
        None \<Rightarrow> (\<forall>x\<in>set ys. snd x < cnt)
      | Some (link, b) \<Rightarrow> \<exists>us n vs. ys = us @ (b, n) # vs \<and> link = last_link us \<and> cnt \<le> n \<and>
          (\<forall>x\<in>set ys. cnt \<le> snd x \<longrightarrow> n \<le> snd x))"

lemma best_of_SomeI:
  assumes "ys = us @ (b, n) # vs" and "cnt \<le> n" and "\<And>x. x \<in> set ys \<Longrightarrow> cnt \<le> snd x \<Longrightarrow> n \<le> snd x"
  shows "best_of cnt ys (Some (last_link us, b))"
  unfolding best_of_def option.case prod.case
  by (intro exI conjI ballI impI) (rule assms(1) refl assms(2) assms(3), assumption?)+

lemma best_of_step:
  assumes "best_of cnt ys best" and "\<And>x. x \<in> set ys \<Longrightarrow> ck_pagecnt m (fst x) = snd x" and "ck_pagecnt m (fst x) = snd x"
  shows "best_of cnt (ys @ [x])
    (if cnt \<le> ck_pagecnt m (fst x) \<and>
        (case best of None \<Rightarrow> True | Some (_, b) \<Rightarrow> ck_pagecnt m (fst x) < ck_pagecnt m b)
     then Some (last_link ys, fst x) else best)"
proof (cases best)
  case None
  then have ys: "\<forall>x\<in>set ys. snd x < cnt" using assms(1) by (simp add: best_of_def)
  show ?thesis
  proof (cases "cnt \<le> snd x")
    case True
    then show ?thesis using None assms(3) ys
      by (cases x) (fastforce intro!: best_of_SomeI [where us = ys and vs = "[]"])
  next
    case False
    then show ?thesis using None assms(3) ys by (simp add: best_of_def)
  qed
next
  case (Some lb)
  obtain us n vs where ys: "ys = us @ (snd lb, n) # vs" "fst lb = last_link us" "cnt \<le> n"
      "\<forall>x\<in>set ys. cnt \<le> snd x \<longrightarrow> n \<le> snd x"
    using assms(1) Some by (cases lb) (auto simp: best_of_def)
  have n: "ck_pagecnt m (snd lb) = n" using assms(2) [of "(snd lb, n)"] ys(1) by simp
  show ?thesis
  proof (cases "cnt \<le> snd x \<and> snd x < n")
    case True
    then show ?thesis using Some ys(4) n assms(3)
      by (cases lb; cases x) (fastforce intro!: best_of_SomeI [where us = ys and vs = "[]"])
  next
    case False
    have "best_of cnt (ys @ [x]) (Some (last_link us, snd lb))"
      by (rule best_of_SomeI [of _ us _ n "vs @ [x]"]) (use ys False in auto)
    then show ?thesis using Some ys(2) n assms(3) False by (cases lb) auto
  qed
qed

lemma cseg_pagecnt: "cseg m p xs q \<Longrightarrow> x \<in> set xs \<Longrightarrow> ck_pagecnt m (fst x) = snd x"
  by (induction xs arbitrary: p) auto

lemma best_fit_ok:
  assumes "cseg m (free_chunk_list m) ys q" and "chunks m q zs" and "best_of cnt ys best"
  shows "\<exists>r. best_fit m cnt (last_link ys) best = Some r \<and> best_of cnt (ys @ zs) r"
  using assms
proof (induction zs arbitrary: ys q best)
  case Nil
  then show ?case using read_last_link [OF Nil.prems(1)] by (simp add: best_fit.simps [of m])
next
  case (Cons x zs)
  have q: "q = fst x" "ck_pagecnt m (fst x) = snd x" "chunk_ok x" "chunks m (ck_next m (fst x)) zs"
    using Cons.prems(2) by auto
  have s: "cseg m (free_chunk_list m) (ys @ [x]) (ck_next m (fst x))"
    using Cons.prems(1) q by (auto simp: cseg_append)
  have "read_link m (last_link ys) = fst x" using read_last_link [OF Cons.prems(1)] q(1) by simp
  moreover have "fst x \<noteq> 0" using q(3) by (auto simp: chunk_ok_def)
  ultimately show ?case
    using Cons.IH [OF s q(4) best_of_step [OF Cons.prems(3) cseg_pagecnt [OF Cons.prems(1)] q(2)]]
    by (simp add: best_fit.simps [of m cnt "last_link ys"] Let_def)
qed

subsection \<open>The operations on the set of free pages\<close>

lemma pgs_split:
  assumes "0 < cnt" and "cnt < n" and "b mod PAGE_SIZE = 0"
  shows "pgs b n = pgs b cnt \<union> pgs (b + cnt * PAGE_SIZE) (n - cnt)"
    and "pgs b cnt \<inter> pgs (b + cnt * PAGE_SIZE) (n - cnt) = {}"
  using assms by (auto simp: pgs_def PAGE_SIZE_def)

lemma chunk_ok_rest:
  assumes "chunk_ok (b, n)" and "0 < cnt" and "cnt < n"
  shows "chunk_ok (b + cnt * PAGE_SIZE, n - cnt)"
proof -
  have "cnt * PAGE_SIZE + (n - cnt) * PAGE_SIZE = n * PAGE_SIZE"
    using assms(3) by (simp add: add_mult_distrib [symmetric])
  then show ?thesis using assms by (auto simp: chunk_ok_def PAGE_SIZE_def)
qed

lemma same_outside_trans:
  "same_outside F m m1 \<Longrightarrow> same_outside G m1 m2 \<Longrightarrow> F \<union> G \<subseteq> H \<Longrightarrow> same_outside H m m2"
  unfolding same_outside_def by (metis UnCI subsetD)

lemma same_outside_refl [simp]: "same_outside F m m"
  by (simp add: same_outside_def)

lemma relink:
  assumes s: "cseg m (free_chunk_list m) ys q" and "disjoint_chunks ys"
    and z: "chunks m v zs" and "free_set ys \<inter> free_set zs = {}"
  shows "chunks (write_link (last_link ys) v m) (free_chunk_list (write_link (last_link ys) v m)) (ys @ zs)"
proof -
  note w = write_last_link [OF s assms(2), of v]
  have "cseg (write_link (last_link ys) v m) v zs 0"
    by (rule cseg_frame [OF z [unfolded chunks_cseg]]) (use w(2) assms(4) in \<open>auto simp: same_outside_def\<close>)
  then show ?thesis using w(1) by (auto simp: cseg_append chunks_cseg)
qed

lemma split_chunk:
  fixes m b cnt n
  defines "r \<equiv> b + cnt * PAGE_SIZE"
  defines "m1 \<equiv> wr r (ck_next m b) m"
  defines "m2 \<equiv> wr (r + 8) (ck_pagecnt m1 b - cnt) m1"
  assumes "ck_pagecnt m b = n" and "chunk_ok (b, n)" and "0 < cnt" and "cnt < n"
    and "chunks m (ck_next m b) zs" and "pgs b n \<inter> free_set zs = {}"
  shows "chunks m2 r ((r, n - cnt) # zs)" and "same_outside (pgs b n) m m2" and "free_chunk_list m2 = free_chunk_list m"
proof -
  have ok: "chunk_ok (r, n - cnt)" using chunk_ok_rest [OF assms(5-7)] by (simp add: r_def)
  have in_b: "r div PAGE_SIZE \<in> pgs b n" "(r + 8) div PAGE_SIZE \<in> pgs b n"
    using header_page [OF ok] pgs_split(1) [OF assms(6,7)] assms(5) by (auto simp: r_def chunk_ok_def)
  have "PAGE_SIZE * 1 \<le> PAGE_SIZE * cnt" using assms(6) by (intro mult_le_mono2) simp
  then have "r \<noteq> b + 8" by (simp add: r_def PAGE_SIZE_def)
  then have n: "ck_pagecnt m1 b = n" using assms(4) by (simp add: m1_def wr_def ck_pagecnt_def)
  show so: "same_outside (pgs b n) m m2" using in_b by (auto simp: same_outside_def m2_def m1_def wr_def)
  show "free_chunk_list m2 = free_chunk_list m" by (simp add: m2_def m1_def wr_def)
  have "cseg m2 (ck_next m b) zs 0"
    by (rule cseg_frame [OF assms(8) [unfolded chunks_cseg]]) (use so assms(9) in \<open>auto simp: same_outside_def\<close>)
  then show "chunks m2 r ((r, n - cnt) # zs)"
    using ok n by (auto simp: chunks_cseg m2_def m1_def wr_def ck_next_def ck_pagecnt_def)
qed

lemma alloc_pages_ok:
  assumes "chunks m (free_chunk_list m) xs" and "disjoint_chunks xs" and "0 < cnt"
  obtains (no_room) "alloc_phys_pages cnt m = Some (0, m)" "\<forall>x\<in>set xs. snd x < cnt"
  | (found) b n m' where "alloc_phys_pages cnt m = Some (b, m')" "(b, n) \<in> set xs" "chunk_ok (b, n)" "cnt \<le> n"
      "\<forall>x\<in>set xs. cnt \<le> snd x \<longrightarrow> n \<le> snd x"
      "free_is m' (free_set xs - pgs b cnt)" "same_outside (free_set xs) m m'" 
proof -
  obtain r where r: "best_fit m cnt None None = Some r" "best_of cnt xs r"
    using best_fit_ok [of m "[]" "free_chunk_list m" xs cnt None] assms(1) by (auto simp: best_of_def)
  show ?thesis
  proof (cases r)
    case None
    then show ?thesis using no_room r assms(3) by (simp add: alloc_phys_pages_def best_of_def)
  next
    case (Some lb)
    obtain link b where lb: "lb = (link, b)" by (cases lb)
    obtain ys n zs where xs: "xs = ys @ (b, n) # zs" "link = last_link ys" "cnt \<le> n"
        "\<forall>x\<in>set xs. cnt \<le> snd x \<longrightarrow> n \<le> snd x"
      using r(2) unfolding Some lb best_of_def by auto
    have s: "cseg m (free_chunk_list m) ys b" and bn: "ck_pagecnt m b = n" "chunk_ok (b, n)"
        and z: "chunks m (ck_next m b) zs"
      using assms(1) by (auto simp: xs(1) chunks_append)
    have dj: "disjoint_chunks ys" "disjoint_chunks zs" "free_set ys \<inter> free_set zs = {}"
        "pgs b n \<inter> free_set zs = {}" "free_set ys \<inter> pgs b n = {}"
      using assms(2) by (auto simp: xs(1))
    show ?thesis
    proof (cases "cnt < n")
      case False
      have n: "n = cnt" using False xs(3) by simp
      let ?m = "write_link (last_link ys) (ck_next m b) m"
      have "chunks ?m (free_chunk_list ?m) (ys @ zs)" by (rule relink [OF s dj(1) z dj(3)])
      moreover have "free_set xs - pgs b cnt = free_set (ys @ zs)" using dj n by (auto simp: xs(1))
      ultimately have "free_is ?m (free_set xs - pgs b cnt)"
        using dj unfolding free_is_def by (intro exI [of _ "ys @ zs"]) auto
      moreover have "same_outside (free_set xs) m ?m"
        by (rule same_outside_trans [OF write_last_link(2) [OF s dj(1)] same_outside_refl]) (auto simp: xs(1))
      ultimately show ?thesis
        using found [of b ?m n] r(1) assms(3) bn n xs by (simp add: alloc_phys_pages_def Some lb)
    next
      case True
      define r where "r = b + cnt * PAGE_SIZE"
      define m1 where "m1 = wr r (ck_next m b) m"
      define m2 where "m2 = wr (r + 8) (ck_pagecnt m1 b - cnt) m1"
      note sp = split_chunk [OF bn assms(3) True z dj(4), folded r_def, folded m1_def, folded m2_def]
      have s2: "cseg m2 (free_chunk_list m2) ys b"
        unfolding sp(3) by (rule cseg_frame [OF s]) (use sp(2) dj(5) in \<open>auto simp: same_outside_def\<close>)
      let ?m = "write_link (last_link ys) r m2"
      have b: "b mod PAGE_SIZE = 0" using bn(2) by (simp add: chunk_ok_def)
      have f: "free_set xs - pgs b cnt = free_set (ys @ (r, n - cnt) # zs)"
        using dj pgs_split [OF assms(3) True b] by (auto simp: xs(1) r_def)
      have "free_set ys \<inter> free_set ((r, n - cnt) # zs) = {}" 
        using dj pgs_split [OF assms(3) True b] by (auto simp: r_def)
      then have "chunks ?m (free_chunk_list ?m) (ys @ (r, n - cnt) # zs)" by (rule relink [OF s2 dj(1) sp(1)])
      moreover have "disjoint_chunks (ys @ (r, n - cnt) # zs)"
        using dj pgs_split [OF assms(3) True b] by (auto simp: r_def)
      ultimately have "free_is ?m (free_set xs - pgs b cnt)" unfolding free_is_def f by blast
      moreover have "same_outside (free_set xs) m ?m"
        by (rule same_outside_trans [OF sp(2) write_last_link(2) [OF s2 dj(1)]]) (auto simp: xs(1))
      ultimately show ?thesis
        using found [of b ?m n] r(1) assms(3) bn True xs
        by (simp add: alloc_phys_pages_def Some lb Let_def r_def m1_def m2_def)
    qed
  qed
qed

lemma free_pages_ok:
  assumes "free_is m F" and "chunk_ok (pp, cnt)" and "pgs pp cnt \<inter> F = {}"
  shows "free_is (free_phys_pages pp cnt m) (F \<union> pgs pp cnt)" and "same_outside (pgs pp cnt) m (free_phys_pages pp cnt m)"
proof -
  let ?m = "free_phys_pages pp cnt m"
  obtain xs where xs: "chunks m (free_chunk_list m) xs" "disjoint_chunks xs" "F = free_set xs"
    using assms(1) unfolding free_is_def by blast
  have m': "?m = (wr pp (free_chunk_list m) (wr (pp + 8) cnt m))\<lparr>free_chunk_list := pp\<rparr>"
    using assms(2) by (simp add: free_phys_pages_def chunk_ok_def)
  show so: "same_outside (pgs pp cnt) m ?m"
    using header_page [OF assms(2)] by (auto simp: m' same_outside_def wr_def)
  have "cseg ?m (free_chunk_list m) xs 0"
    by (rule cseg_frame [OF xs(1) [unfolded chunks_cseg]]) (use so assms(3) xs(3) in \<open>auto simp: same_outside_def\<close>)
  then have "chunks ?m (free_chunk_list ?m) ((pp, cnt) # xs)"
    using assms(2) by (auto simp: m' wr_def ck_next_def ck_pagecnt_def chunks_cseg)
  then show "free_is ?m (F \<union> pgs pp cnt)"
    unfolding free_is_def using xs assms(3) by (intro exI [of _ "(pp, cnt) # xs"]) auto
qed

lemma free_isE:
  assumes "free_is m F" and "0 < cnt"
  obtains (no_room) "alloc_phys_pages cnt m = Some (0, m)" "cnt = 1 \<Longrightarrow> F = {}"
  | (found) pp m' where "alloc_phys_pages cnt m = Some (pp, m')" "chunk_ok (pp, cnt)" "pgs pp cnt \<subseteq> F"
      "free_is m' (F - pgs pp cnt)" "same_outside F m m'"
proof -
  obtain xs where xs: "chunks m (free_chunk_list m) xs" "disjoint_chunks xs" "F = free_set xs"
    using assms(1) unfolding free_is_def by blast
  show ?thesis
  proof (rule alloc_pages_ok [OF xs(1,2) assms(2)])
    assume a: "alloc_phys_pages cnt m = Some (0, m)" "\<forall>x\<in>set xs. snd x < cnt"
    have "xs = []" if "cnt = 1"
      using a(2) xs(1) that by (cases xs) (auto simp: chunk_ok_def)
    then show ?thesis using a(1) no_room xs(3) by simp
  next
    fix b n m'
    assume a: "alloc_phys_pages cnt m = Some (b, m')" "(b, n) \<in> set xs" "chunk_ok (b, n)" "cnt \<le> n"
      "free_is m' (free_set xs - pgs b cnt)" "same_outside (free_set xs) m m'"
    have "b + n * PAGE_SIZE \<le> 2 ^ 56" using a(3) by (simp add: chunk_ok_def)
    then have "b + cnt * PAGE_SIZE \<le> 2 ^ 56" by (rule order_trans [rotated]) (use a(4) in simp)
    then have "chunk_ok (b, cnt)" using a(3) assms(2) by (simp add: chunk_ok_def)
    moreover have "pgs b n \<subseteq> free_set xs" using a(2) by (induction xs) auto
    moreover have "pgs b cnt \<subseteq> pgs b n" using a(4) by (auto simp: pgs_def)
    ultimately show ?thesis using found [OF a(1)] a xs(3) by blast
  qed
qed

lemma alloc_page_ok:
  assumes "free_is m F"
  obtains (no_room) "alloc_phys_page m = Some (0, m)" "F = {}"
  | (found) n m' where "alloc_phys_page m = Some (n * PAGE_SIZE, m')" "n \<in> F" "0 < n" "n < 2 ^ 44"
      "free_is m' (F - {n})" "same_outside F m m'"
proof (rule free_isE [OF assms, of 1])
  assume "alloc_phys_pages 1 m = Some (0, m)" "1 = 1 \<Longrightarrow> F = {}"
  then show ?thesis using no_room by (simp add: alloc_phys_page_def)
next
  fix pp m'
  assume a: "alloc_phys_pages 1 m = Some (pp, m')" "chunk_ok (pp, 1)" "pgs pp 1 \<subseteq> F" "free_is m' (F - pgs pp 1)"
    "same_outside F m m'"
  obtain n where n: "pp = n * PAGE_SIZE"
    using a(2) by (auto simp: chunk_ok_def mod_eq_0_iff_dvd dvd_def mult.commute)
  have "pgs pp 1 = {n}" by (auto simp: pgs_def n PAGE_SIZE_def)
  moreover have "0 < n" "n < 2 ^ 44" using a(2) by (auto simp: n chunk_ok_def PAGE_SIZE_def)
  ultimately show ?thesis using found [of n m'] a n by (simp add: alloc_phys_page_def)
qed simp

lemma free_page_ok:
  assumes "free_is m F" and "n \<notin> F" and "0 < n" and "n < 2 ^ 44"
  shows "free_is (free_phys_page (n * PAGE_SIZE) m) (insert n F)" and "same_outside {n} m (free_phys_page (n * PAGE_SIZE) m)"
proof -
  have p: "pgs (n * PAGE_SIZE) 1 = {n}" by (auto simp: pgs_def PAGE_SIZE_def)
  have c: "chunk_ok (n * PAGE_SIZE, 1)" using assms(3,4) by (simp add: chunk_ok_def PAGE_SIZE_def)
  show "free_is (free_phys_page (n * PAGE_SIZE) m) (insert n F)" "same_outside {n} m (free_phys_page (n * PAGE_SIZE) m)"
    using free_pages_ok [OF assms(1) c] assms(2) p by (simp_all add: free_phys_page_def)
qed

lemma free_is_frame:
  assumes "free_is m F" and "free_chunk_list m' = free_chunk_list m"
    and "\<And>a. a div PAGE_SIZE \<in> F \<Longrightarrow> mem m' a = mem m a"
  shows "free_is m' F"
proof -
  obtain xs where xs: "chunks m (free_chunk_list m) xs" "disjoint_chunks xs" "F = free_set xs"
    using assms(1) unfolding free_is_def by blast
  have "cseg m' (free_chunk_list m) xs 0"
    by (rule cseg_frame [OF xs(1) [unfolded chunks_cseg]]) (use assms(3) xs(3) in auto)
  then show ?thesis unfolding free_is_def chunks_cseg assms(2) using xs(2,3) by blast
qed

lemma count_loop_ok:
  assumes "chunks m p xs" and "disjoint_chunks xs" and "n + card (free_set xs) < 2 ^ 64"
  shows "count_loop m p n = Some (n + card (free_set xs))"
  using assms
proof (induction xs arbitrary: p n)
  case Nil
  then show ?case by (simp add: count_loop.simps)
next
  case (Cons x xs)
  have "card (free_set (x # xs)) = snd x + card (free_set xs)"
    using Cons.prems(2) by (simp add: card_Un_disjoint pgs_def)
  then show ?case
    using Cons.prems Cons.IH [of "ck_next m p" "n + snd x"]
    by (auto simp: count_loop.simps [of m p] chunk_ok_def u64_def)
qed

lemma free_set_bound: "chunks m p xs \<Longrightarrow> free_set xs \<subseteq> {..<2 ^ 44}"
  by (induction xs arbitrary: p) (auto simp: chunk_ok_def pgs_def PAGE_SIZE_def)

lemma count_ok:
  assumes "free_is m F"
  shows "free_phys_page_count m = Some (card F)"
proof -
  obtain xs where xs: "chunks m (free_chunk_list m) xs" "disjoint_chunks xs" "F = free_set xs"
    using assms unfolding free_is_def by blast
  have "card F \<le> card {..<(2::nat) ^ 44}" using free_set_bound [OF xs(1)] xs(3) by (intro card_mono) simp_all
  then show ?thesis using count_loop_ok [OF xs(1,2), of 0] xs(3) by (simp add: free_phys_page_count_def)
qed

subsection \<open>A pool of pages\<close>

text \<open>What the page tables and the heap rely on: a pool hands out pages that were free, one at a
  time until it is exhausted, and takes back pages that are not free.\<close>

locale page_pool =
  fixes inv :: "'m \<Rightarrow> nat set \<Rightarrow> bool" and alloc :: "'m \<Rightarrow> (nat \<times> 'm) option" and free :: "nat \<Rightarrow> 'm \<Rightarrow> 'm"
  assumes alloc_some: "inv m F \<Longrightarrow> F \<noteq> {} \<Longrightarrow>
      \<exists>n m'. alloc m = Some (n * PAGE_SIZE, m') \<and> n \<in> F \<and> 0 < n \<and> n < 2 ^ 44 \<and> inv m' (F - {n})"
    and alloc_none: "inv m {} \<Longrightarrow> alloc m = Some (0, m)"
    and free_page: "inv m F \<Longrightarrow> n \<notin> F \<Longrightarrow> 0 < n \<Longrightarrow> n < 2 ^ 44 \<Longrightarrow> inv (free (n * PAGE_SIZE) m) (insert n F)"
begin

fun take_pages :: "nat \<Rightarrow> 'm \<Rightarrow> (nat list \<times> 'm) option" where
  "take_pages 0 m = Some ([], m)"
| "take_pages (Suc k) m =
     do { (p, m) \<leftarrow> alloc m; (ps, m) \<leftarrow> take_pages k m; Some (p # ps, m) }"

lemma take_pages_distinct:
  assumes "inv m F" and "finite F" and "k \<le> card F"
  shows "\<exists>ns m'. take_pages k m = Some (map (\<lambda>n. n * PAGE_SIZE) ns, m') \<and> length ns = k \<and> distinct ns \<and>
    set ns \<subseteq> F \<and> (\<forall>n\<in>set ns. 0 < n \<and> n < 2 ^ 44) \<and> inv m' (F - set ns)"
  using assms
proof (induction k arbitrary: m F)
  case 0
  then show ?case by simp
next
  case (Suc k)
  have "F \<noteq> {}" using Suc.prems by auto
  then obtain n m1 where n: "alloc m = Some (n * PAGE_SIZE, m1)" "n \<in> F" "0 < n" "n < 2 ^ 44" "inv m1 (F - {n})"
    using alloc_some [OF Suc.prems(1)] by blast
  have "k \<le> card (F - {n})" using Suc.prems n(2) by simp
  then obtain ns m' where ns: "take_pages k m1 = Some (map (\<lambda>n. n * PAGE_SIZE) ns, m')" "length ns = k" "distinct ns"
      "set ns \<subseteq> F - {n}" "\<forall>n\<in>set ns. 0 < n \<and> n < 2 ^ 44" "inv m' (F - {n} - set ns)"
    using Suc.IH [OF n(5)] Suc.prems(2) by blast
  moreover have "F - insert n (set ns) = F - {n} - set ns" by blast
  ultimately show ?case using n by (intro exI [of _ "n # ns"] exI [of _ m']) auto
qed

lemma give_back:
  assumes "inv m (F - set ns)" and "distinct ns" and "set ns \<subseteq> F" and "\<forall>n\<in>set ns. 0 < n \<and> n < 2 ^ 44"
  shows "inv (fold (\<lambda>n. free (n * PAGE_SIZE)) ns m) F"
  using assms
proof (induction ns arbitrary: m)
  case (Cons n ns)
  have "insert n (F - set (n # ns)) = F - set ns" using Cons.prems(2,3) by auto
  then have "inv (free (n * PAGE_SIZE) m) (F - set ns)"
    using free_page [OF Cons.prems(1), of n] Cons.prems by auto
  then show ?case using Cons.IH Cons.prems by simp
qed simp

end

interpretation pool: page_pool free_is alloc_phys_page free_phys_page
proof
  fix m F
  assume f: "free_is m F" and "F \<noteq> {}"
  then show "\<exists>n m'. alloc_phys_page m = Some (n * PAGE_SIZE, m') \<and> n \<in> F \<and> 0 < n \<and> n < 2 ^ 44 \<and> free_is m' (F - {n})"
    by (cases rule: alloc_page_ok [OF f]) auto
next
  fix m
  assume f: "free_is m {}"
  then show "alloc_phys_page m = Some (0, m)" by (cases rule: alloc_page_ok [OF f]) auto
next
  fix m F n
  assume "free_is m F" "n \<notin> F" "0 < n" "n < (2 :: nat) ^ 44"
  then show "free_is (free_phys_page (n * PAGE_SIZE) m) (insert n F)" by (rule free_page_ok(1))
qed

text \<open>C31: the page allocator implements a set of free pages. A request for \<open>cnt\<close> pages returns the
  address of \<open>cnt\<close> consecutive free pages, which are no longer free, or null; it writes only to
  free pages; a request for one page fails only when no page is free. Returning the pages restores
  the set, and the count is the size of the set.\<close>

theorem page_allocator_refines_set:
  assumes "free_is m F" and "0 < cnt"
  shows "free_phys_page_count m = Some (card F) \<and>
    (alloc_phys_pages cnt m = Some (0, m) \<and> (cnt = 1 \<longrightarrow> F = {}) \<or>
     (\<exists>pp m'. alloc_phys_pages cnt m = Some (pp, m') \<and> pp \<noteq> 0 \<and> pp mod PAGE_SIZE = 0 \<and> pgs pp cnt \<subseteq> F \<and>
        free_is m' (F - pgs pp cnt) \<and> same_outside F m m' \<and>
        free_is (free_phys_pages pp cnt m') F))"
proof (rule free_isE [OF assms])
  assume "alloc_phys_pages cnt m = Some (0, m)" "cnt = 1 \<Longrightarrow> F = {}"
  then show ?thesis using count_ok [OF assms(1)] by blast
next
  fix pp m'
  assume a: "alloc_phys_pages cnt m = Some (pp, m')" "chunk_ok (pp, cnt)" "pgs pp cnt \<subseteq> F"
    "free_is m' (F - pgs pp cnt)" "same_outside F m m'"
  have "free_is (free_phys_pages pp cnt m') (F - pgs pp cnt \<union> pgs pp cnt)"
    by (rule free_pages_ok(1) [OF a(4,2)]) blast
  moreover have "F - pgs pp cnt \<union> pgs pp cnt = F" using a(3) by blast
  moreover have "pp \<noteq> 0" "pp mod PAGE_SIZE = 0" using a(2) by (auto simp: chunk_ok_def)
  ultimately show ?thesis using count_ok [OF assms(1)] a by auto
qed

theorem page_allocator_refines_set_witness:
  defines "m \<equiv> \<lparr>mem = (\<lambda>a. if a = 8192 + 8 then 3 else 0), free_chunk_list = 8192, satp = 0, main_mtag = 0\<rparr>"
  shows "free_phys_page_count m = Some 3 \<and>
    (\<exists>pp m'. alloc_phys_pages 1 m = Some (pp, m') \<and> pp \<noteq> 0 \<and> free_is (free_phys_pages pp 1 m') {2, 3, 4})"
proof -
  have s: "pgs 8192 3 = {2, 3, 4}" by (auto simp: pgs_def PAGE_SIZE_def)
  have "free_is m {2, 3, 4}"
    unfolding free_is_def
    by (intro exI [of _ "[(8192, 3)]"]) (simp add: m_def ck_next_def ck_pagecnt_def chunk_ok_def s, simp add: PAGE_SIZE_def)
  then show ?thesis using page_allocator_refines_set [of m "{2, 3, 4}" 1] by simp blast
qed

end
