(* ===== verification/Vm.thy ===== *)
theory Vm
  imports Pages "HOL-Library.Word"
begin

text \<open>
  Virtual memory: the Sv39 page tables of kernel/memory.c. A page table entry is a 64-bit word with
  the flags in bits 0 to 7 and the page number in bits 10 to 53; an entry is read and written in the
  physical memory of \<open>Pages\<close>, which also holds the free chunks, so that a table that were also free
  would be corrupted. \<open>sv39\<close> is the translation of the privileged architecture, the specification
  the operations are proved against.
\<close>

unbundle bit_operations_syntax

subsection \<open>Entries\<close>

definition PTE_CNT :: nat where "PTE_CNT = 512"
definition PTE_V :: nat where "PTE_V = push_bit 0 1"
definition PTE_R :: nat where "PTE_R = push_bit 1 1"
definition PTE_W :: nat where "PTE_W = push_bit 2 1"
definition PTE_X :: nat where "PTE_X = push_bit 3 1"
definition PTE_U :: nat where "PTE_U = push_bit 4 1"
definition PTE_G :: nat where "PTE_G = push_bit 5 1"
definition PTE_A :: nat where "PTE_A = push_bit 6 1"
definition PTE_D :: nat where "PTE_D = push_bit 7 1"

definition pte_flags :: "nat \<Rightarrow> nat" where
  "pte_flags e = take_bit 8 e"

definition pte_ppn :: "nat \<Rightarrow> nat" where
  "pte_ppn e = take_bit 44 (drop_bit 10 e)"

definition mk_pte :: "nat \<Rightarrow> nat \<Rightarrow> nat" where
  "mk_pte fl n = take_bit 8 fl OR push_bit 10 (take_bit 44 n)"

definition PTE_VALID :: "nat \<Rightarrow> bool" where
  "PTE_VALID e = (pte_flags e AND PTE_V \<noteq> 0)"

definition PTE_GLOBAL :: "nat \<Rightarrow> bool" where
  "PTE_GLOBAL e = (pte_flags e AND PTE_G \<noteq> 0)"

definition PTE_LEAF :: "nat \<Rightarrow> bool" where
  "PTE_LEAF e = (pte_flags e AND (PTE_R OR PTE_W OR PTE_X) \<noteq> 0)"

definition pageptr :: "nat \<Rightarrow> nat" where
  "pageptr n = u64 (n * PAGE_SIZE)"

definition pagenum :: "nat \<Rightarrow> nat" where
  "pagenum p = p div PAGE_SIZE"

definition leaf_pte :: "nat \<Rightarrow> nat \<Rightarrow> nat" where
  "leaf_pte pp rwxug_flags = mk_pte (rwxug_flags OR PTE_A OR PTE_D OR PTE_V) (pagenum pp)"

definition ptab_pte :: "nat \<Rightarrow> nat \<Rightarrow> nat" where
  "ptab_pte pt g_flag = mk_pte (g_flag OR PTE_V) (pagenum pt)"

definition null_pte :: nat where
  "null_pte = 0"

definition VPN :: "nat \<Rightarrow> nat" where
  "VPN vma = vma div PAGE_SIZE"

definition VPN2 :: "nat \<Rightarrow> nat" where
  "VPN2 vma = VPN vma div 2 ^ (2 * 9) mod PTE_CNT"

definition VPN1 :: "nat \<Rightarrow> nat" where
  "VPN1 vma = VPN vma div 2 ^ (1 * 9) mod PTE_CNT"

definition VPN0 :: "nat \<Rightarrow> nat" where
  "VPN0 vma = VPN vma div 2 ^ (0 * 9) mod PTE_CNT"

text \<open>The arithmetic shift of the address as a signed number.\<close>

definition wellformed :: "nat \<Rightarrow> bool" where
  "wellformed vma =
     (let bits = signed_drop_bit 38 (word_of_nat vma :: 64 word)
      in bits = 0 \<or> bits + 1 = 0)"

definition ROUND_UP :: "nat \<Rightarrow> nat \<Rightarrow> nat" where
  "ROUND_UP n k = u64 (n + k - 1) div k * k"

subsection \<open>Memory spaces\<close>

definition ptab_to_mtag :: "nat \<Rightarrow> nat \<Rightarrow> nat" where
  "ptab_to_mtag ptab asid = push_bit 60 8 OR push_bit 44 asid OR pagenum ptab"

definition mtag_to_ptab :: "nat \<Rightarrow> nat" where
  "mtag_to_ptab mtag = drop_bit 8 (u64 (push_bit 20 mtag))"

definition active_space_ptab :: "kmem \<Rightarrow> nat" where
  "active_space_ptab m = mtag_to_ptab (satp m)"

definition switch_mspace :: "nat \<Rightarrow> kmem \<Rightarrow> nat \<times> kmem" where
  "switch_mspace mtag m = (satp m, m\<lparr>satp := mtag\<rparr>)"

subsection \<open>Walking and mapping\<close>

text \<open>\<open>memset(p, 0, PAGE_SIZE)\<close> and \<open>memcpy(d, s, PAGE_SIZE)\<close>.\<close>

definition zero_page :: "nat \<Rightarrow> kmem \<Rightarrow> kmem" where
  "zero_page p m = m\<lparr>mem := (\<lambda>a. if p \<le> a \<and> a < p + PAGE_SIZE then 0 else mem m a)\<rparr>"

definition copy_page :: "nat \<Rightarrow> nat \<Rightarrow> kmem \<Rightarrow> kmem" where
  "copy_page d s m = m\<lparr>mem := (\<lambda>a. if d \<le> a \<and> a < d + PAGE_SIZE then mem m (s + (a - d)) else mem m a)\<rparr>"

text \<open>One level of \<open>walk\<close>: from the entry at \<open>slot\<close> to the table below it.\<close>

definition descend :: "nat \<Rightarrow> bool \<Rightarrow> kmem \<Rightarrow> (nat option \<times> kmem) option" where
  "descend slot alloc m =
     do {
       (ok, m) \<leftarrow>
         (if \<not> PTE_VALID (mem m slot)
          then if \<not> alloc then Some (False, m)
               else do {
                 (pt, m) \<leftarrow> alloc_phys_page m;
                 if pt = 0 then Some (False, m)
                 else Some (True, wr slot (ptab_pte pt 0) (zero_page pt m))
               }
          else Some (True, m));
       Some (if \<not> ok \<or> PTE_LEAF (mem m slot) then None else Some (pageptr (pte_ppn (mem m slot))), m)
     }"

definition walk_pt :: "nat \<Rightarrow> bool \<Rightarrow> kmem \<Rightarrow> (nat option \<times> kmem) option" where
  "walk_pt vma alloc m =
     do {
       (r, m) \<leftarrow> descend (active_space_ptab m + 8 * VPN2 vma) alloc m;
       case r of
         None \<Rightarrow> Some (None, m)
       | Some pt \<Rightarrow> do {
           (r, m) \<leftarrow> descend (pt + 8 * VPN1 vma) alloc m;
           Some (map_option (\<lambda>pt. pt + 8 * VPN0 vma) r, m)
         }
     }"

definition map_page :: "nat \<Rightarrow> nat \<Rightarrow> nat \<Rightarrow> kmem \<Rightarrow> (nat \<times> kmem) option" where
  "map_page vma pp rwxug_flags m =
     (if \<not> wellformed vma \<or> vma mod PAGE_SIZE \<noteq> 0 then Some (0, m)
      else do {
        (r, m) \<leftarrow> walk_pt vma True m;
        case r of
          None \<Rightarrow> Some (0, m)
        | Some leaf \<Rightarrow> Some (vma, wr leaf (leaf_pte pp rwxug_flags) m)
      })"

text \<open>The offsets of the pages of a range, in the order of the loops.\<close>

definition page_offs :: "nat \<Rightarrow> nat list" where
  "page_offs sz = map (\<lambda>i. i * PAGE_SIZE) [0..<ROUND_UP sz PAGE_SIZE div PAGE_SIZE]"

fun map_range_loop :: "nat \<Rightarrow> nat \<Rightarrow> nat \<Rightarrow> nat list \<Rightarrow> kmem \<Rightarrow> (nat \<times> kmem) option" where
  "map_range_loop vma pp fl [] m = Some (vma, m)"
| "map_range_loop vma pp fl (off # offs) m =
     do {
       (r, m) \<leftarrow> map_page (u64 (vma + off)) (u64 (pp + off)) fl m;
       if r = 0 then Some (0, m) else map_range_loop vma pp fl offs m
     }"

definition map_range :: "nat \<Rightarrow> nat \<Rightarrow> nat \<Rightarrow> nat \<Rightarrow> kmem \<Rightarrow> (nat \<times> kmem) option" where
  "map_range vma sz pp fl m = map_range_loop vma pp fl (page_offs sz) m"

fun alloc_and_map_loop :: "nat \<Rightarrow> nat \<Rightarrow> nat list \<Rightarrow> kmem \<Rightarrow> (nat \<times> kmem) option" where
  "alloc_and_map_loop vma fl [] m = Some (vma, m)"
| "alloc_and_map_loop vma fl (off # offs) m =
     do {
       (pp, m) \<leftarrow> alloc_phys_page m;
       if pp = 0 then Some (0, m)
       else do {
         (r, m) \<leftarrow> map_page (u64 (vma + off)) pp fl m;
         if r = 0 then Some (0, free_phys_page pp m) else alloc_and_map_loop vma fl offs m
       }
     }"

definition alloc_and_map_range :: "nat \<Rightarrow> nat \<Rightarrow> nat \<Rightarrow> kmem \<Rightarrow> (nat \<times> kmem) option" where
  "alloc_and_map_range vma sz fl m = alloc_and_map_loop vma fl (page_offs sz) m"

fun set_flags_loop :: "nat \<Rightarrow> nat \<Rightarrow> nat list \<Rightarrow> kmem \<Rightarrow> kmem option" where
  "set_flags_loop vma fl [] m = Some m"
| "set_flags_loop vma fl (off # offs) m =
     do {
       (r, m) \<leftarrow> walk_pt (u64 (vma + off)) False m;
       case r of
         None \<Rightarrow> set_flags_loop vma fl offs m
       | Some leaf \<Rightarrow>
           if \<not> PTE_VALID (mem m leaf) then set_flags_loop vma fl offs m
           else set_flags_loop vma fl offs
                  (wr leaf (push_bit 8 (drop_bit 8 (mem m leaf)) OR take_bit 8 (fl OR PTE_A OR PTE_D OR PTE_V)) m)
     }"

definition set_range_flags :: "nat \<Rightarrow> nat \<Rightarrow> nat \<Rightarrow> kmem \<Rightarrow> kmem option" where
  "set_range_flags vp sz fl m = set_flags_loop vp fl (page_offs sz) m"

fun unmap_loop :: "nat \<Rightarrow> nat list \<Rightarrow> kmem \<Rightarrow> kmem option" where
  "unmap_loop vma [] m = Some m"
| "unmap_loop vma (off # offs) m =
     do {
       (r, m) \<leftarrow> walk_pt (u64 (vma + off)) False m;
       case r of
         None \<Rightarrow> unmap_loop vma offs m
       | Some leaf \<Rightarrow>
           if \<not> PTE_VALID (mem m leaf) then unmap_loop vma offs m
           else let pp = pageptr (pte_ppn (mem m leaf))
                in unmap_loop vma offs (free_phys_page pp (wr leaf null_pte m))
     }"

definition unmap_and_free_range :: "nat \<Rightarrow> nat \<Rightarrow> kmem \<Rightarrow> kmem option" where
  "unmap_and_free_range vp sz m = unmap_loop vp (page_offs sz) m"

subsection \<open>Page faults\<close>

definition UMEM_START_VMA :: nat where "UMEM_START_VMA = 0xC0000000"
definition UMEM_END_VMA :: nat where "UMEM_END_VMA = 0xF0000000"

definition handle_umode_page_fault :: "nat \<Rightarrow> kmem \<Rightarrow> (int \<times> kmem) option" where
  "handle_umode_page_fault vma m =
     (if vma < UMEM_START_VMA \<or> vma \<ge> UMEM_END_VMA then Some (0, m)
      else do {
        let page_vma = vma div PAGE_SIZE * PAGE_SIZE;
        (pp, m) \<leftarrow> alloc_phys_page m;
        if pp = 0 then Some (0, m)
        else do {
          (r, m) \<leftarrow> map_page page_vma pp (PTE_R OR PTE_W OR PTE_X OR PTE_U) (zero_page pp m);
          if r = 0 then Some (0, free_phys_page pp m) else Some (1, m)
        }
      })"

subsection \<open>Copying and discarding a memory space\<close>

text \<open>The recursion of \<open>clone_pt\<close> over the entries of one table; the result is false when memory
  has run out. On tables with a cycle it does not end.\<close>

partial_function (option) clone_entries :: "nat \<Rightarrow> nat \<Rightarrow> nat \<Rightarrow> kmem \<Rightarrow> (bool \<times> kmem) option" where
  "clone_entries old_pt new_pt i m =
     (if \<not> i < PTE_CNT then Some (True, m)
      else let e = mem m (old_pt + 8 * i)
        in if \<not> PTE_VALID e then clone_entries old_pt new_pt (i + 1) m
           else if pte_flags e AND PTE_G \<noteq> 0
           then clone_entries old_pt new_pt (i + 1) (wr (new_pt + 8 * i) e m)
           else Option.bind (alloc_phys_page m) (\<lambda>(p, m).
             if p = 0 then Some (False, m)
             else if PTE_LEAF e
             then clone_entries old_pt new_pt (i + 1)
                    (wr (new_pt + 8 * i) (e - push_bit 10 (pte_ppn e) + push_bit 10 (take_bit 44 (pagenum p)))
                      (copy_page p (pageptr (pte_ppn e)) m))
             else Option.bind (clone_entries (pageptr (pte_ppn e)) p 0 (zero_page p m)) (\<lambda>(ok, m).
               if \<not> ok then Some (False, m)
               else clone_entries old_pt new_pt (i + 1) (wr (new_pt + 8 * i) (ptab_pte p (pte_flags e AND PTE_G)) m))))"

definition clone_pt :: "nat \<Rightarrow> kmem \<Rightarrow> (nat \<times> kmem) option" where
  "clone_pt old_pt m =
     do {
       (new_pt, m) \<leftarrow> alloc_phys_page m;
       if new_pt = 0 then Some (0, m)
       else do {
         (ok, m) \<leftarrow> clone_entries old_pt new_pt 0 (zero_page new_pt m);
         Some (if ok then new_pt else 0, m)
       }
     }"

definition clone_active_mspace :: "kmem \<Rightarrow> (nat \<times> kmem) option" where
  "clone_active_mspace m =
     do {
       (new_root, m) \<leftarrow> clone_pt (active_space_ptab m) m;
       Some (if new_root = 0 then 0 else ptab_to_mtag new_root 0, m)
     }"

partial_function (option) free_user_entries :: "nat \<Rightarrow> nat \<Rightarrow> bool \<Rightarrow> kmem \<Rightarrow> (bool \<times> kmem) option" where
  "free_user_entries pt i has_global m =
     (if \<not> i < PTE_CNT then Some (has_global, m)
      else let e = mem m (pt + 8 * i)
        in if \<not> PTE_VALID e then free_user_entries pt (i + 1) has_global m
           else if pte_flags e AND PTE_G \<noteq> 0 then free_user_entries pt (i + 1) True m
           else if PTE_LEAF e
           then free_user_entries pt (i + 1) has_global
                  (wr (pt + 8 * i) null_pte (free_phys_page (pageptr (pte_ppn e)) m))
           else Option.bind (free_user_entries (pageptr (pte_ppn e)) 0 False m) (\<lambda>(child_has_global, m).
             free_user_entries pt (i + 1) has_global
               (wr (pt + 8 * i) null_pte
                 (if child_has_global then m else free_phys_page (pageptr (pte_ppn e)) m))))"

definition free_user_pt :: "nat \<Rightarrow> kmem \<Rightarrow> (bool \<times> kmem) option" where
  "free_user_pt pt m = free_user_entries pt 0 False m"

definition reset_active_mspace :: "kmem \<Rightarrow> kmem option" where
  "reset_active_mspace m = map_option snd (free_user_pt (active_space_ptab m) m)"

definition discard_active_mspace :: "kmem \<Rightarrow> (nat \<times> kmem) option" where
  "discard_active_mspace m =
     (let old = satp m;
          m = m\<lparr>satp := main_mtag m\<rparr>;
          old_root = mtag_to_ptab old
      in do {
        (_, m) \<leftarrow> free_user_pt old_root m;
        Some (old, free_phys_page old_root m)
      })"

subsection \<open>Bits of an entry\<close>

lemmas pte_bits = PTE_V_def PTE_R_def PTE_W_def PTE_X_def PTE_U_def PTE_G_def PTE_A_def PTE_D_def

lemma flag_and: "take_bit 8 e AND push_bit k 1 \<noteq> 0 \<longleftrightarrow> k < 8 \<and> bit e k" for e :: nat
proof -
  have "take_bit 8 e AND push_bit k 1 = (if k < 8 \<and> bit e k then push_bit k 1 else 0)"
    by (rule bit_eqI) (auto simp: bit_and_iff bit_or_iff bit_take_bit_iff bit_push_bit_iff_nat bit_1_iff bit_exp_iff)
  then show ?thesis by (simp add: push_bit_eq_mult)
qed

lemma and_or_distrib_nz: "x AND (y OR z) \<noteq> 0 \<longleftrightarrow> x AND y \<noteq> 0 \<or> x AND z \<noteq> 0" for x y z :: nat
  by (auto simp: bit_eq_iff bit_and_iff bit_or_iff)

lemma PTE_VALID_bit: "PTE_VALID e \<longleftrightarrow> bit e 0"
  unfolding PTE_VALID_def pte_flags_def pte_bits flag_and by simp

lemma PTE_LEAF_bit: "PTE_LEAF e \<longleftrightarrow> bit e 1 \<or> bit e 2 \<or> bit e 3"
  unfolding PTE_LEAF_def pte_flags_def pte_bits and_or_distrib_nz flag_and by simp

lemma bit_mk_pte: "bit (mk_pte fl n) k \<longleftrightarrow> (if k < 8 then bit fl k else 10 \<le> k \<and> k < 54 \<and> bit n (k - 10))"
  by (auto simp: mk_pte_def bit_or_iff bit_take_bit_iff bit_push_bit_iff_nat)

lemma pte_ppn_mk [simp]:
  assumes "n < 2 ^ 44"
  shows "pte_ppn (mk_pte fl n) = n"
proof -
  have "pte_ppn (mk_pte fl n) = take_bit 44 n"
    unfolding pte_ppn_def by (rule bit_eqI) (auto simp: bit_take_bit_iff bit_drop_bit_eq bit_mk_pte)
  then show ?thesis using assms by (simp add: take_bit_nat_eq_self)
qed

lemma pte_flags_mk: "pte_flags (mk_pte fl n) = take_bit 8 fl"
  unfolding pte_flags_def by (rule bit_eqI) (auto simp: bit_take_bit_iff bit_mk_pte)

lemma ptab_pte_facts [simp]:
  "PTE_VALID (ptab_pte pt 0)" "\<not> PTE_LEAF (ptab_pte pt 0)"
  "n < 2 ^ 44 \<Longrightarrow> pte_ppn (ptab_pte (n * PAGE_SIZE) 0) = n"
  by (simp_all add: PTE_VALID_bit PTE_LEAF_bit ptab_pte_def bit_mk_pte pte_bits pagenum_def PAGE_SIZE_def bit_1_iff bit_Suc_0_iff)

lemma leaf_pte_valid [simp]: "PTE_VALID (leaf_pte pp fl)"
  by (simp add: PTE_VALID_bit leaf_pte_def bit_mk_pte pte_bits bit_or_iff bit_exp_iff)

lemma leaf_pte_leaf: "PTE_LEAF (leaf_pte pp fl) \<longleftrightarrow> bit fl 1 \<or> bit fl 2 \<or> bit fl 3"
  by (simp add: PTE_LEAF_bit leaf_pte_def bit_mk_pte pte_bits bit_or_iff bit_exp_iff bit_1_iff)

lemma zero_entry_invalid [simp]: "\<not> PTE_VALID 0" "\<not> PTE_LEAF 0"
  by (simp_all add: PTE_VALID_bit PTE_LEAF_bit)

lemma pte_ppn_bound: "pte_ppn e < 2 ^ 44"
  unfolding pte_ppn_def by (rule take_bit_nat_less_exp)

lemma pageptr_small [simp]: "n < 2 ^ 44 \<Longrightarrow> pageptr n = n * PAGE_SIZE"
  by (simp add: pageptr_def u64_def PAGE_SIZE_def)

lemma pageptr_ppn [simp]: "pageptr (pte_ppn e) = pte_ppn e * PAGE_SIZE"
  by (rule pageptr_small [OF pte_ppn_bound])

subsection \<open>Translation\<close>

definition vpn :: "nat \<Rightarrow> nat \<Rightarrow> nat" where
  "vpn l vma = VPN vma div 2 ^ (l * 9) mod PTE_CNT"

lemma vpn_simps: "VPN2 vma = vpn 2 vma" "VPN1 vma = vpn 1 vma" "VPN0 vma = vpn 0 vma"
  by (simp_all add: vpn_def VPN2_def VPN1_def VPN0_def)

lemma vpn_less [simp]: "vpn l vma < PTE_CNT"
  by (simp add: vpn_def PTE_CNT_def)

text \<open>The entry that translates an address, with the level of the page it maps.\<close>

fun sv39 :: "kmem \<Rightarrow> nat \<Rightarrow> nat \<Rightarrow> nat \<Rightarrow> (nat \<times> nat) option" where
  "sv39 m 0 t vma =
     (let e = mem m (t + 8 * vpn 0 vma) in if PTE_VALID e \<and> PTE_LEAF e then Some (e, 0) else None)"
| "sv39 m (Suc l) t vma =
     (let e = mem m (t + 8 * vpn (Suc l) vma)
      in if \<not> PTE_VALID e then None
         else if PTE_LEAF e then Some (e, Suc l)
         else sv39 m l (pageptr (pte_ppn e)) vma)"

definition translate :: "kmem \<Rightarrow> nat \<Rightarrow> (nat \<times> nat) option" where
  "translate m vma = sv39 m 2 (active_space_ptab m) vma"

text \<open>
  The table at the end of a path of indices from the root, the deepest index first. The tables of a
  memory space form a tree, none of whose pages is free.
\<close>

fun tbl :: "kmem \<Rightarrow> nat \<Rightarrow> nat list \<Rightarrow> nat option" where
  "tbl m r [] = Some r"
| "tbl m r (i # p) =
     (case tbl m r p of
        None \<Rightarrow> None
      | Some t \<Rightarrow>
          let e = mem m (t + 8 * i)
          in if PTE_VALID e \<and> \<not> PTE_LEAF e then Some (pageptr (pte_ppn e)) else None)"

definition path :: "nat list \<Rightarrow> bool" where
  "path p = (length p \<le> 2 \<and> (\<forall>i\<in>set p. i < PTE_CNT))"

definition vm_ok :: "kmem \<Rightarrow> nat set \<Rightarrow> bool" where
  "vm_ok m F =
     (let r = active_space_ptab m
      in free_is m F \<and> r mod PAGE_SIZE = 0 \<and>
         (\<forall>p t. path p \<longrightarrow> tbl m r p = Some t \<longrightarrow> t div PAGE_SIZE \<notin> F) \<and>
         (\<forall>p q t. path p \<longrightarrow> path q \<longrightarrow> tbl m r p = Some t \<longrightarrow> tbl m r q = Some t \<longrightarrow> p = q))"

lemma path_simps [simp]: "path []" "path (i # p) \<longleftrightarrow> i < PTE_CNT \<and> length p < 2 \<and> path p"
  by (auto simp: path_def)

lemma tbl_aligned: "r mod PAGE_SIZE = 0 \<Longrightarrow> tbl m r p = Some t \<Longrightarrow> t mod PAGE_SIZE = 0"
  by (cases p) (auto simp: Let_def pte_ppn_bound split: option.splits if_splits)

lemma slot_page: "t mod PAGE_SIZE = 0 \<Longrightarrow> i < PTE_CNT \<Longrightarrow> (t + 8 * i) div PAGE_SIZE = t div PAGE_SIZE"
  by (auto simp: PAGE_SIZE_def PTE_CNT_def)

lemma slot_eq:
  assumes "t mod PAGE_SIZE = 0" "t' mod PAGE_SIZE = 0" "i < PTE_CNT" "j < PTE_CNT" "t + 8 * i = t' + 8 * j"
  shows "t = t' \<and> i = j"
proof -
  have "t div PAGE_SIZE = t' div PAGE_SIZE"
    using slot_page [OF assms(1,3)] slot_page [OF assms(2,4)] assms(5) by simp
  then have "t = t'" using assms(1,2) by (metis div_mult_mod_eq)
  then show ?thesis using assms(5) by simp
qed

lemma vm_okD:
  assumes "vm_ok m F"
  shows "free_is m F" and "active_space_ptab m mod PAGE_SIZE = 0"
    and "path p \<Longrightarrow> tbl m (active_space_ptab m) p = Some t \<Longrightarrow> t div PAGE_SIZE \<notin> F \<and> t mod PAGE_SIZE = 0"
    and "path p \<Longrightarrow> path q \<Longrightarrow> tbl m (active_space_ptab m) p = Some t \<Longrightarrow> tbl m (active_space_ptab m) q = Some t \<Longrightarrow> p = q"
  using assms tbl_aligned [of "active_space_ptab m" m p t] by (simp_all add: vm_ok_def Let_def)

lemma vm_slot_eq:
  assumes "vm_ok m F" and "path p" and "path q" and "i < PTE_CNT" and "j < PTE_CNT"
    and "tbl m (active_space_ptab m) p = Some t" and "tbl m (active_space_ptab m) q = Some t'"
    and "t + 8 * i = t' + 8 * j"
  shows "p = q \<and> i = j \<and> t = t'"
  using slot_eq [of t t' i j] vm_okD(3) [OF assms(1)] vm_okD(4) [OF assms(1-3)] assms by metis

subsection \<open>Changes that leave the tables alone\<close>

lemma tbl_agree:
  assumes "\<And>p t i. path p \<Longrightarrow> length p < 2 \<Longrightarrow> tbl m r p = Some t \<Longrightarrow> i < PTE_CNT \<Longrightarrow> mem m' (t + 8 * i) = mem m (t + 8 * i)"
    and "path q"
  shows "tbl m' r q = tbl m r q"
  using assms(2)
proof (induction q)
  case (Cons i q)
  then show ?case using assms(1) [of q _ i] by (cases "tbl m r q") auto
qed simp

lemma sv39_agree:
  assumes "\<And>p t i. path p \<Longrightarrow> tbl m r p = Some t \<Longrightarrow> i < PTE_CNT \<Longrightarrow> mem m' (t + 8 * i) = mem m (t + 8 * i)"
    and "path p" and "length p + l = 2" and "tbl m r p = Some t"
  shows "sv39 m' l t v = sv39 m l t v"
  using assms(2-4)
proof (induction l arbitrary: p t)
  case 0
  then show ?case using assms(1) [of p t "vpn 0 v"] by simp
next
  case (Suc l)
  have e: "mem m' (t + 8 * vpn (Suc l) v) = mem m (t + 8 * vpn (Suc l) v)"
    using assms(1) [OF Suc.prems(1,3)] by simp
  have "tbl m r (vpn (Suc l) v # p) = Some (pte_ppn (mem m (t + 8 * vpn (Suc l) v)) * PAGE_SIZE)"
    if "PTE_VALID (mem m (t + 8 * vpn (Suc l) v))" "\<not> PTE_LEAF (mem m (t + 8 * vpn (Suc l) v))"
    using that Suc.prems(3) by simp
  then show ?case using e Suc.IH [of "vpn (Suc l) v # p"] Suc.prems by (auto simp: Let_def)
qed

lemma active_space_cong: "satp m' = satp m \<Longrightarrow> active_space_ptab m' = active_space_ptab m"
  by (simp add: active_space_ptab_def)

lemma vm_frame:
  assumes "vm_ok m F" and "free_is m' F'" and "F' \<subseteq> F" and "same_outside F m m'"
  shows "vm_ok m' F'" and "translate m' v = translate m v"
    and "path q \<Longrightarrow> tbl m' (active_space_ptab m') q = tbl m (active_space_ptab m) q"
proof -
  let ?r = "active_space_ptab m"
  have r: "active_space_ptab m' = ?r" using assms(4) by (intro active_space_cong) (simp add: same_outside_def)
  have w: "mem m' (t + 8 * i) = mem m (t + 8 * i)" if "path p" "tbl m ?r p = Some t" "i < PTE_CNT" for p t i
    using vm_okD(3) [OF assms(1) that(1,2)] slot_page [of t i] that(3) assms(4) by (simp add: same_outside_def)
  have t: "tbl m' ?r q = tbl m ?r q" if "path q" for q
    by (rule tbl_agree) (use w that in auto)
  then show "path q \<Longrightarrow> tbl m' (active_space_ptab m') q = tbl m ?r q" by (simp add: r)
  show "vm_ok m' F'"
    using assms t vm_okD [OF assms(1)] unfolding vm_ok_def Let_def r by (metis subsetD)
  show "translate m' v = translate m v"
    unfolding translate_def r by (rule sv39_agree [where p = "[]", OF w]) simp_all
qed

subsection \<open>Installing a table\<close>

lemma tbl_install:
  assumes "vm_ok m F" and "path (i # p)" and "tbl m r p = Some t" and "r = active_space_ptab m"
    and "\<not> PTE_VALID (mem m (t + 8 * i))" and "path q" and "m' = wr (t + 8 * i) e m"
  shows "tbl m r q \<noteq> None \<Longrightarrow> tbl m' r q = tbl m r q"
  using assms(6)
proof (induction q)
  case (Cons j q)
  obtain t' where t': "tbl m r q = Some t'" using Cons.prems(1) by (cases "tbl m r q") auto
  have "t' + 8 * j \<noteq> t + 8 * i"
  proof
    assume "t' + 8 * j = t + 8 * i"
    then have "q = p \<and> j = i \<and> t' = t"
      using vm_slot_eq [OF assms(1), of q p j i t' t] Cons.prems assms(2-4) t' by simp
    then show False using Cons.prems(1) assms(3,5) by simp
  qed
  then show ?case using Cons t' by (simp add: assms(7) wr_def)
qed (simp add: assms(7))

lemma tbl_install_inv:
  assumes "vm_ok m F" and "path (i # p)" and "tbl m r p = Some t" and "r = active_space_ptab m"
    and "m' = wr (t + 8 * i) (ptab_pte (n * PAGE_SIZE) 0) m" and "n < 2 ^ 44" and "t div PAGE_SIZE \<noteq> n"
    and "\<And>j. j < PTE_CNT \<Longrightarrow> mem m (n * PAGE_SIZE + 8 * j) = 0"
    and "path q" and "tbl m' r q = Some x"
  shows "tbl m r q = Some x \<or> q = i # p \<and> x = n * PAGE_SIZE"
  using assms(9,10)
proof (induction q arbitrary: x)
  case (Cons j q)
  obtain t' where t': "tbl m' r q = Some t'" and e: "PTE_VALID (mem m' (t' + 8 * j))" "\<not> PTE_LEAF (mem m' (t' + 8 * j))"
      and x: "x = pte_ppn (mem m' (t' + 8 * j)) * PAGE_SIZE"
    using Cons.prems(2) by (auto simp: Let_def split: option.splits if_splits)
  have al: "t mod PAGE_SIZE = 0" using vm_okD(3) [OF assms(1), of p t] assms(2-4) by simp
  consider "tbl m r q = Some t'" | "q = i # p" "t' = n * PAGE_SIZE" using Cons.IH [OF _ t'] Cons.prems(1) by auto
  then show ?case
  proof cases
    case 1
    show ?thesis
    proof (cases "t' + 8 * j = t + 8 * i")
      case True
      then have "q = p \<and> j = i \<and> t' = t"
        using vm_slot_eq [OF assms(1), of q p j i t' t] Cons.prems assms(2-4) 1 by simp
      then show ?thesis using x assms(5,6) by (simp add: wr_def)
    next
      case False
      then show ?thesis using 1 e x by (simp add: assms(5) wr_def)
    qed
  next
    case 2
    have "n * PAGE_SIZE + 8 * j \<noteq> t + 8 * i"
      using slot_eq [of "n * PAGE_SIZE" t j i] al assms(2,7) Cons.prems(1) by (auto simp: PAGE_SIZE_def)
    then show ?thesis using e 2 assms(8) [of j] Cons.prems(1) by (simp add: assms(5) wr_def)
  qed
qed (simp add: assms(3,5))

lemma sv39_install:
  assumes "vm_ok m F" and "path (i # p)" and "tbl m r p = Some t" and "r = active_space_ptab m"
    and "\<not> PTE_VALID (mem m (t + 8 * i))"
    and "m' = wr (t + 8 * i) (ptab_pte (n * PAGE_SIZE) 0) m" and "n < 2 ^ 44" and "t div PAGE_SIZE \<noteq> n"
    and "\<And>j. j < PTE_CNT \<Longrightarrow> mem m (n * PAGE_SIZE + 8 * j) = 0"
    and "path q" and "length q + l = 2" and "tbl m r q = Some x"
  shows "sv39 m' l x v = sv39 m l x v"
  using assms(10-12)
proof (induction l arbitrary: q x)
  case 0
  have "x + 8 * vpn 0 v \<noteq> t + 8 * i"
    using vm_slot_eq [OF assms(1), of q p "vpn 0 v" i x t] 0 assms(2-4) by auto
  then show ?case by (simp add: assms(6) wr_def)
next
  case (Suc l)
  show ?case
  proof (cases "x + 8 * vpn (Suc l) v = t + 8 * i")
    case True
    have "n * PAGE_SIZE + 8 * vpn l v \<noteq> t + 8 * i"
      using slot_eq [of "n * PAGE_SIZE" t "vpn l v" i] vm_okD(3) [OF assms(1), of p t] assms(2-4,8)
      by (auto simp: PAGE_SIZE_def)
    then have "mem m' (n * PAGE_SIZE + 8 * vpn l v) = 0" using assms(9) by (simp add: assms(6) wr_def)
    then have "sv39 m' l (n * PAGE_SIZE) v = None" by (cases l) simp_all
    moreover have "mem m' (t + 8 * i) = ptab_pte (n * PAGE_SIZE) 0" by (simp add: assms(6) wr_def)
    ultimately show ?thesis using assms(5,7) True by (simp add: Let_def)
  next
    case False
    then have e: "mem m' (x + 8 * vpn (Suc l) v) = mem m (x + 8 * vpn (Suc l) v)" by (simp add: assms(6) wr_def)
    have "tbl m r (vpn (Suc l) v # q) = Some (pte_ppn (mem m (x + 8 * vpn (Suc l) v)) * PAGE_SIZE)"
      if "PTE_VALID (mem m (x + 8 * vpn (Suc l) v))" "\<not> PTE_LEAF (mem m (x + 8 * vpn (Suc l) v))"
      using that Suc.prems(3) by simp
    then show ?thesis using e Suc.IH [of "vpn (Suc l) v # q"] Suc.prems by (auto simp: Let_def)
  qed
qed

lemma install_ok:
  fixes m t i n
  defines "m' \<equiv> wr (t + 8 * i) (ptab_pte (n * PAGE_SIZE) 0) m"
  assumes "vm_ok m F" and "path (i # p)" and "tbl m (active_space_ptab m) p = Some t"
    and "\<not> PTE_VALID (mem m (t + 8 * i))" and "n < 2 ^ 44" and "n \<notin> F"
    and "\<forall>q x. path q \<longrightarrow> tbl m (active_space_ptab m) q = Some x \<longrightarrow> x div PAGE_SIZE \<noteq> n"
    and "\<forall>j<PTE_CNT. mem m (n * PAGE_SIZE + 8 * j) = 0"
  shows "vm_ok m' F" and "translate m' v = translate m v" and "active_space_ptab m' = active_space_ptab m"
    and "tbl m' (active_space_ptab m) (i # p) = Some (n * PAGE_SIZE)"
    and "path q \<Longrightarrow> tbl m (active_space_ptab m) q = Some x \<Longrightarrow> tbl m' (active_space_ptab m) q = Some x"
    and "\<And>a. a div PAGE_SIZE \<noteq> t div PAGE_SIZE \<Longrightarrow> mem m' a = mem m a"
    and "path q \<Longrightarrow> tbl m' (active_space_ptab m) q = Some x \<Longrightarrow> tbl m (active_space_ptab m) q = Some x \<or> x = n * PAGE_SIZE"
proof -
  let ?r = "active_space_ptab m"
  have t: "t div PAGE_SIZE \<notin> F" "t mod PAGE_SIZE = 0" "t div PAGE_SIZE \<noteq> n"
    using vm_okD(3) [OF assms(2)] assms(3,4,8) by auto
  have sp: "(t + 8 * i) div PAGE_SIZE = t div PAGE_SIZE" using slot_page [OF t(2)] assms(3) by simp
  have old: "tbl m' ?r q = Some x" if "path q" "tbl m ?r q = Some x" for q x
    using tbl_install [OF assms(2-4) refl assms(5) that(1) m'_def [THEN meta_eq_to_obj_eq]] that(2) by simp
  then show "path q \<Longrightarrow> tbl m ?r q = Some x \<Longrightarrow> tbl m' ?r q = Some x" .
  note inv = tbl_install_inv [OF assms(2-4) refl m'_def [THEN meta_eq_to_obj_eq] assms(6) t(3) assms(9) [rule_format]]
  show "path q \<Longrightarrow> tbl m' ?r q = Some x \<Longrightarrow> tbl m ?r q = Some x \<or> x = n * PAGE_SIZE" using inv by blast
  show r: "active_space_ptab m' = ?r" by (rule active_space_cong) (simp add: m'_def wr_def)
  show "mem m' a = mem m a" if "a div PAGE_SIZE \<noteq> t div PAGE_SIZE" for a
    using that sp by (auto simp: m'_def wr_def)
  then have "free_is m' F"
    using t(1) sp by (intro free_is_frame [OF vm_okD(1) [OF assms(2)]]) (auto simp: m'_def wr_def)
  moreover have "x div PAGE_SIZE \<notin> F" if "path q" "tbl m' ?r q = Some x" for q x
    using inv [OF _ that] vm_okD(3) [OF assms(2)] that(1) assms(7) by (auto simp: PAGE_SIZE_def)
  moreover have "q = q'" if "path q" "path q'" "tbl m' ?r q = Some x" "tbl m' ?r q' = Some x" for q q' x
    using inv [OF _ that(1,3)] inv [OF _ that(2,4)] vm_okD(4) [OF assms(2) that(1,2), of x]
      assms(8) [rule_format, OF that(1), of x] assms(8) [rule_format, OF that(2), of x]
    by (auto simp: PAGE_SIZE_def simp del: tbl.simps)
  ultimately show "vm_ok m' F" using vm_okD(2) [OF assms(2)] unfolding vm_ok_def Let_def r by blast
  show "translate m' v = translate m v"
    unfolding translate_def r
    using sv39_install [OF assms(2-4) refl assms(5) m'_def [THEN meta_eq_to_obj_eq] assms(6) t(3) assms(9) [rule_format], of "[]" 2]
    by simp
  show "tbl m' ?r (i # p) = Some (n * PAGE_SIZE)"
    using old [of p t] assms(3,4,6) by (simp add: m'_def wr_def)
qed

subsection \<open>Writing an entry of the last level\<close>

lemma leaf_write_tbl:
  assumes "vm_ok m F" and "path p" and "length p = 2" and "tbl m (active_space_ptab m) p = Some t" and "i < PTE_CNT" and "path q"
  shows "tbl (wr (t + 8 * i) e m) (active_space_ptab m) q = tbl m (active_space_ptab m) q"
proof (rule tbl_agree [OF _ assms(6)])
  fix p' t' j
  assume "path p'" "length p' < 2" "tbl m (active_space_ptab m) p' = Some t'" "j < PTE_CNT"
  then have "t' + 8 * j \<noteq> t + 8 * i" using vm_slot_eq [OF assms(1), of p' p j i t' t] assms(2-5) by auto
  then show "mem (wr (t + 8 * i) e m) (t' + 8 * j) = mem m (t' + 8 * j)" by (simp add: wr_def)
qed

lemma leaf_write_sv39:
  assumes "vm_ok m F" and "path p" and "length p = 2" and "tbl m (active_space_ptab m) p = Some t" and "i < PTE_CNT"
    and "q = drop l [vpn 1 v, vpn 2 v]" and "l \<le> 2" and "tbl m (active_space_ptab m) q = Some x"
  shows "sv39 (wr (t + 8 * i) e m) l x v =
    (if p = [vpn 1 v, vpn 2 v] \<and> i = vpn 0 v
     then if PTE_VALID e \<and> PTE_LEAF e then Some (e, 0) else None
     else sv39 m l x v)"
  using assms(6-8)
proof (induction l arbitrary: q x)
  case 0
  have q: "path q" "q = [vpn 1 v, vpn 2 v]" using 0 by simp_all
  have "x + 8 * vpn 0 v = t + 8 * i \<longleftrightarrow> p = q \<and> i = vpn 0 v"
    using vm_slot_eq [OF assms(1), of q p "vpn 0 v" i x t] 0 assms(2-5) q by auto
  then show ?case using q(2) by (auto simp: wr_def Let_def)
next
  case (Suc l)
  let ?e = "mem m (x + 8 * vpn (Suc l) v)"
  have q: "path q" "length q < 2" using Suc.prems(1,2) by (auto simp: path_def dest: in_set_dropD)
  have "x + 8 * vpn (Suc l) v \<noteq> t + 8 * i"
    using vm_slot_eq [OF assms(1), of q p "vpn (Suc l) v" i x t] Suc.prems assms(2-5) q by auto
  then have w: "mem (wr (t + 8 * i) e m) (x + 8 * vpn (Suc l) v) = ?e" by (simp add: wr_def)
  have d: "vpn (Suc l) v # q = drop l [vpn 1 v, vpn 2 v]"
    using Suc.prems(1,2) by (cases l) (auto simp: numeral_2_eq_2)
  show ?case
  proof (cases "PTE_VALID ?e \<and> \<not> PTE_LEAF ?e")
    case True
    then have "tbl m (active_space_ptab m) (vpn (Suc l) v # q) = Some (pte_ppn ?e * PAGE_SIZE)"
      using Suc.prems(3) by simp
    then show ?thesis using True w Suc.IH [OF d] Suc.prems(2) by (simp add: Let_def)
  next
    case False
    have "tbl m (active_space_ptab m) (drop l [vpn 1 v, vpn 2 v]) = None"
      unfolding d [symmetric] using False Suc.prems(3) by (simp add: Let_def)
    moreover have "tbl m (active_space_ptab m) (drop l [vpn 1 v, vpn 2 v]) \<noteq> None" if "p = [vpn 1 v, vpn 2 v]"
      using assms(4) that Suc.prems(2) by (cases l) (auto split: option.splits)
    ultimately have "p \<noteq> [vpn 1 v, vpn 2 v]" by blast
    then show ?thesis using False w by (auto simp: Let_def)
  qed
qed

lemma leaf_write_ok:
  fixes m t i e
  defines "m' \<equiv> wr (t + 8 * i) e m"
  assumes "vm_ok m F" and "tbl m (active_space_ptab m) [vpn 1 u, vpn 2 u] = Some t" and "i = vpn 0 u"
  shows "vm_ok m' F" and "active_space_ptab m' = active_space_ptab m"
    and "translate m' v =
      (if vpn 0 v = vpn 0 u \<and> vpn 1 v = vpn 1 u \<and> vpn 2 v = vpn 2 u
       then if PTE_VALID e \<and> PTE_LEAF e then Some (e, 0) else None
       else translate m v)"
    and "path q \<Longrightarrow> tbl m' (active_space_ptab m) q = tbl m (active_space_ptab m) q"
    and "a div PAGE_SIZE \<noteq> t div PAGE_SIZE \<Longrightarrow> mem m' a = mem m a"
proof -
  let ?r = "active_space_ptab m" and ?p = "[vpn 1 u, vpn 2 u]"
  have p: "path ?p" "length ?p = 2" "i < PTE_CNT" by (simp_all add: assms(4))
  have t: "t div PAGE_SIZE \<notin> F" "t mod PAGE_SIZE = 0" using vm_okD(3) [OF assms(2) p(1) assms(3)] by auto
  have sp: "(t + 8 * i) div PAGE_SIZE = t div PAGE_SIZE" using slot_page [OF t(2) p(3)] .
  show fr: "a div PAGE_SIZE \<noteq> t div PAGE_SIZE \<Longrightarrow> mem m' a = mem m a" for a
    using sp by (auto simp: m'_def wr_def)
  show r: "active_space_ptab m' = ?r" by (rule active_space_cong) (simp add: m'_def wr_def)
  have tb: "tbl m' ?r q = tbl m ?r q" if "path q" for q
    unfolding m'_def by (rule leaf_write_tbl [OF assms(2) p(1,2) assms(3) p(3) that])
  then show "path q \<Longrightarrow> tbl m' ?r q = tbl m ?r q" .
  have "free_is m' F"
    using t(1) sp by (intro free_is_frame [OF vm_okD(1) [OF assms(2)]]) (auto simp: m'_def wr_def)
  then show "vm_ok m' F" using vm_okD [OF assms(2)] tb unfolding vm_ok_def Let_def r by metis
  have "sv39 m 2 ?r v = sv39 m 0 t v" if "?p = [vpn 1 v, vpn 2 v]"
    using assms(3) that by (auto simp: Let_def numeral_2_eq_2 split: option.splits if_splits)
  then show "translate m' v =
      (if vpn 0 v = vpn 0 u \<and> vpn 1 v = vpn 1 u \<and> vpn 2 v = vpn 2 u
       then if PTE_VALID e \<and> PTE_LEAF e then Some (e, 0) else None
       else translate m v)"
    unfolding translate_def r
    using leaf_write_sv39 [OF assms(2) p(1,2) assms(3) p(3), of "[]" 2 v ?r e]
    by (auto simp: m'_def assms(4))
qed

subsection \<open>Descending, with allocation of tables\<close>

definition tabs :: "kmem \<Rightarrow> nat set" where
  "tabs m = {x div PAGE_SIZE | q x. path q \<and> tbl m (active_space_ptab m) q = Some x}"

text \<open>
  \<open>grows k m F m' F'\<close>: from \<open>m\<close> to \<open>m'\<close> at most \<open>k\<close> free pages have become tables, the existing
  tables are where they were, no address translates differently, and memory is the same outside
  the tables and the free pages.
\<close>

definition grows :: "nat \<Rightarrow> kmem \<Rightarrow> nat set \<Rightarrow> kmem \<Rightarrow> nat set \<Rightarrow> bool" where
  "grows k m F m' F' =
     (vm_ok m' F' \<and> F' \<subseteq> F \<and> card (F - F') \<le> k \<and> satp m' = satp m \<and> main_mtag m' = main_mtag m \<and>
      (\<forall>v. translate m' v = translate m v) \<and>
      (\<forall>q x. path q \<longrightarrow> tbl m (active_space_ptab m) q = Some x \<longrightarrow> tbl m' (active_space_ptab m) q = Some x) \<and>
      tabs m' \<subseteq> tabs m \<union> (F - F') \<and>
      (\<forall>a. a div PAGE_SIZE \<notin> F \<union> tabs m \<longrightarrow> mem m' a = mem m a))"

lemma tabs_free: "vm_ok m F \<Longrightarrow> tabs m \<inter> F = {}"
  using vm_okD(3) by (fastforce simp: tabs_def)

lemma tabsI: "path q \<Longrightarrow> tbl m (active_space_ptab m) q = Some x \<Longrightarrow> x div PAGE_SIZE \<in> tabs m"
  by (auto simp: tabs_def)

lemma finite_free: "free_is m F \<Longrightarrow> finite F"
  by (auto simp: free_is_def)

lemma grows_refl: "vm_ok m F \<Longrightarrow> grows 0 m F m F"
  by (simp add: grows_def)

lemma growsD:
  assumes "grows k m F m' F'"
  shows "vm_ok m' F'" "active_space_ptab m' = active_space_ptab m" "F' \<subseteq> F" "card (F - F') \<le> k"
    "translate m' v = translate m v"
    "path q \<Longrightarrow> tbl m (active_space_ptab m) q = Some x \<Longrightarrow> tbl m' (active_space_ptab m) q = Some x"
    "tabs m' \<subseteq> tabs m \<union> (F - F')" "a div PAGE_SIZE \<notin> F \<union> tabs m \<Longrightarrow> mem m' a = mem m a"
    "satp m' = satp m" "main_mtag m' = main_mtag m"
  using assms active_space_cong unfolding grows_def by blast+

lemma grows_trans:
  assumes "vm_ok m F" and a: "grows j m F m1 F1" and b: "grows k m1 F1 m2 F2"
  shows "grows (j + k) m F m2 F2"
proof -
  note r = growsD(2) [OF a]
  have "F - F2 = (F - F1) \<union> (F1 - F2)" using a b by (auto simp: grows_def)
  then have "card (F - F2) \<le> card (F - F1) + card (F1 - F2)" by (simp add: card_Un_le)
  moreover have "mem m2 x = mem m x" if "x div PAGE_SIZE \<notin> F \<union> tabs m" for x
  proof -
    have "x div PAGE_SIZE \<notin> F1 \<union> tabs m1" using that a by (auto simp: grows_def)
    then show ?thesis using that a b by (auto simp: grows_def)
  qed
  ultimately show ?thesis using a b unfolding grows_def r by auto
qed

lemma grows_mono: "grows j m F m' F' \<Longrightarrow> j \<le> k \<Longrightarrow> grows k m F m' F'"
  by (auto simp: grows_def)

lemma zero_page_simps [simp]:
  "free_chunk_list (zero_page p m) = free_chunk_list m" "satp (zero_page p m) = satp m" "main_mtag (zero_page p m) = main_mtag m"
  by (simp_all add: zero_page_def)

lemma zero_page_mem: "mem (zero_page (n * PAGE_SIZE) m) a = (if a div PAGE_SIZE = n then 0 else mem m a)"
  by (auto simp: zero_page_def PAGE_SIZE_def)

text \<open>A page taken from the pool and cleared, from the point of view of the tables.\<close>

lemma fresh_page_ok:
  assumes "vm_ok m F"
  obtains (no_room) "alloc_phys_page m = Some (0, m)" "F = {}"
  | (found) n m1 m2 where "alloc_phys_page m = Some (n * PAGE_SIZE, m1)" "m2 = zero_page (n * PAGE_SIZE) m1"
      "n \<in> F" "0 < n" "n < 2 ^ 44" "vm_ok m2 (F - {n})" "same_outside F m m2"
      "\<And>v. translate m2 v = translate m v" "active_space_ptab m2 = active_space_ptab m"
      "\<And>q. path q \<Longrightarrow> tbl m2 (active_space_ptab m) q = tbl m (active_space_ptab m) q"
      "\<And>a. a div PAGE_SIZE = n \<Longrightarrow> mem m2 a = 0"
proof (rule alloc_page_ok [OF vm_okD(1) [OF assms]])
  fix n m1
  assume a: "alloc_phys_page m = Some (n * PAGE_SIZE, m1)" "n \<in> F" "0 < n" "n < 2 ^ 44" "free_is m1 (F - {n})" "same_outside F m m1"
  let ?m2 = "zero_page (n * PAGE_SIZE) m1"
  have "free_is ?m2 (F - {n})" by (rule free_is_frame [OF a(5)]) (auto simp: zero_page_mem)
  moreover have so: "same_outside F m ?m2"
    using a(2,6) by (auto simp: same_outside_def zero_page_mem)
  ultimately have f: "vm_ok ?m2 (F - {n})" "\<And>v. translate ?m2 v = translate m v"
      "\<And>q. path q \<Longrightarrow> tbl ?m2 (active_space_ptab ?m2) q = tbl m (active_space_ptab m) q"
    using vm_frame [OF assms, of ?m2 "F - {n}"] by auto
  have r: "active_space_ptab ?m2 = active_space_ptab m"
    using so by (intro active_space_cong) (simp add: same_outside_def)
  show ?thesis
    by (rule found [OF a(1) refl a(2,3,4) f(1) so f(2) r f(3) [unfolded r]]) (simp_all add: zero_page_mem)
qed (rule no_room)

lemma new_table_ok:
  fixes m2 t i n
  defines "m' \<equiv> wr (t + 8 * i) (ptab_pte (n * PAGE_SIZE) 0) m2"
  assumes "vm_ok m F" and "path (i # p)" and "tbl m (active_space_ptab m) p = Some t"
    and "n \<in> F" and "n < 2 ^ 44" and "vm_ok m2 (F - {n})" and "same_outside F m m2"
    and "\<And>v. translate m2 v = translate m v" and "active_space_ptab m2 = active_space_ptab m"
    and "\<And>q. path q \<Longrightarrow> tbl m2 (active_space_ptab m) q = tbl m (active_space_ptab m) q"
    and "\<And>a. a div PAGE_SIZE = n \<Longrightarrow> mem m2 a = 0" and "\<not> PTE_VALID (mem m (t + 8 * i))"
  shows "grows 1 m F m' (F - {n})" and "tbl m' (active_space_ptab m) (i # p) = Some (n * PAGE_SIZE)"
proof -
  let ?r = "active_space_ptab m"
  have t: "t div PAGE_SIZE \<notin> F" "t mod PAGE_SIZE = 0" using vm_okD(3) [OF assms(2), of p t] assms(3,4) by auto
  have tab: "t div PAGE_SIZE \<in> tabs m" using tabsI [of p m t] assms(3,4) by simp
  have "mem m2 (t + 8 * i) = mem m (t + 8 * i)"
    using assms(3,8) slot_page [OF t(2), of i] t(1) by (simp add: same_outside_def)
  then have b1: "\<not> PTE_VALID (mem m2 (t + 8 * i))" using assms(13) by simp
  have b2: "tbl m2 (active_space_ptab m2) p = Some t" using assms(3,4,10,11) by simp
  have b3: "\<forall>q x. path q \<longrightarrow> tbl m2 (active_space_ptab m2) q = Some x \<longrightarrow> x div PAGE_SIZE \<noteq> n"
    using vm_okD(3) [OF assms(2)] assms(5,10,11) by metis
  have b4: "\<forall>j<PTE_CNT. mem m2 (n * PAGE_SIZE + 8 * j) = 0"
    using assms(12) slot_page [of "n * PAGE_SIZE"] by (simp add: PAGE_SIZE_def)
  have "n \<notin> F - {n}" by simp
  note I = install_ok [OF assms(7,3) b2 b1 assms(6) this b3 b4, folded m'_def, unfolded assms(10)]
  show "tbl m' ?r (i # p) = Some (n * PAGE_SIZE)" by (rule I(4))
  have "x div PAGE_SIZE \<in> tabs m \<union> {n}" if "path q" "tbl m' ?r q = Some x" for q x
    using I(7) [OF that] tabsI [of q m x] assms(11) [OF that(1)] that(1) by (auto simp: PAGE_SIZE_def)
  then have "tabs m' \<subseteq> tabs m \<union> {n}" unfolding tabs_def [of m'] I(3) by blast
  moreover have "card (F - (F - {n})) \<le> 1" by (rule order_trans [OF card_mono [of "{n}"]]) auto
  moreover have "F - (F - {n}) = {n}" using assms(5) by blast
  moreover have "mem m' a = mem m a" if "a div PAGE_SIZE \<notin> F \<union> tabs m" for a
  proof -
    have "a div PAGE_SIZE \<noteq> t div PAGE_SIZE" using that tab by (metis UnI2)
    then show ?thesis using that I(6) [of a] assms(8) by (simp add: same_outside_def)
  qed
  ultimately show "grows 1 m F m' (F - {n})"
    using I assms(8,9,11) unfolding grows_def by (auto simp: m'_def wr_def same_outside_def)
qed

lemma descend_ok:
  assumes "vm_ok m F" and "path (i # p)" and "tbl m (active_space_ptab m) p = Some t"
  obtains r m' F' where "descend (t + 8 * i) al m = Some (r, m')" "grows 1 m F m' F'"
    "\<And>pt. r = Some pt \<Longrightarrow> tbl m' (active_space_ptab m) (i # p) = Some pt"
    "r = None \<Longrightarrow> PTE_VALID (mem m (t + 8 * i)) \<and> PTE_LEAF (mem m (t + 8 * i)) \<or>
       \<not> PTE_VALID (mem m (t + 8 * i)) \<and> (\<not> al \<or> F = {})"
    "\<not> al \<Longrightarrow> m' = m"
proof (cases "PTE_VALID (mem m (t + 8 * i))")
  case True
  show ?thesis
    by (rule that [of "if PTE_LEAF (mem m (t + 8 * i)) then None else Some (pte_ppn (mem m (t + 8 * i)) * PAGE_SIZE)" m F])
      (use True assms(3) grows_mono [OF grows_refl [OF assms(1)]] in
        \<open>auto simp: descend_def split: if_splits\<close>)
next
  case False
  note inv = False
  show ?thesis
  proof (cases al)
    case False
    show ?thesis
      by (rule that [of None m F])
        (use inv False grows_mono [OF grows_refl [OF assms(1)]] in \<open>auto simp: descend_def\<close>)
  next
    case True
    show ?thesis
    proof (rule fresh_page_ok [OF assms(1)])
      assume a: "alloc_phys_page m = Some (0, m)" "F = {}"
      show ?thesis
        by (rule that [of None m F])
          (use inv True a grows_mono [OF grows_refl [OF assms(1)]] in \<open>auto simp: descend_def\<close>)
    next
      fix n m1 m2
      assume a: "alloc_phys_page m = Some (n * PAGE_SIZE, m1)" "m2 = zero_page (n * PAGE_SIZE) m1"
        "n \<in> F" "0 < n" "n < 2 ^ 44" "vm_ok m2 (F - {n})" "same_outside F m m2"
        "\<And>v. translate m2 v = translate m v" "active_space_ptab m2 = active_space_ptab m"
        "\<And>q. path q \<Longrightarrow> tbl m2 (active_space_ptab m) q = tbl m (active_space_ptab m) q"
        "\<And>a. a div PAGE_SIZE = n \<Longrightarrow> mem m2 a = 0"
      have nz: "n * PAGE_SIZE \<noteq> 0" using a(4) by (simp add: PAGE_SIZE_def)
      note nt = new_table_ok [OF assms a(3,5-11) inv]
      show ?thesis
        by (rule that [of "Some (n * PAGE_SIZE)" "wr (t + 8 * i) (ptab_pte (n * PAGE_SIZE) 0) m2" "F - {n}"])
          (use inv True a(1-3,5) nz nt in \<open>simp_all add: descend_def wr_def del: tbl.simps\<close>)
    qed
  qed
qed

end
