(* ===== verification/Vm_Map.thy ===== *)
theory Vm_Map
  imports Vm
begin

text \<open>
  Mapping: what \<open>map_page\<close> and the page fault handler do to the translation of addresses.
\<close>

subsection \<open>Mapping a page\<close>

definition large_page :: "kmem \<Rightarrow> nat \<Rightarrow> bool" where
  "large_page m vma = (\<exists>e l. translate m vma = Some (e, Suc l))"

lemma walk_pt_ok:
  assumes "vm_ok m F"
  obtains r m' F' where "walk_pt vma al m = Some (r, m')" "grows 2 m F m' F'"
    "\<And>slot. r = Some slot \<Longrightarrow>
       \<exists>t. tbl m' (active_space_ptab m) [vpn 1 vma, vpn 2 vma] = Some t \<and> slot = t + 8 * vpn 0 vma"
    "r = None \<Longrightarrow> al \<Longrightarrow> large_page m vma \<or> card F < 2"
    "\<not> al \<Longrightarrow> m' = m"
proof -
  let ?r = "active_space_ptab m"
  obtain r1 m1 F1 where d1: "descend (?r + 8 * vpn 2 vma) al m = Some (r1, m1)" "grows 1 m F m1 F1"
      "\<And>pt. r1 = Some pt \<Longrightarrow> tbl m1 ?r [vpn 2 vma] = Some pt"
      "r1 = None \<Longrightarrow> PTE_VALID (mem m (?r + 8 * vpn 2 vma)) \<and> PTE_LEAF (mem m (?r + 8 * vpn 2 vma)) \<or>
         \<not> PTE_VALID (mem m (?r + 8 * vpn 2 vma)) \<and> (\<not> al \<or> F = {})"
      "\<not> al \<Longrightarrow> m1 = m"
    by (rule descend_ok [OF assms, of "vpn 2 vma" "[]" ?r al]) simp_all
  show ?thesis
  proof (cases r1)
    case None
    have "large_page m vma \<or> card F < 2" if al
      using d1(4) [OF None] that
      by (auto simp: large_page_def translate_def Let_def numeral_2_eq_2)
    then show ?thesis
      using that [of None m1 F1] d1(1,2,5) grows_mono [of 1 m F m1 F1 2] None
      by (simp add: walk_pt_def vpn_simps)
  next
    case (Some pt)
    have m1: "vm_ok m1 F1" "active_space_ptab m1 = ?r" "F1 \<subseteq> F" "card (F - F1) \<le> 1" "\<And>v. translate m1 v = translate m v"
      using growsD [OF d1(2)] by simp_all
    have t1: "tbl m1 ?r [vpn 2 vma] = Some pt" by (rule d1(3) [OF Some])
    obtain r2 m2 F2 where d2: "descend (pt + 8 * vpn 1 vma) al m1 = Some (r2, m2)" "grows 1 m1 F1 m2 F2"
        "\<And>pt'. r2 = Some pt' \<Longrightarrow> tbl m2 ?r [vpn 1 vma, vpn 2 vma] = Some pt'"
        "r2 = None \<Longrightarrow> PTE_VALID (mem m1 (pt + 8 * vpn 1 vma)) \<and> PTE_LEAF (mem m1 (pt + 8 * vpn 1 vma)) \<or>
           \<not> PTE_VALID (mem m1 (pt + 8 * vpn 1 vma)) \<and> (\<not> al \<or> F1 = {})"
        "\<not> al \<Longrightarrow> m2 = m1"
      by (rule descend_ok [OF m1(1), of "vpn 1 vma" "[vpn 2 vma]" pt al]) (use t1 m1(2) in \<open>simp_all del: tbl.simps\<close>)
    have "large_page m vma \<or> card F < 2" if "r2 = None" al
    proof (cases "F1 = {}")
      case True
      then show ?thesis using m1(4) by simp
    next
      case False
      then have "PTE_VALID (mem m1 (pt + 8 * vpn 1 vma))" "PTE_LEAF (mem m1 (pt + 8 * vpn 1 vma))"
        using d2(4) that by auto
      then have "translate m1 vma = Some (mem m1 (pt + 8 * vpn 1 vma), Suc 0)"
        using t1 by (auto simp: translate_def m1(2) Let_def numeral_2_eq_2 split: if_splits)
      then show ?thesis by (auto simp: large_page_def m1(5))
    qed
    moreover have "grows 2 m F m2 F2" using grows_trans [OF assms d1(2) d2(2)] by (simp add: numeral_2_eq_2)
    ultimately show ?thesis
      using that [of "map_option (\<lambda>pt. pt + 8 * vpn 0 vma) r2" m2 F2] d1(1,5) d2(1,3,5) Some
      by (auto simp: walk_pt_def vpn_simps simp del: tbl.simps)
  qed
qed

lemma map_page_ok:
  assumes "vm_ok m F" and "wellformed vma" and "vma mod PAGE_SIZE = 0"
  obtains (fails) m' F' where "map_page vma pp fl m = Some (0, m')" "grows 2 m F m' F'" "large_page m vma \<or> card F < 2"
  | (maps) m1 F' t where "map_page vma pp fl m = Some (vma, wr (t + 8 * vpn 0 vma) (leaf_pte pp fl) m1)" "grows 2 m F m1 F'"
      "tbl m1 (active_space_ptab m1) [vpn 1 vma, vpn 2 vma] = Some t"
proof (rule walk_pt_ok [OF assms(1), of vma True])
  fix r m' F'
  assume w: "walk_pt vma True m = Some (r, m')" "grows 2 m F m' F'"
    "\<And>slot. r = Some slot \<Longrightarrow>
       \<exists>t. tbl m' (active_space_ptab m) [vpn 1 vma, vpn 2 vma] = Some t \<and> slot = t + 8 * vpn 0 vma"
    "r = None \<Longrightarrow> True \<Longrightarrow> large_page m vma \<or> card F < 2"
  note r = growsD(2) [OF w(2)]
  show ?thesis
  proof (cases r)
    case None
    then show ?thesis using fails [of m' F'] w assms(2,3) by (simp add: map_page_def)
  next
    case (Some slot)
    obtain t where "tbl m' (active_space_ptab m) [vpn 1 vma, vpn 2 vma] = Some t" "slot = t + 8 * vpn 0 vma"
      using w(3) [OF Some] by blast
    then show ?thesis
      using maps [of t m' F'] w(1,2) Some assms(2,3) by (simp add: map_page_def r del: tbl.simps)
  qed
qed

lemma vpn_eq_iff: "vpn 0 u = vpn 0 v \<and> vpn 1 u = vpn 1 v \<and> vpn 2 u = vpn 2 v \<longleftrightarrow> VPN u mod 2 ^ 27 = VPN v mod 2 ^ 27"
proof -
  have s: "x mod 2 ^ 27 = x div 2 ^ 18 mod 512 * 2 ^ 18 + (x div 512 mod 512 * 512 + x mod 512)" for x :: nat
    using mod_mult2_eq [of x "2 ^ 18" 512] mod_mult2_eq [of x 512 512] by (simp add: algebra_simps)
  have e: "x * 512 + c = y * 512 + c' \<longleftrightarrow> c = c' \<and> x = y" if "c < 512" "c' < 512" for x y c c' :: nat
  proof
    assume "x * 512 + c = y * 512 + c'"
    then have "(x * 512 + c) div 512 = (y * 512 + c') div 512" "(x * 512 + c) mod 512 = (y * 512 + c') mod 512" by simp_all
    then show "c = c' \<and> x = y" using that by simp
  qed simp
  have d: "a * 2 ^ 18 + (b * 512 + c) = a' * 2 ^ 18 + (b' * 512 + c') \<longleftrightarrow> c = c' \<and> b = b' \<and> a = a'"
    if "b < 512" "c < 512" "b' < 512" "c' < 512" for a b c a' b' c' :: nat
    using e [of c c' "a * 512 + b" "a' * 512 + b'"] e [of b b' a a'] that
    by (simp add: mult.commute add.assoc)
  show ?thesis
    unfolding vpn_def PTE_CNT_def s [of "VPN u"] s [of "VPN v"]
    by (subst d) auto
qed

lemma wellformed_low:
  assumes "vma < 2 ^ 38"
  shows "wellformed vma"
proof -
  have "sint (word_of_nat vma :: 64 word) = int vma"
    using assms by (simp add: signed_of_nat signed_take_bit_int_eq_self)
  then have "sint (signed_drop_bit 38 (word_of_nat vma :: 64 word)) = 0"
    using assms by (simp add: sint_signed_drop_bit_eq drop_bit_eq_div zdiv_int [symmetric])
  then have "signed_drop_bit 38 (word_of_nat vma :: 64 word) = 0"
    by (metis signed_eq_0_iff)
  then show ?thesis by (simp add: wellformed_def)
qed

text \<open>A small memory: the root table at page 1, empty, and pages 2 to 5 free.\<close>

definition demo_vm :: kmem where
  "demo_vm = \<lparr>mem = (\<lambda>a. if a = 8200 then 4 else 0), free_chunk_list = 8192, satp = ptab_to_mtag 4096 0, main_mtag = 0\<rparr>"

lemma demo_root: "active_space_ptab demo_vm = 4096"
  by (simp add: active_space_ptab_def mtag_to_ptab_def ptab_to_mtag_def demo_vm_def pagenum_def PAGE_SIZE_def u64_def)

lemma demo_tbl: "path p \<Longrightarrow> tbl demo_vm 4096 p = (if p = [] then Some 4096 else None)"
  by (induction p) (auto simp: demo_vm_def PTE_CNT_def)

lemma demo_vm_ok: "vm_ok demo_vm {2, 3, 4, 5}"
proof -
  have s: "pgs 8192 4 = {2, 3, 4, 5}" by (auto simp: pgs_def PAGE_SIZE_def)
  have "free_is demo_vm {2, 3, 4, 5}"
    unfolding free_is_def
    by (intro exI [of _ "[(8192, 4)]"]) (simp add: demo_vm_def ck_next_def ck_pagecnt_def chunk_ok_def s, simp add: PAGE_SIZE_def)
  then show ?thesis
    unfolding vm_ok_def Let_def demo_root by (simp add: demo_tbl PAGE_SIZE_def)
qed

lemma demo_translate: "translate demo_vm v = None"
  unfolding translate_def demo_root using vpn_less [of 2 v]
  by (simp add: numeral_2_eq_2 demo_vm_def PTE_CNT_def)

text \<open>C32: \<open>map_page\<close> makes the page of a well-formed, page-aligned address translate to the given
  page with the given permissions and changes the translation of no other page; it takes at most
  two pages for tables. It fails, with no translation changed, only where a larger page is mapped
  or memory has run out.\<close>

theorem map_page_maps:
  assumes "vm_ok m F" and "wellformed vma" and "vma mod PAGE_SIZE = 0" and "0 < vma"
    and "pp < 2 ^ 56" and "bit fl 1 \<or> bit fl 2 \<or> bit fl 3"
  shows "\<exists>r m' F'. map_page vma pp fl m = Some (r, m') \<and> vm_ok m' F' \<and> F' \<subseteq> F \<and> card (F - F') \<le> 2 \<and>
    (if r = 0 then (large_page m vma \<or> card F < 2) \<and> (\<forall>u. translate m' u = translate m u)
     else r = vma \<and> pte_ppn (leaf_pte pp fl) = pp div PAGE_SIZE \<and>
       (\<forall>u. translate m' u =
          (if VPN u mod 2 ^ 27 = VPN vma mod 2 ^ 27 then Some (leaf_pte pp fl, 0) else translate m u)))"
proof (rule map_page_ok [OF assms(1-3), of pp fl])
  fix m' F'
  assume a: "map_page vma pp fl m = Some (0, m')" "grows 2 m F m' F'" "large_page m vma \<or> card F < 2"
  then show ?thesis using growsD(1,3-5) [OF a(2)] by auto
next
  fix m1 F' t
  assume a: "map_page vma pp fl m = Some (vma, wr (t + 8 * vpn 0 vma) (leaf_pte pp fl) m1)" "grows 2 m F m1 F'"
    "tbl m1 (active_space_ptab m1) [vpn 1 vma, vpn 2 vma] = Some t"
  note g = growsD [OF a(2)] and w = leaf_write_ok [OF growsD(1) [OF a(2)] a(3) refl, where e = "leaf_pte pp fl"]
  have "pte_ppn (leaf_pte pp fl) = pp div PAGE_SIZE"
    using assms(5) by (simp add: leaf_pte_def pagenum_def PAGE_SIZE_def)
  moreover have "translate (wr (t + 8 * vpn 0 vma) (leaf_pte pp fl) m1) u =
      (if VPN u mod 2 ^ 27 = VPN vma mod 2 ^ 27 then Some (leaf_pte pp fl, 0) else translate m u)" for u
    unfolding w(3) [of u] vpn_eq_iff g(5) using assms(6) by (simp add: leaf_pte_leaf)
  ultimately show ?thesis using a(1) w(1) g(3,4) assms(4) by auto
qed

theorem map_page_maps_witness:
  "\<exists>m'. map_page 0xC0001000 0x80300000 PTE_R demo_vm = Some (0xC0001000, m') \<and>
     translate m' 0xC0001000 = Some (leaf_pte 0x80300000 PTE_R, 0)"
proof -
  have h: "wellformed 0xC0001000" "(0xC0001000 :: nat) mod PAGE_SIZE = 0" "bit PTE_R 1"
    by (rule wellformed_low) (simp_all add: PAGE_SIZE_def PTE_R_def bit_exp_iff bit_Suc_0_iff)
  have l: "\<not> large_page demo_vm v" for v by (simp add: large_page_def demo_translate)
  show ?thesis
    using map_page_maps [OF demo_vm_ok h(1,2), of "0x80300000" PTE_R] h(3) l
    by (auto split: if_splits)
qed

subsection \<open>Page faults\<close>

lemma VPN_page [simp]: "VPN (vma div PAGE_SIZE * PAGE_SIZE) = VPN vma"
  by (simp add: VPN_def PAGE_SIZE_def)

lemma vpn_page [simp]: "vpn l (vma div PAGE_SIZE * PAGE_SIZE) = vpn l vma"
  by (simp add: vpn_def)

lemma sv39_page: "VPN u = VPN v \<Longrightarrow> sv39 m l t u = sv39 m l t v"
  by (induction l arbitrary: t) (simp_all add: vpn_def Let_def)

lemma large_page_page [simp]: "large_page m (vma div PAGE_SIZE * PAGE_SIZE) = large_page m vma"
  by (simp add: large_page_def translate_def sv39_page [OF VPN_page])

lemma fault_maps:
  assumes "vm_ok m F" and "UMEM_START_VMA \<le> vma" and "vma < UMEM_END_VMA" and "\<not> large_page m vma" and "3 \<le> card F"
  obtains n m2 m3 F' t where "n \<in> F" "0 < n" "n < 2 ^ 44" "grows 2 m2 (F - {n}) m3 F'"
    "handle_umode_page_fault vma m =
       Some (1, wr (t + 8 * vpn 0 vma) (leaf_pte (n * PAGE_SIZE) (PTE_R OR PTE_W OR PTE_X OR PTE_U)) m3)"
    "tbl m3 (active_space_ptab m3) [vpn 1 vma, vpn 2 vma] = Some t"
    "\<And>v. translate m2 v = translate m v" "\<And>a. a div PAGE_SIZE = n \<Longrightarrow> mem m2 a = 0" "n \<notin> tabs m2" 
proof (rule fresh_page_ok [OF assms(1)])
  assume "F = {}"
  then show ?thesis using assms(5) by simp
next
  let ?fl = "PTE_R OR PTE_W OR PTE_X OR PTE_U" and ?v = "vma div PAGE_SIZE * PAGE_SIZE"
  fix n m1 m2
  assume a: "alloc_phys_page m = Some (n * PAGE_SIZE, m1)" "m2 = zero_page (n * PAGE_SIZE) m1"
    "n \<in> F" "0 < n" "n < 2 ^ 44" "vm_ok m2 (F - {n})"
    "\<And>v. translate m2 v = translate m v" "active_space_ptab m2 = active_space_ptab m"
    "\<And>q. path q \<Longrightarrow> tbl m2 (active_space_ptab m) q = tbl m (active_space_ptab m) q"
    "\<And>a. a div PAGE_SIZE = n \<Longrightarrow> mem m2 a = 0"
  have v: "?v < 2 ^ 38" "0 < ?v" using assms(2,3) by (auto simp: UMEM_START_VMA_def UMEM_END_VMA_def PAGE_SIZE_def)
  have al: "?v mod PAGE_SIZE = 0" by simp
  have "tabs m2 = tabs m" unfolding tabs_def a(8) using a(9) by (intro Collect_cong) metis
  then have nt: "n \<notin> tabs m2" using tabs_free [OF assms(1)] a(3) by auto
  have c: "\<not> (large_page m2 ?v \<or> card (F - {n}) < 2)"
    unfolding large_page_page using assms(4,5) a(3) by (simp add: large_page_def a(7))
  show ?thesis
  proof (rule map_page_ok [OF a(6) wellformed_low [OF v(1)] al, of "n * PAGE_SIZE" ?fl])
    assume "large_page m2 ?v \<or> card (F - {n}) < 2"
    then show ?thesis using c by simp
  next
    fix m3 F' t
    assume b: "map_page ?v (n * PAGE_SIZE) ?fl m2 = Some (?v, wr (t + 8 * vpn 0 ?v) (leaf_pte (n * PAGE_SIZE) ?fl) m3)"
      "grows 2 m2 (F - {n}) m3 F'" "tbl m3 (active_space_ptab m3) [vpn 1 ?v, vpn 2 ?v] = Some t"
    have "n * PAGE_SIZE \<noteq> 0" using a(4) by (simp add: PAGE_SIZE_def)
    then have "handle_umode_page_fault vma m = Some (1, wr (t + 8 * vpn 0 vma) (leaf_pte (n * PAGE_SIZE) ?fl) m3)"
      using assms(2,3) a(1,2) b(1) v(2) by (simp add: handle_umode_page_fault_def)
    then show ?thesis using that [OF a(3,4,5) b(2) _ _ a(7,10) nt] b(3) by simp
  qed
qed



end
