(* ===== verification/Heap.thy ===== *)
theory Heap
  imports Vm_Map
begin

text \<open>
  The kernel heap of kernel/heap0.c. Blocks are cut from the high end of a pool; a block has a header
  of two words before it, with its size and the complement of its size. Memory is that of \<open>Pages\<close>, in
  words of eight bytes; sizes are multiples of 16. \<open>None\<close> is a panic. Freed memory is marked and
  never used again.
\<close>

definition HEAP_ALIGN :: nat where "HEAP_ALIGN = 16"
definition HEAP_ALLOC_MAX :: nat where "HEAP_ALLOC_MAX = 4000"
definition HEAP_ALLOC_MAGIC :: nat where "HEAP_ALLOC_MAGIC = 0xEAEAEAEA"
definition HEAP_FREE_MAGIC :: nat where "HEAP_FREE_MAGIC = 0x25252525"

record kheap =
  heap_low :: nat
  heap_end :: nat
  hmem :: kmem

text \<open>Two 32-bit fields in one word, and the size of the header.\<close>

definition pair32 :: "nat \<Rightarrow> nat \<Rightarrow> nat" where
  "pair32 lo hi = lo mod 2 ^ 32 + 2 ^ 32 * (hi mod 2 ^ 32)"

definition lo32 :: "nat \<Rightarrow> nat" where "lo32 w = w mod 2 ^ 32"
definition hi32 :: "nat \<Rightarrow> nat" where "hi32 w = w div 2 ^ 32 mod 2 ^ 32"
definition not32 :: "nat \<Rightarrow> nat" where "not32 n = 2 ^ 32 - 1 - n mod 2 ^ 32"
definition HDRSZ :: nat where "HDRSZ = 16"

definition psub :: "nat \<Rightarrow> nat \<Rightarrow> nat" where
  "psub a b = u64 (a + 2 ^ 64 - b)"

text \<open>\<open>memset\<close> with a byte that is given eight times in a word.\<close>

definition fill_words :: "nat \<Rightarrow> nat \<Rightarrow> nat \<Rightarrow> kmem \<Rightarrow> kmem" where
  "fill_words p n v m = m\<lparr>mem := (\<lambda>a. if p \<le> a \<and> a < p + n then v else mem m a)\<rparr>"

text \<open>\<open>memset(p, 0, n)\<close> for any \<open>n\<close>: the bytes of the last word beyond it are kept.\<close>

definition zero_bytes :: "nat \<Rightarrow> nat \<Rightarrow> kmem \<Rightarrow> kmem" where
  "zero_bytes p n m =
     m\<lparr>mem := (\<lambda>a. if p \<le> a \<and> a + 8 \<le> p + n then 0
                 else if p \<le> a \<and> a < p + n
                 then mem m a div 2 ^ (8 * (p + n - a)) * 2 ^ (8 * (p + n - a))
                 else mem m a)\<rparr>"

definition heap_init :: "nat \<Rightarrow> nat \<Rightarrow> kmem \<Rightarrow> kheap option" where
  "heap_init low high m =
     (let s = ROUND_UP low HEAP_ALIGN; e = high div HEAP_ALIGN * HEAP_ALIGN
      in if \<not> s < e then None else Some \<lparr>heap_low = s, heap_end = e, hmem = m\<rparr>)"

text \<open>The choice of the place: in the pool, or in a new page, which becomes the pool when more is
  left of it than of the old pool.\<close>

definition heap_place :: "nat \<Rightarrow> kheap \<Rightarrow> (nat \<times> kheap) option" where
  "heap_place sz h =
     (if sz + HDRSZ \<le> psub (heap_end h) (heap_low h)
      then let p = psub (heap_end h) sz in Some (p, h\<lparr>heap_end := psub p HDRSZ\<rparr>)
      else if PAGE_SIZE - HDRSZ < sz then None
      else do {
        (newpage, m) \<leftarrow> alloc_phys_page (hmem h);
        let p = newpage + PAGE_SIZE - sz;
        let leftover = PAGE_SIZE - sz - HDRSZ;
        let h = h\<lparr>hmem := m\<rparr>;
        Some (p, if psub (heap_end h) (heap_low h) < leftover
                 then h\<lparr>heap_end := psub p HDRSZ, heap_low := newpage\<rparr> else h)
      })"

definition heap_malloc_actual :: "nat \<Rightarrow> nat \<Rightarrow> kheap \<Rightarrow> (nat \<times> kheap) option" where
  "heap_malloc_actual req ra h =
     (if req = 0 then Some (0, h)
      else let sz = ROUND_UP req HEAP_ALIGN
        in if HEAP_ALLOC_MAX < sz then None
           else do {
             (p, h) \<leftarrow> heap_place sz h;
             let m = wr (psub p 16) (pair32 HEAP_ALLOC_MAGIC sz) (hmem h);
             let m = wr (psub p 8) (pair32 (not32 sz) ra) m;
             Some (p, h\<lparr>hmem := fill_words p sz 0x3333333333333333 m\<rparr>)
           })"

definition kmalloc :: "nat \<Rightarrow> nat \<Rightarrow> kheap \<Rightarrow> (nat \<times> kheap) option" where
  "kmalloc req ra h = heap_malloc_actual req ra h"

definition kcalloc :: "nat \<Rightarrow> nat \<Rightarrow> nat \<Rightarrow> kheap \<Rightarrow> (nat \<times> kheap) option" where
  "kcalloc nelts eltsz ra h =
     (if eltsz = 0 \<or> \<not> nelts \<le> HEAP_ALLOC_MAX div eltsz then None
      else do {
        (p, h) \<leftarrow> heap_malloc_actual (nelts * eltsz) ra h;
        Some (p, h\<lparr>hmem := zero_bytes p (nelts * eltsz) (hmem h)\<rparr>)
      })"

definition kfree :: "nat \<Rightarrow> nat \<Rightarrow> kheap \<Rightarrow> kheap option" where
  "kfree p ra h =
     (let m = hmem h; sz = hi32 (mem m (psub p 16)); size_inv = lo32 (mem m (psub p 8))
      in if sz \<noteq> not32 size_inv then None
         else let m = fill_words (p + 8) (psub sz 8) 0x1111111111111111 m;
                  m = wr p (pair32 HEAP_FREE_MAGIC ra) m;
                  m = wr (psub p 8) (pair32 0 (hi32 (mem m (psub p 8)))) m
              in Some (h\<lparr>hmem := m\<rparr>))"

subsection \<open>The blocks in use\<close>

definition region :: "nat \<times> nat \<Rightarrow> nat set" where
  "region b = {fst b - HDRSZ ..< fst b + snd b}"

definition header_ok :: "kmem \<Rightarrow> nat \<times> nat \<Rightarrow> bool" where
  "header_ok m b =
     (hi32 (mem m (fst b - 16)) = snd b \<and> lo32 (mem m (fst b - 8)) = not32 (snd b))"

definition block_shape :: "nat \<times> nat \<Rightarrow> bool" where
  "block_shape b = (HDRSZ < fst b \<and> fst b mod 16 = 0 \<and> 0 < snd b \<and> snd b mod 16 = 0 \<and> snd b \<le> HEAP_ALLOC_MAX \<and> fst b + snd b \<le> 2 ^ 56)"

text \<open>
  The invariant, for the set \<open>F\<close> of free pages and the set \<open>bs\<close> of blocks: the blocks with their
  headers, the pool and the free pages do not overlap, and every header is intact.
\<close>

definition heap_inv :: "kheap \<Rightarrow> nat set \<Rightarrow> (nat \<times> nat) set \<Rightarrow> bool" where
  "heap_inv h F bs =
     (free_is (hmem h) F \<and> heap_low h \<le> heap_end h \<and> heap_end h \<le> 2 ^ 56 \<and> 0 < heap_low h \<and>
      heap_low h mod 16 = 0 \<and> heap_end h mod 16 = 0 \<and>
      (\<forall>a\<in>{heap_low h ..< heap_end h}. a div PAGE_SIZE \<notin> F) \<and>
      (\<forall>b\<in>bs. block_shape b \<and> header_ok (hmem h) b \<and> region b \<inter> {heap_low h ..< heap_end h} = {} \<and>
         (\<forall>a\<in>region b. a div PAGE_SIZE \<notin> F)) \<and>
      (\<forall>b\<in>bs. \<forall>c\<in>bs. b \<noteq> c \<longrightarrow> region b \<inter> region c = {}))"

lemma psub_le:
  assumes "b \<le> a" and "a < 2 ^ 64"
  shows "psub a b = a - b"
proof -
  have "psub a b = ((a - b) + 2 ^ 64) mod 2 ^ 64"
    unfolding psub_def u64_def diff_add_assoc2 [OF assms(1)] by simp
  also have "\<dots> = a - b" unfolding mod_add_self2 by (rule mod_less) (rule le_less_trans [OF diff_le_self assms(2)])
  finally show ?thesis .
qed

lemma lo32_pair [simp]: "lo32 (pair32 lo hi) = lo mod 2 ^ 32"
  by (simp add: lo32_def pair32_def)

lemma hi32_pair [simp]: "hi32 (pair32 lo hi) = hi mod 2 ^ 32"
  by (simp add: hi32_def pair32_def)

lemma not32_less: "not32 n < 2 ^ 32"
  by (simp add: not32_def)

lemma not32_not32: "n < 2 ^ 32 \<Longrightarrow> not32 (not32 n) = n"
  by (simp add: not32_def)

lemma round16:
  assumes "0 < n" and "n \<le> HEAP_ALLOC_MAX"
  shows "ROUND_UP n HEAP_ALIGN mod 16 = 0" "n \<le> ROUND_UP n HEAP_ALIGN" "ROUND_UP n HEAP_ALIGN \<le> HEAP_ALLOC_MAX"
    "0 < ROUND_UP n HEAP_ALIGN"
  using assms unfolding ROUND_UP_def HEAP_ALIGN_def HEAP_ALLOC_MAX_def u64_def by (simp_all, linarith?)

lemma heap_invD:
  assumes "heap_inv h F bs"
  shows "free_is (hmem h) F" "heap_low h \<le> heap_end h" "heap_end h \<le> 2 ^ 56" "0 < heap_low h"
    "heap_low h mod 16 = 0" "heap_end h mod 16 = 0"
    "heap_low h \<le> a \<Longrightarrow> a < heap_end h \<Longrightarrow> a div PAGE_SIZE \<notin> F"
    "b \<in> bs \<Longrightarrow> block_shape b \<and> header_ok (hmem h) b \<and> region b \<inter> {heap_low h ..< heap_end h} = {}"
    "b \<in> bs \<Longrightarrow> a \<in> region b \<Longrightarrow> a div PAGE_SIZE \<notin> F"
    "b \<in> bs \<Longrightarrow> c \<in> bs \<Longrightarrow> b \<noteq> c \<Longrightarrow> region b \<inter> region c = {}"
  using assms unfolding heap_inv_def by auto

lemma header_in_region: "block_shape b \<Longrightarrow> fst b - 16 \<in> region b" "block_shape b \<Longrightarrow> fst b - 8 \<in> region b"
  by (auto simp: block_shape_def region_def HDRSZ_def)

lemma header_frame:
  assumes "header_ok m b" and "block_shape b" and "\<And>a. a \<in> region b \<Longrightarrow> mem m' a = mem m a"
  shows "header_ok m' b"
  using assms header_in_region [OF assms(2)] by (simp add: header_ok_def)

text \<open>A pool that has moved, with memory changed in free pages only.\<close>

lemma heap_inv_step:
  assumes I: "heap_inv h F bs" and f: "free_is m' F'" and s: "F' \<subseteq> F" and so: "same_outside F (hmem h) m'"
    and l: "0 < l" "l \<le> e" "e \<le> 2 ^ 56" "l mod 16 = 0" "e mod 16 = 0"
    and sub: "\<And>a. l \<le> a \<Longrightarrow> a < e \<Longrightarrow> heap_low h \<le> a \<and> a < heap_end h \<or> a div PAGE_SIZE \<in> F - F'"
  shows "heap_inv \<lparr>heap_low = l, heap_end = e, hmem = m'\<rparr> F' bs"
proof -
  have "header_ok m' b \<and> region b \<inter> {l ..< e} = {} \<and> block_shape b \<and> (\<forall>a\<in>region b. a div PAGE_SIZE \<notin> F')" if b: "b \<in> bs" for b
  proof -
    note B = heap_invD(8) [OF I b]
    have "mem m' a = mem (hmem h) a" if "a \<in> region b" for a
      using heap_invD(9) [OF I b that] so by (simp add: same_outside_def)
    then have "header_ok m' b" using header_frame B by blast
    moreover have "a \<notin> {l ..< e}" if "a \<in> region b" for a
      using sub [of a] that heap_invD(9) [OF I b that] B by auto
    ultimately show ?thesis using B heap_invD(9) [OF I b] s by blast
  qed
  moreover have "a div PAGE_SIZE \<notin> F'" if "l \<le> a" "a < e" for a
    using sub [OF that] heap_invD(7) [OF I, of a] s by blast
  ultimately show ?thesis using f l heap_invD(10) [OF I] unfolding heap_inv_def by auto
qed

lemma place_ok:
  assumes I: "heap_inv h F bs" and sz: "0 < sz" "sz mod 16 = 0" "sz \<le> HEAP_ALLOC_MAX" and F: "F \<noteq> {}"
  obtains p h' F' where "heap_place sz h = Some (p, h')" "heap_inv h' F' bs" "F' \<subseteq> F" "block_shape (p, sz)"
    "region (p, sz) \<inter> {heap_low h' ..< heap_end h'} = {}" "\<And>a. a \<in> region (p, sz) \<Longrightarrow> a div PAGE_SIZE \<notin> F'"
    "\<And>b. b \<in> bs \<Longrightarrow> region (p, sz) \<inter> region b = {}"
    "\<And>b a. b \<in> bs \<Longrightarrow> a \<in> region b \<Longrightarrow> mem (hmem h') a = mem (hmem h) a"
proof -
  note D = heap_invD [OF I]
  have ps: "psub (heap_end h) (heap_low h) = heap_end h - heap_low h" using D(2,3) by (intro psub_le) simp_all
  show ?thesis
  proof (cases "sz + HDRSZ \<le> heap_end h - heap_low h")
    case True
    define p where "p = heap_end h - sz"
    have p: "psub (heap_end h) sz = p" "psub p HDRSZ = p - HDRSZ"
      using True D(3) psub_le [of sz "heap_end h"] psub_le [of HDRSZ p] by (simp_all add: p_def HDRSZ_def)
    have al: "p mod 16 = 0" "(p - HDRSZ) mod 16 = 0" "heap_low h \<le> p - HDRSZ" "p + sz = heap_end h"
      using True sz(2) D(6) by (auto simp: p_def HDRSZ_def mod_eq_0_iff_dvd)
    let ?h = "h\<lparr>heap_end := p - HDRSZ\<rparr>"
    have "heap_inv \<lparr>heap_low = heap_low h, heap_end = p - HDRSZ, hmem = hmem h\<rparr> F bs"
      by (rule heap_inv_step [OF I D(1)]) (use D(3-5) al in auto)
    then have I': "heap_inv ?h F bs" by (cases h) simp
    have r: "region (p, sz) \<subseteq> {heap_low h ..< heap_end h}" using al by (auto simp: region_def)
    show ?thesis
    proof (rule that [of p ?h F])
      show "heap_place sz h = Some (p, ?h)" using True by (simp add: heap_place_def ps p Let_def)
      show "block_shape (p, sz)"
        using al D(3,4) sz by (auto simp: block_shape_def HDRSZ_def)
      show "region (p, sz) \<inter> region b = {}" if "b \<in> bs" for b using D(8) [OF that] r by blast
      show "a div PAGE_SIZE \<notin> F" if "a \<in> region (p, sz)" for a using D(7) [of a] r that by auto
    qed (use I' in \<open>auto simp: region_def\<close>)
  next
    case False
    show ?thesis
    proof (rule alloc_page_ok [OF D(1)])
      assume "F = {}" then show ?thesis using F by simp
    next
      fix n m'
      assume a: "alloc_phys_page (hmem h) = Some (n * PAGE_SIZE, m')" "n \<in> F" "0 < n" "n < 2 ^ 44"
        "free_is m' (F - {n})" "same_outside F (hmem h) m'"
      define p where "p = n * PAGE_SIZE + PAGE_SIZE - sz"
      have q: "p = n * PAGE_SIZE + (4096 - sz)" "psub p HDRSZ = p - HDRSZ" "p \<le> 2 ^ 56"
        using sz(3) a(4) psub_le [of HDRSZ p] by (simp_all add: p_def PAGE_SIZE_def HEAP_ALLOC_MAX_def HDRSZ_def)
      have r: "a div PAGE_SIZE = n" if "n * PAGE_SIZE \<le> a" "a < n * PAGE_SIZE + 4096" for a
        using that by (auto simp: PAGE_SIZE_def)
      have rg: "a div PAGE_SIZE = n" if "a \<in> region (p, sz)" for a
        using that sz(3) by (intro r) (auto simp: region_def q HEAP_ALLOC_MAX_def HDRSZ_def)
      have al: "p mod 16 = 0" "(p - HDRSZ) mod 16 = 0" "n * PAGE_SIZE mod 16 = 0" "n * PAGE_SIZE \<le> p - HDRSZ"
          "p - HDRSZ < n * PAGE_SIZE + 4096" "0 < n * PAGE_SIZE" "p - HDRSZ \<le> 2 ^ 56" "HDRSZ < p" "p + sz = n * PAGE_SIZE + 4096"
        using sz(2,3) a(3) q(3) by (auto simp: q PAGE_SIZE_def HDRSZ_def HEAP_ALLOC_MAX_def mod_eq_0_iff_dvd)
      let ?h = "if heap_end h - heap_low h < PAGE_SIZE - sz - HDRSZ
        then h\<lparr>hmem := m', heap_end := p - HDRSZ, heap_low := n * PAGE_SIZE\<rparr> else h\<lparr>hmem := m'\<rparr>"
      have "heap_inv \<lparr>heap_low = n * PAGE_SIZE, heap_end = p - HDRSZ, hmem = m'\<rparr> (F - {n}) bs"
        by (rule heap_inv_step [OF I a(5) _ a(6)]) (use al a(2) r in auto)
      moreover have "heap_inv \<lparr>heap_low = heap_low h, heap_end = heap_end h, hmem = m'\<rparr> (F - {n}) bs"
        by (rule heap_inv_step [OF I a(5) _ a(6)]) (use D(2-6) in auto)
      ultimately have I': "heap_inv ?h (F - {n}) bs" by (cases h) simp
      show ?thesis
      proof (rule that [of p ?h "F - {n}"])
        show "heap_place sz h = Some (p, ?h)"
        proof -
          have "\<not> PAGE_SIZE - HDRSZ < sz" using sz(3) by (simp add: PAGE_SIZE_def HDRSZ_def HEAP_ALLOC_MAX_def)
          then show ?thesis using False a(1) q(2) by (simp add: heap_place_def ps p_def [symmetric] Let_def)
        qed
        show "block_shape (p, sz)" using al sz a(4) by (simp add: block_shape_def PAGE_SIZE_def)
        show "region (p, sz) \<inter> {heap_low ?h ..< heap_end ?h} = {}"
        proof -
          have "x \<notin> {heap_low h ..< heap_end h}" if "x \<in> region (p, sz)" for x
            using D(7) [of x] rg [OF that] a(2) by auto
          then have "region (p, sz) \<inter> {heap_low h ..< heap_end h} = {}" by blast
          then show ?thesis by (simp add: region_def)
        qed
        show "region (p, sz) \<inter> region b = {}" if "b \<in> bs" for b using D(9) [OF that] rg a(2) by blast
        show "mem (hmem ?h) x = mem (hmem h) x" if "b \<in> bs" "x \<in> region b" for b x
          using D(9) [OF that] a(6) by (simp add: same_outside_def)
      qed (use I' rg in auto)
    qed
  qed
qed

subsection \<open>Allocation\<close>

lemma malloc_ok:
  assumes I: "heap_inv h F bs" and n: "0 < n" "n \<le> HEAP_ALLOC_MAX" and F: "F \<noteq> {}"
  obtains p h' F' where "heap_malloc_actual n ra h = Some (p, h')" "heap_inv h' F' (insert (p, ROUND_UP n HEAP_ALIGN) bs)"
    "F' \<subseteq> F" "block_shape (p, ROUND_UP n HEAP_ALIGN)"
    "\<And>b. b \<in> bs \<Longrightarrow> region (p, ROUND_UP n HEAP_ALIGN) \<inter> region b = {}"
    "\<And>b a. b \<in> bs \<Longrightarrow> a \<in> region b \<Longrightarrow> mem (hmem h') a = mem (hmem h) a"
    "\<And>a. p \<le> a \<Longrightarrow> a < p + ROUND_UP n HEAP_ALIGN \<Longrightarrow> mem (hmem h') a = 0x3333333333333333"
proof -
  let ?sz = "ROUND_UP n HEAP_ALIGN"
  note r = round16 [OF n]
  obtain p h1 F' where P: "heap_place ?sz h = Some (p, h1)" "heap_inv h1 F' bs" "F' \<subseteq> F" "block_shape (p, ?sz)"
    "region (p, ?sz) \<inter> {heap_low h1 ..< heap_end h1} = {}" "\<And>a. a \<in> region (p, ?sz) \<Longrightarrow> a div PAGE_SIZE \<notin> F'"
    "\<And>b. b \<in> bs \<Longrightarrow> region (p, ?sz) \<inter> region b = {}"
    "\<And>b a. b \<in> bs \<Longrightarrow> a \<in> region b \<Longrightarrow> mem (hmem h1) a = mem (hmem h) a"
    using place_ok [OF I r(4,1,3) F] by blast
  define m1 where "m1 = wr (psub p 16) (pair32 HEAP_ALLOC_MAGIC ?sz) (hmem h1)"
  define m2 where "m2 = wr (psub p 8) (pair32 (not32 ?sz) ra) m1"
  define m' where "m' = fill_words p ?sz 0x3333333333333333 m2"
  have p: "psub p 16 = p - 16" "psub p 8 = p - 8" "16 < p"
    using P(4) psub_le [of 16 p] psub_le [of 8 p] by (auto simp: block_shape_def HDRSZ_def)
  have out: "mem m' a = mem (hmem h1) a" if "a \<notin> region (p, ?sz)" for a
    using that p(3) r(4) by (auto simp: m'_def m2_def m1_def fill_words_def wr_def p region_def HDRSZ_def)
  have lt: "\<not> p \<le> p - 16" "\<not> p \<le> p - 8" "p - 16 \<noteq> p - 8" using p(3) by arith+
  then have "mem m' (p - 16) = pair32 HEAP_ALLOC_MAGIC ?sz" "mem m' (p - 8) = pair32 (not32 ?sz) ra"
    by (simp_all add: m'_def m2_def m1_def fill_words_def wr_def p)
  then have hd: "header_ok m' (p, ?sz)"
    using r(3) not32_less [of ?sz] by (simp add: header_ok_def HEAP_ALLOC_MAX_def)
  have fr: "free_is m' F'"
  proof (rule free_is_frame [OF heap_invD(1) [OF P(2)]])
    show "free_chunk_list m' = free_chunk_list (hmem h1)" by (simp add: m'_def m2_def m1_def fill_words_def wr_def)
    show "mem m' a = mem (hmem h1) a" if "a div PAGE_SIZE \<in> F'" for a using out [of a] P(6) [of a] that by blast
  qed
  have old: "header_ok m' b" if "b \<in> bs" for b
    using heap_invD(8) [OF P(2) that] header_frame [of "hmem h1" b m'] out P(7) [OF that] by blast
  have dj: "region b \<inter> region (p, ?sz) = {}" if "b \<in> bs" for b using P(7) [OF that] by blast
  have inv: "heap_inv (h1\<lparr>hmem := m'\<rparr>) F' (insert (p, ?sz) bs)"
    using heap_invD(2-10) [OF P(2)] P(4-7) fr hd unfolding heap_inv_def by (simp add: old dj)
  show ?thesis
  proof (rule that [of p "h1\<lparr>hmem := m'\<rparr>" F'])
    show "heap_malloc_actual n ra h = Some (p, h1\<lparr>hmem := m'\<rparr>)"
      using n r(3) P(1) by (simp add: heap_malloc_actual_def m'_def m2_def m1_def Let_def)
    show "mem (hmem (h1\<lparr>hmem := m'\<rparr>)) a = mem (hmem h) a" if "b \<in> bs" "a \<in> region b" for a b
      using out [of a] P(7) [OF that(1)] P(8) [OF that] that(2) by auto
    show "mem (hmem (h1\<lparr>hmem := m'\<rparr>)) a = 0x3333333333333333" if "p \<le> a" "a < p + ?sz" for a
      using that by (simp add: m'_def fill_words_def)
  qed (use inv P(3,4,7) in auto)
qed

text \<open>C34: as long as a page is free, \<open>kmalloc\<close> of up to 4000 bytes returns a block that is aligned to
  16 bytes and disjoint, with its header, from every block in use; no byte of a block in use
  changes, and the invariant of the heap holds with the new block.\<close>

theorem kmalloc_fresh_block:
  assumes "heap_inv h F bs" and "0 < n" and "n \<le> HEAP_ALLOC_MAX" and "F \<noteq> {}"
  shows "\<exists>p sz h' F'. kmalloc n ra h = Some (p, h') \<and> n \<le> sz \<and> p mod 16 = 0 \<and> p \<noteq> 0 \<and>
    heap_inv h' F' (insert (p, sz) bs) \<and> F' \<subseteq> F \<and>
    (\<forall>b\<in>bs. region (p, sz) \<inter> region b = {} \<and> (\<forall>a\<in>region b. mem (hmem h') a = mem (hmem h) a))"
proof (rule malloc_ok [OF assms, of ra])
  let ?sz = "ROUND_UP n HEAP_ALIGN"
  fix p h' F'
  assume a: "heap_malloc_actual n ra h = Some (p, h')" "heap_inv h' F' (insert (p, ?sz) bs)" "F' \<subseteq> F" "block_shape (p, ?sz)"
    "\<And>b. b \<in> bs \<Longrightarrow> region (p, ?sz) \<inter> region b = {}"
    "\<And>b a. b \<in> bs \<Longrightarrow> a \<in> region b \<Longrightarrow> mem (hmem h') a = mem (hmem h) a"
  have "p mod 16 = 0" "p \<noteq> 0" using a(4) by (auto simp: block_shape_def)
  then show ?thesis
    using a round16(2) [OF assms(2,3)]
    by (intro exI [of _ p] exI [of _ ?sz] exI [of _ h'] exI [of _ F']) (simp add: kmalloc_def)
qed

definition demo_heap :: kheap where
  "demo_heap = \<lparr>heap_low = 4096, heap_end = 8192, hmem = demo_vm\<rparr>"

lemma demo_heap_inv: "heap_inv demo_heap {2, 3, 4, 5} {}"
  using vm_okD(1) [OF demo_vm_ok] by (auto simp: heap_inv_def demo_heap_def PAGE_SIZE_def)

theorem kmalloc_fresh_block_witness:
  "\<exists>p sz h' F'. kmalloc 100 0 demo_heap = Some (p, h') \<and> 100 \<le> sz \<and> p mod 16 = 0 \<and> heap_inv h' F' {(p, sz)}"
  using kmalloc_fresh_block [OF demo_heap_inv, of 100 0] by (simp add: HEAP_ALLOC_MAX_def) metis

subsection \<open>Freeing\<close>

text \<open>\<open>kfree\<close> of a block in use succeeds, changes no byte of the other blocks and keeps the
  invariant; a second \<open>kfree\<close> of the same block panics.\<close>

theorem kfree_once:
  assumes I: "heap_inv h F bs" and b: "(p, n) \<in> bs"
  shows "\<exists>h'. kfree p ra h = Some h' \<and> heap_inv h' F (bs - {(p, n)}) \<and>
    (\<forall>c\<in>bs - {(p, n)}. \<forall>a\<in>region c. mem (hmem h') a = mem (hmem h) a) \<and> kfree p ra' h' = None"
proof -
  note B = heap_invD(8) [OF I b]
  have sh: "16 < p" "16 \<le> n" "n \<le> 4000" "p + n \<le> 2 ^ 56"
    using B by (auto simp: block_shape_def HDRSZ_def HEAP_ALLOC_MAX_def intro: dvd_imp_le)
  have s: "psub p 16 = p - 16" "psub p 8 = p - 8" "psub n 8 = n - 8"
    using sh psub_le [of 16 p] psub_le [of 8 p] psub_le [of 8 n] by auto
  have hd: "hi32 (mem (hmem h) (p - 16)) = n" "lo32 (mem (hmem h) (p - 8)) = not32 n"
    using B by (simp_all add: header_ok_def)
  define m1 where "m1 = wr p (pair32 HEAP_FREE_MAGIC ra) (fill_words (p + 8) (n - 8) 0x1111111111111111 (hmem h))"
  define m' where "m' = wr (p - 8) (pair32 0 (hi32 (mem m1 (p - 8)))) m1"
  have f: "kfree p ra h = Some (h\<lparr>hmem := m'\<rparr>)"
    using hd sh(3) not32_not32 [of n] by (simp add: kfree_def s m'_def m1_def Let_def)
  have out: "mem m' a = mem (hmem h) a" if "a \<notin> region (p, n)" for a
    using that sh by (auto simp: m'_def m1_def wr_def fill_words_def region_def HDRSZ_def)
  have fr: "free_is m' F"
  proof (rule free_is_frame [OF heap_invD(1) [OF I]])
    show "free_chunk_list m' = free_chunk_list (hmem h)" by (simp add: m'_def m1_def wr_def fill_words_def)
    show "mem m' a = mem (hmem h) a" if "a div PAGE_SIZE \<in> F" for a
      using out [of a] heap_invD(9) [OF I b, of a] that by blast
  qed
  have oth: "mem m' a = mem (hmem h) a" if "c \<in> bs - {(p, n)}" "a \<in> region c" for c a
    using out [of a] heap_invD(10) [OF I, of c "(p, n)"] b that by blast
  have "header_ok m' c" if "c \<in> bs - {(p, n)}" for c
    using heap_invD(8) [OF I, of c] header_frame [of "hmem h" c m'] oth [OF that] that by blast
  then have inv: "heap_inv (h\<lparr>hmem := m'\<rparr>) F (bs - {(p, n)})"
    using I fr unfolding heap_inv_def by simp blast
  have "p - 16 \<noteq> p - 8" "p - 16 \<noteq> p" "\<not> p + 8 \<le> p - 16" using sh(1) by arith+
  then have "hi32 (mem m' (p - 16)) = n" "lo32 (mem m' (p - 8)) = 0"
    using hd(1) by (simp_all add: m'_def m1_def wr_def fill_words_def)
  then have "kfree p ra' (h\<lparr>hmem := m'\<rparr>) = None" using sh(3) by (simp add: kfree_def s not32_def)
  then show ?thesis using f inv oth by (intro exI [of _ "h\<lparr>hmem := m'\<rparr>"]) simp
qed

theorem kfree_once_witness:
  "\<exists>p h1 h2. kmalloc 100 0 demo_heap = Some (p, h1) \<and> kfree p 0 h1 = Some h2 \<and> kfree p 0 h2 = None"
proof -
  obtain p sz h' F' where a: "kmalloc 100 0 demo_heap = Some (p, h')" "heap_inv h' F' {(p, sz)}"
    by (rule malloc_ok [OF demo_heap_inv, of 100 0]) (auto simp: kmalloc_def HEAP_ALLOC_MAX_def)
  then show ?thesis using kfree_once [OF a(2), of p sz 0 0] by auto
qed

subsection \<open>Exhaustion\<close>

text \<open>C35: the result of \<open>alloc_phys_page\<close> is not checked. When no page is free and the pool is too
  small, \<open>kmalloc\<close> returns an address in page 0 instead of failing.\<close>

theorem kmalloc_exhausted_page_zero:
  assumes "heap_inv h {} bs" and "0 < n" and "n \<le> HEAP_ALLOC_MAX"
    and "heap_end h - heap_low h < ROUND_UP n HEAP_ALIGN + HDRSZ"
  shows "\<exists>h'. kmalloc n ra h = Some (PAGE_SIZE - ROUND_UP n HEAP_ALIGN, h')"
proof -
  note r = round16 [OF assms(2,3)]
  have ps: "psub (heap_end h) (heap_low h) = heap_end h - heap_low h"
    using heap_invD(2,3) [OF assms(1)] by (intro psub_le) simp_all
  have al: "alloc_phys_page (hmem h) = Some (0, hmem h)"
    by (rule pool.alloc_none [OF heap_invD(1) [OF assms(1)]])
  have "\<not> PAGE_SIZE - HDRSZ < ROUND_UP n HEAP_ALIGN" using r(3) by (simp add: PAGE_SIZE_def HDRSZ_def HEAP_ALLOC_MAX_def)
  then show ?thesis
    using assms(2,4) r(3) al by (simp add: kmalloc_def heap_malloc_actual_def heap_place_def ps Let_def)
qed

theorem kmalloc_exhausted_page_zero_witness:
  "\<exists>h'. kmalloc 32 0 \<lparr>heap_low = 4096, heap_end = 4112, hmem = \<lparr>mem = \<lambda>_. 0, free_chunk_list = 0, satp = 0, main_mtag = 0\<rparr>\<rparr> =
     Some (PAGE_SIZE - ROUND_UP 32 HEAP_ALIGN, h')"
proof -
  let ?h = "\<lparr>heap_low = 4096, heap_end = 4112, hmem = \<lparr>mem = \<lambda>_. 0, free_chunk_list = 0, satp = 0, main_mtag = 0\<rparr>\<rparr>"
  have "free_is (hmem ?h) {}" unfolding free_is_def by (intro exI [of _ "[]"]) simp
  then have "heap_inv ?h {} {}" by (simp add: heap_inv_def)
  then show ?thesis
    using kmalloc_exhausted_page_zero [of ?h "{}" 32 0]
    by (simp add: HEAP_ALLOC_MAX_def ROUND_UP_def HEAP_ALIGN_def HDRSZ_def u64_def)
qed

end
