(* ===== verification/Process.thy ===== *)
theory Process
  imports Io Thread Heap
begin

text \<open>
  Processes of kernel/process.c: the process table, fork and exit, and the stack a new program
  starts with. A process is named by its index in \<open>proctab\<close>, an I/O object by a number, and the
  drivers' states are of a type parameter, as in \<open>Io\<close>. The state puts together the threads of
  \<open>Thread\<close>, the heap and memory of \<open>Heap\<close> and the I/O objects. \<open>None\<close> is a panic or a failed
  assertion. The return address a heap block records and the name of the condition variable on
  the caller's stack are arguments.
\<close>

definition NPROC :: nat where "NPROC = 16"
definition PROCESS_IOMAX :: nat where "PROCESS_IOMAX = 16"

subsection \<open>State\<close>

text \<open>\<open>p_addr\<close> is the address of the structure; \<open>tid\<close> and \<open>mtag\<close> are named \<open>p_tid\<close>, \<open>p_mtag\<close>.\<close>

record process =
  p_addr :: nat
  idx :: nat
  p_tid :: nat
  p_mtag :: nat
  iotab :: "nat \<Rightarrow> nat option"

definition process_size :: nat where "process_size = 144"

text \<open>The registers of a trap frame; \<open>rest\<close> holds those the kernel only saves and restores.\<close>

record trap_frame =
  a0 :: nat
  a1 :: nat
  a2 :: nat
  a7 :: nat
  sp :: nat
  sstatus :: nat
  sepc :: nat
  rest :: "nat \<Rightarrow> nat"

record 'd kstate =
  ios :: "nat \<Rightarrow> 'd io"
  proctab :: "nat \<Rightarrow> process option"
  t_proc :: "nat \<Rightarrow> nat option"
  thr :: kthr
  kh :: kheap

definition with_mem :: "(kmem \<Rightarrow> ('a \<times> kmem) option) \<Rightarrow> 'd kstate \<Rightarrow> ('a \<times> 'd kstate) option" where
  "with_mem f s = map_option (\<lambda>(a, m). (a, s\<lparr>kh := (kh s)\<lparr>hmem := m\<rparr>\<rparr>)) (f (hmem (kh s)))"

text \<open>A thread operation may switch threads, and with them the memory space in \<open>satp\<close>.\<close>

definition with_thr :: "(kthr \<Rightarrow> ('a \<times> kthr) option) \<Rightarrow> 'd kstate \<Rightarrow> ('a \<times> 'd kstate) option" where
  "with_thr f s =
     map_option (\<lambda>(a, t). (a, s\<lparr>thr := t, kh := (kh s)\<lparr>hmem := (hmem (kh s))\<lparr>satp := active_mspace t\<rparr>\<rparr>\<rparr>))
       (f ((thr s)\<lparr>active_mspace := satp (hmem (kh s))\<rparr>))"

definition no_result :: "('s \<Rightarrow> 's option) \<Rightarrow> 's \<Rightarrow> (unit \<times> 's) option" where
  "no_result f s = map_option (Pair ()) (f s)"

subsection \<open>Threads and their processes\<close>

definition thread_process :: "int \<Rightarrow> 'd kstate \<Rightarrow> nat option option" where
  "thread_process t s =
     (if \<not> (0 \<le> t \<and> t < int NTHR) then None
      else Some (if thrtab (thr s) (nat t) then t_proc s (nat t) else None))"

definition running_thread_process :: "'d kstate \<Rightarrow> nat option" where
  "running_thread_process s = t_proc s (TP (thr s))"

definition thread_set_process :: "int \<Rightarrow> process \<Rightarrow> 'd kstate \<Rightarrow> 'd kstate option" where
  "thread_set_process t p s =
     (if \<not> (0 \<le> t \<and> t < int NTHR) \<or> \<not> thrtab (thr s) (nat t) then None
      else Some (s\<lparr>t_proc := (t_proc s)(nat t := Some (idx p)),
                   thr := (thr s)\<lparr>t_mtag := (t_mtag (thr s))(nat t := p_mtag p)\<rparr>\<rparr>))"

definition current_process :: "'d kstate \<Rightarrow> process option" where
  "current_process s = Option.bind (running_thread_process s) (proctab s)"

text \<open>\<open>ready\<close>: memory and heap are initialised and the process manager is not.\<close>

definition procmgr_init :: "bool \<Rightarrow> nat \<Rightarrow> 'd kstate \<Rightarrow> 'd kstate option" where
  "procmgr_init ready addr s =
     (if \<not> ready then None
      else let p = \<lparr>p_addr = addr, idx = 0, p_tid = TP (thr s), p_mtag = satp (hmem (kh s)), iotab = (\<lambda>_. None)\<rparr>
        in thread_set_process (int (p_tid p)) p (s\<lparr>proctab := (\<lambda>_. None)(0 := Some p)\<rparr>))"

subsection \<open>References\<close>

definition add_io :: "nat \<Rightarrow> (nat \<Rightarrow> 'd io) \<Rightarrow> nat \<Rightarrow> 'd io" where
  "add_io ob f = f(ob := ioaddref (f ob))"

definition close_io :: "nat \<Rightarrow> (nat \<Rightarrow> 'd io) \<Rightarrow> (nat \<Rightarrow> 'd io) option" where
  "close_io ob f = map_option (\<lambda>io. f(ob := io)) (ioclose (f ob))"

fun addref_all :: "(nat \<Rightarrow> nat option) \<Rightarrow> nat list \<Rightarrow> (nat \<Rightarrow> 'd io) \<Rightarrow> nat \<Rightarrow> 'd io" where
  "addref_all tab [] f = f"
| "addref_all tab (i # is) f =
     addref_all tab is (case tab i of None \<Rightarrow> f | Some ob \<Rightarrow> add_io ob f)"

fun close_all :: "(nat \<Rightarrow> nat option) \<Rightarrow> nat list \<Rightarrow> (nat \<Rightarrow> 'd io) \<Rightarrow> (nat \<Rightarrow> 'd io) option" where
  "close_all tab [] f = Some f"
| "close_all tab (i # is) f =
     do {
       f \<leftarrow> (case tab i of None \<Rightarrow> Some f | Some ob \<Rightarrow> close_io ob f);
       close_all tab is f
     }"

definition fds :: "nat list" where "fds = [0..<PROCESS_IOMAX]"

subsection \<open>Fork\<close>

text \<open>The caller fails with a code, or waits for the child to run and then returns its id.\<close>

datatype fork_res = Fork_rc int | Fork_waits int

definition free_slot :: "'d kstate \<Rightarrow> nat option" where
  "free_slot s = find (\<lambda>i. proctab s i = None) [1..<NPROC]"

definition fork_undo_thread :: "nat \<Rightarrow> process \<Rightarrow> nat \<Rightarrow> 'd kstate \<Rightarrow> (fork_res \<times> 'd kstate) option" where
  "fork_undo_thread ra child slot s =
     do {
       let s = s\<lparr>proctab := (proctab s)(slot := None)\<rparr>;
       f \<leftarrow> close_all (iotab child) fds (ios s);
       let s = s\<lparr>ios := f\<rparr>;
       (saved, s) \<leftarrow> with_mem (\<lambda>m. Some (switch_mspace (p_mtag child) m)) s;
       (_, s) \<leftarrow> with_mem (no_result reset_active_mspace) s;
       (_, s) \<leftarrow> with_mem (\<lambda>m. Some (switch_mspace saved m)) s;
       h \<leftarrow> kfree (p_addr child) ra (kh s);
       Some (Fork_rc (- EMTHR), s\<lparr>kh := h\<rparr>)
     }"

definition fork_thread ::
  "nat \<Rightarrow> nat \<Rightarrow> process \<Rightarrow> nat \<Rightarrow> 'd kstate \<Rightarrow> (fork_res \<times> 'd kstate) option"
where
  "fork_thread ra cv child slot s =
     do {
       let s = s\<lparr>proctab := (proctab s)(slot := Some child)\<rparr>;
       let s = s\<lparr>thr := condition_init (Cond cv) (thr s)\<rparr>;
       (t, s) \<leftarrow> with_thr thread_spawn s;
       if t \<le> 0 then fork_undo_thread ra child slot s
       else do {
         let child = child\<lparr>p_tid := nat t\<rparr>;
         let s = s\<lparr>proctab := (proctab s)(slot := Some child)\<rparr>;
         s \<leftarrow> thread_set_process t child s;
         (_, s) \<leftarrow> with_thr (no_result (condition_wait (Cond cv))) s;
         Some (Fork_waits t, s)
       }
     }"

definition process_fork ::
  "nat \<Rightarrow> nat \<Rightarrow> trap_frame option \<Rightarrow> 'd kstate \<Rightarrow> (fork_res \<times> 'd kstate) option"
where
  "process_fork ra cv tfr s =
     (case (current_process s, tfr) of
        (Some parent, Some _) \<Rightarrow>
          (case free_slot s of
             None \<Rightarrow> Some (Fork_rc (- EMPROC), s)
           | Some slot \<Rightarrow> do {
               (addr, h) \<leftarrow> kcalloc 1 process_size ra (kh s);
               let s = s\<lparr>kh := h\<rparr>;
               if addr = 0 then Some (Fork_rc (- ENOMEM), s)
               else do {
                 let child = \<lparr>p_addr = addr, idx = slot, p_tid = 0, p_mtag = 0, iotab = iotab parent\<rparr>;
                 let s = s\<lparr>ios := addref_all (iotab parent) fds (ios s)\<rparr>;
                 (child_mtag, s) \<leftarrow> with_mem clone_active_mspace s;
                 if child_mtag = 0
                 then do {
                   f \<leftarrow> close_all (iotab child) fds (ios s);
                   h \<leftarrow> kfree addr ra (kh s);
                   Some (Fork_rc (- ENOMEM), s\<lparr>ios := f, kh := h\<rparr>)
                 }
                 else fork_thread ra cv (child\<lparr>p_mtag := child_mtag\<rparr>) slot s
               }
             })
      | _ \<Rightarrow> Some (Fork_rc (- EINVAL), s))"

text \<open>What the child runs first, up to the jump to user mode with the registers it returns.\<close>

definition fork_func :: "nat \<Rightarrow> trap_frame \<Rightarrow> 'd kstate \<Rightarrow> (trap_frame \<times> 'd kstate) option" where
  "fork_func cv tfr s =
     do {
       (_, s) \<leftarrow> with_thr (no_result (condition_broadcast (Cond cv))) s;
       (_, s) \<leftarrow> (case current_process s of
                  Some me \<Rightarrow> if p_mtag me \<noteq> 0 then with_mem (\<lambda>m. Some (switch_mspace (p_mtag me) m)) s
                             else Some (0, s)
                | None \<Rightarrow> Some (0, s));
       Some (tfr\<lparr>a0 := 0\<rparr>, s)
     }"

subsection \<open>Exit\<close>

definition process_exit :: "nat \<Rightarrow> 'd kstate \<Rightarrow> (unit outcome \<times> 'd kstate) option" where
  "process_exit ra s =
     do {
       s \<leftarrow> (case current_process s of
               None \<Rightarrow> Some s
             | Some p \<Rightarrow> do {
                 f \<leftarrow> close_all (iotab p) fds (ios s);
                 let s = s\<lparr>ios := f, proctab := (proctab s)(idx p := Some (p\<lparr>iotab := \<lambda>_. None\<rparr>))\<rparr>;
                 if idx p > 0
                 then do {
                   (_, s) \<leftarrow> with_mem discard_active_mspace s;
                   let s = s\<lparr>proctab := (proctab s)(idx p := None)\<rparr>;
                   h \<leftarrow> kfree (p_addr p) ra (kh s);
                   Some (s\<lparr>kh := h\<rparr>)
                 }
                 else map_option snd (with_mem (no_result reset_active_mspace) s)
               });
       with_thr thread_exit s
     }"

subsection \<open>Counting references\<close>

text \<open>
  \<open>refs\<close> is the number of descriptors, over all processes, that name an object. A state is
  \<open>balanced\<close> when each reference count is that number plus the references \<open>X\<close> the kernel holds
  outside the descriptor tables.
\<close>

definition cnt :: "(nat \<Rightarrow> nat option) \<Rightarrow> nat list \<Rightarrow> nat \<Rightarrow> nat" where
  "cnt tab is ob = sum_list (map (\<lambda>i. of_bool (tab i = Some ob)) is)"

fun held :: "process option \<Rightarrow> nat \<Rightarrow> nat" where
  "held None ob = 0"
| "held (Some p) ob = cnt (iotab p) fds ob"

definition refs :: "(nat \<Rightarrow> process option) \<Rightarrow> nat \<Rightarrow> nat" where
  "refs pt ob = sum_list (map (\<lambda>i. held (pt i) ob) [0..<NPROC])"

definition refcount :: "(nat \<Rightarrow> 'd io) \<Rightarrow> nat \<Rightarrow> nat" where
  "refcount f ob = unat (refcnt (f ob))"

definition balanced :: "(nat \<Rightarrow> 'd io) \<Rightarrow> (nat \<Rightarrow> process option) \<Rightarrow> (nat \<Rightarrow> nat) \<Rightarrow> bool" where
  "balanced f pt X \<longleftrightarrow> (\<forall>ob. refcount f ob = refs pt ob + X ob)"

definition procs_ok :: "(nat \<Rightarrow> process option) \<Rightarrow> bool" where
  "procs_ok pt \<longleftrightarrow> (\<forall>i p. pt i = Some p \<longrightarrow> i < NPROC \<and> idx p = i)"

lemma sum_list_upd:
  fixes g :: "'b \<Rightarrow> nat"
  assumes "distinct is" "j \<in> set is"
  shows "sum_list (map (\<lambda>i. g ((f(j := v)) i)) is) + g (f j) = sum_list (map (\<lambda>i. g (f i)) is) + g v"
  using assms
proof (induction "is")
  case (Cons k ks)
  have "sum_list (map (\<lambda>i. g ((f(j := v)) i)) ks) = sum_list (map (\<lambda>i. g (f i)) ks)" if "j \<notin> set ks"
    using that by (intro arg_cong [where f = sum_list] map_cong) auto
  then show ?case using Cons by (cases "k = j") auto
qed simp

lemma cnt_upd:
  assumes "fd < PROCESS_IOMAX"
  shows "cnt (tab(fd := v)) fds ob + of_bool (tab fd = Some ob) = cnt tab fds ob + of_bool (v = Some ob)"
  using sum_list_upd [of fds fd "\<lambda>x. of_bool (x = Some ob)" tab v] assms
  by (simp add: cnt_def fds_def)

lemma refs_upd:
  assumes "i < NPROC"
  shows "refs (pt(i := q)) ob + held (pt i) ob = refs pt ob + held q ob"
  using sum_list_upd [of "[0..<NPROC]" i "\<lambda>x. held x ob" pt q] assms by (simp add: refs_def)

lemma sum_list_le_const:
  fixes g :: "'b \<Rightarrow> nat"
  shows "(\<And>x. x \<in> set xs \<Longrightarrow> g x \<le> c) \<Longrightarrow> sum_list (map g xs) \<le> length xs * c"
  by (induction xs) (auto simp: add_mono)

lemma cnt_le: "cnt tab is ob \<le> length is"
  using sum_list_le_const [of "is" "\<lambda>i. of_bool (tab i = Some ob)" 1] by (simp add: cnt_def)

lemma held_le: "held q ob \<le> 16"
  using cnt_le [of _ fds] by (cases q) (auto simp: fds_def PROCESS_IOMAX_def)

lemma refs_le: "refs pt ob \<le> 256"
  using sum_list_le_const [of "[0..<NPROC]" "\<lambda>i. held (pt i) ob" 16] held_le
  by (simp add: refs_def NPROC_def)

lemma held_le_refs: "i < NPROC \<Longrightarrow> held (pt i) ob \<le> refs pt ob"
  unfolding refs_def by (rule member_le_sum_list) simp_all

lemma unat_succ64:
  fixes w :: "64 word"
  assumes "unat w + 1 < 2 ^ 64"
  shows "unat (w + 1) = unat w + 1"
  using assms unat_add_lem [of w 1] by simp

lemma rc_add_io:
  assumes "refcount f ob + 1 < 2 ^ 64"
  shows "refcount (add_io ob f) x = refcount f x + of_bool (x = ob)"
  using assms unat_succ64 [of "refcnt (f ob)"] by (simp add: refcount_def add_io_def ioaddref_def)

lemma rc_close_io:
  assumes "close_io ob f = Some f'"
  shows "refcount f x = refcount f' x + of_bool (x = ob)"
proof -
  obtain io where io: "ioclose (f ob) = Some io" and f': "f' = f(ob := io)"
    using assms by (auto simp: close_io_def)
  have nz: "refcnt (f ob) \<noteq> 0" and d: "refcnt io = refcnt (f ob) - 1"
    using io by (auto simp: ioclose_def Let_def split: if_splits option.splits)
  have "unat (refcnt (f ob)) \<noteq> 0" using nz by (simp add: unat_eq_zero)
  then have "unat (refcnt (f ob)) = unat (refcnt io) + 1"
    using unat_minus_one [OF nz] by (simp add: d)
  then show ?thesis using f' by (simp add: refcount_def)
qed

lemma rc_close_all:
  "close_all tab is f = Some f' \<Longrightarrow> refcount f x = refcount f' x + cnt tab is x"
proof (induction tab "is" f rule: close_all.induct)
  case (2 tab i "is" f)
  obtain g where g: "(case tab i of None \<Rightarrow> Some f | Some ob \<Rightarrow> close_io ob f) = Some g"
    and r: "close_all tab is g = Some f'"
    using "2.prems" by (auto split: bind_splits)
  have "refcount f x = refcount g x + of_bool (tab i = Some x)"
    using g rc_close_io by (fastforce split: option.splits)
  then show ?case using "2.IH" [OF g r] by (simp add: cnt_def)
qed (simp add: cnt_def)

lemma rc_addref_all:
  "(\<And>x. refcount f x + length is < 2 ^ 64) \<Longrightarrow> refcount (addref_all tab is f) x = refcount f x + cnt tab is x"
proof (induction "is" arbitrary: f)
  case (Cons i "is")
  let ?g = "case tab i of None \<Rightarrow> f | Some ob \<Rightarrow> add_io ob f"
  have g: "refcount ?g y = refcount f y + of_bool (tab i = Some y)" for y
  proof (cases "tab i")
    case (Some ob)
    have "refcount f ob + 1 < 2 ^ 64" using Cons.prems [of ob] by simp
    then show ?thesis using Some rc_add_io [of f ob y] by auto
  qed simp
  have "refcount ?g y + length is < 2 ^ 64" for y using Cons.prems [of y] g [of y] by (simp split: if_splits)
  then show ?case using Cons.IH [of ?g] g [of x] by (simp add: cnt_def)
qed (simp add: cnt_def)

subsection \<open>Fork and exit keep the count\<close>

lemma with_mem_frame:
  "with_mem f s = Some (a, s') \<Longrightarrow>
     ios s' = ios s \<and> proctab s' = proctab s \<and> t_proc s' = t_proc s \<and> thr s' = thr s"
  by (auto simp: with_mem_def)

lemma with_thr_frame:
  "with_thr f s = Some (a, s') \<Longrightarrow> ios s' = ios s \<and> proctab s' = proctab s \<and> t_proc s' = t_proc s"
  by (auto simp: with_thr_def)

lemma thread_set_process_frame:
  "thread_set_process t p s = Some s' \<Longrightarrow> ios s' = ios s \<and> proctab s' = proctab s"
  by (auto simp: thread_set_process_def split: if_splits)

lemmas kstate_frames = with_mem_frame with_thr_frame thread_set_process_frame

lemma procs_ok_upd:
  "procs_ok pt \<Longrightarrow> i < NPROC \<Longrightarrow> (\<And>p. q = Some p \<Longrightarrow> idx p = i) \<Longrightarrow> procs_ok (pt(i := q))"
  by (auto simp: procs_ok_def)

lemma free_slotD:
  assumes "free_slot s = Some i"
  shows "0 < i" "i < NPROC" "proctab s i = None"
  using assms by (auto simp: free_slot_def find_Some_iff)

text \<open>Adding the references of a table and closing them again is balanced by a new table entry.\<close>

lemma balanced_addref:
  assumes b: "balanced f pt X" and X: "\<And>x. X x < 2 ^ 32" and i: "i < NPROC" "pt i = None"
  shows "balanced (addref_all (iotab p) fds f) (pt(i := Some p)) X"
proof -
  have "refcount f x + length fds < 2 ^ 64" for x
  proof -
    have "refcount f x = refs pt x + X x" using b by (simp add: balanced_def)
    moreover have "refs pt x \<le> 256" "length fds = 16"
      by (simp_all add: refs_le fds_def PROCESS_IOMAX_def)
    moreover have "(2::nat) ^ 32 + 272 < 2 ^ 64" by simp
    ultimately show ?thesis using X [of x] by linarith
  qed
  then have "refcount (addref_all (iotab p) fds f) x = refcount f x + cnt (iotab p) fds x" for x
    by (rule rc_addref_all)
  moreover have "refs (pt(i := Some p)) x = refs pt x + cnt (iotab p) fds x" for x
    using refs_upd [OF i(1), of pt "Some p" x] i(2) by simp
  ultimately show ?thesis using b by (simp add: balanced_def)
qed

lemma balanced_close_all:
  assumes b: "balanced f pt X" and i: "i < NPROC" "pt i = Some p"
    and c: "close_all (iotab p) fds f = Some f'" and q: "\<And>x. held q x = 0"
  shows "balanced f' (pt(i := q)) X"
proof -
  have "refcount f' x = refs (pt(i := q)) x + X x" for x
  proof -
    have "refcount f x = refcount f' x + cnt (iotab p) fds x" using c by (rule rc_close_all)
    moreover have "refs (pt(i := q)) x + cnt (iotab p) fds x = refs pt x"
      using refs_upd [OF i(1), of pt q x] i(2) q by simp
    moreover have "refcount f x = refs pt x + X x" using b by (simp add: balanced_def)
    ultimately show ?thesis by linarith
  qed
  then show ?thesis by (simp add: balanced_def)
qed

definition fd_inv :: "'d kstate \<Rightarrow> (nat \<Rightarrow> nat) \<Rightarrow> bool" where
  "fd_inv s X \<longleftrightarrow> balanced (ios s) (proctab s) X \<and> procs_ok (proctab s) \<and> (\<forall>x. X x < 2 ^ 32)"

lemma current_processD:
  assumes "procs_ok (proctab s)" "current_process s = Some p"
  shows "idx p < NPROC" "proctab s (idx p) = Some p"
  using assms by (auto simp: current_process_def procs_ok_def split: bind_splits)

lemma fork_undo_thread_inv:
  assumes b: "balanced (ios s) (proctab s) X" and p: "procs_ok (proctab s)" and X: "\<forall>x. X x < 2 ^ 32"
    and i: "slot < NPROC" "proctab s slot = Some child" and r: "fork_undo_thread ra child slot s = Some (r, s')"
  shows "fd_inv s' X"
proof -
  obtain f where f: "close_all (iotab child) fds (ios s) = Some f"
    and fr: "ios s' = f" "proctab s' = (proctab s)(slot := None)"
    using r by (auto simp: fork_undo_thread_def Let_def split: bind_splits dest!: with_mem_frame)
  have "balanced f ((proctab s)(slot := None)) X"
    by (rule balanced_close_all [OF b i f]) simp
  moreover have "procs_ok ((proctab s)(slot := None))" by (rule procs_ok_upd [OF p i(1)]) simp
  ultimately show ?thesis using X fr by (simp add: fd_inv_def)
qed

lemma fork_thread_inv:
  assumes b: "balanced (ios s) ((proctab s)(slot := Some child)) X" and p: "procs_ok (proctab s)"
    and X: "\<forall>x. X x < 2 ^ 32" and i: "slot < NPROC" "idx child = slot"
    and r: "fork_thread ra cv child slot s = Some (r, s')"
  shows "fd_inv s' X"
proof -
  let ?s = "s\<lparr>proctab := (proctab s)(slot := Some child), thr := condition_init (Cond cv) (thr s)\<rparr>"
  have ok: "procs_ok ((proctab s)(slot := Some c))" if "idx c = slot" for c
    by (rule procs_ok_upd [OF p i(1)]) (simp add: that)
  obtain t s1 where s1: "with_thr thread_spawn ?s = Some (t, s1)"
    and r1: "(if t \<le> 0 then fork_undo_thread ra child slot s1
       else do {
         let child = child\<lparr>p_tid := nat t\<rparr>;
         let s = s1\<lparr>proctab := (proctab s1)(slot := Some child)\<rparr>;
         s \<leftarrow> thread_set_process t child s;
         (_, s) \<leftarrow> with_thr (no_result (condition_wait (Cond cv))) s;
         Some (Fork_waits t, s)
       }) = Some (r, s')"
    using r by (auto simp: fork_thread_def Let_def split: bind_splits)
  have f1: "ios s1 = ios s" "proctab s1 = (proctab s)(slot := Some child)"
    using with_thr_frame [OF s1] by simp_all
  show ?thesis
  proof (cases "t \<le> 0")
    case True
    then show ?thesis using r1 f1 b X i ok [OF i(2)]
      by (intro fork_undo_thread_inv [of s1 X slot child ra r s']) auto
  next
    case False
    let ?c = "child\<lparr>p_tid := nat t\<rparr>"
    have "ios s' = ios s" "proctab s' = (proctab s)(slot := Some ?c)"
      using r1 False f1 by (auto simp: Let_def split: bind_splits dest!: with_thr_frame thread_set_process_frame)
    moreover have "held (Some ?c) = held (Some child)" by (rule ext) simp
    then have "refs ((proctab s)(slot := Some ?c)) x = refs ((proctab s)(slot := Some child)) x" for x
      using refs_upd [OF i(1), of "proctab s" "Some ?c" x] refs_upd [OF i(1), of "proctab s" "Some child" x] by simp
    ultimately show ?thesis using b X ok [of ?c] i by (simp add: fd_inv_def balanced_def)
  qed
qed

lemma process_fork_inv:
  assumes inv: "fd_inv s X" and r: "process_fork ra cv tfr s = Some (r, s')"
  shows "fd_inv s' X"
proof (cases "current_process s = None \<or> tfr = None \<or> free_slot s = None")
  case True
  then have "s' = s" using r by (auto simp: process_fork_def split: option.splits)
  then show ?thesis using inv by simp
next
  case False
  then obtain parent slot where cp: "current_process s = Some parent" and sl: "free_slot s = Some slot"
    and tf: "tfr \<noteq> None" by auto
  note b = inv [unfolded fd_inv_def]
  obtain addr h where k: "kcalloc 1 process_size ra (kh s) = Some (addr, h)"
    using r cp sl tf by (auto simp: process_fork_def split: option.splits bind_splits)
  let ?c = "\<lparr>p_addr = addr, idx = slot, p_tid = 0, p_mtag = 0, iotab = iotab parent\<rparr>"
  let ?s = "s\<lparr>kh := h, ios := addref_all (iotab parent) fds (ios s)\<rparr>"
  show ?thesis
  proof (cases "addr = 0")
    case True
    then have "s' = s\<lparr>kh := h\<rparr>" using r cp sl tf k by (auto simp: process_fork_def Let_def)
    then show ?thesis using inv by (simp add: fd_inv_def)
  next
    case False
    then obtain mt s1 where s1: "with_mem clone_active_mspace ?s = Some (mt, s1)"
      and r1: "(if mt = 0
         then do {
           f \<leftarrow> close_all (iotab ?c) fds (ios s1);
           h \<leftarrow> kfree addr ra (kh s1);
           Some (Fork_rc (- ENOMEM), s1\<lparr>ios := f, kh := h\<rparr>)
         }
         else fork_thread ra cv (?c\<lparr>p_mtag := mt\<rparr>) slot s1) = Some (r, s')"
      using r cp sl tf k
      by (cases "with_mem clone_active_mspace ?s") (auto simp: process_fork_def Let_def)
    have f1: "ios s1 = addref_all (iotab parent) fds (ios s)" "proctab s1 = proctab s"
      using with_mem_frame [OF s1] by simp_all
    note slot = free_slotD [OF sl]
    have bal: "balanced (ios s1) ((proctab s)(slot := Some c)) X" if "iotab c = iotab parent" for c
      using balanced_addref [of "ios s" "proctab s" X slot c] b slot f1 that by simp
    show ?thesis
    proof (cases "mt = 0")
      case True
      then obtain f where f: "close_all (iotab parent) fds (ios s1) = Some f"
        and fr: "ios s' = f" "proctab s' = proctab s"
        using r1 f1 by (auto split: bind_splits)
      have "balanced f (((proctab s)(slot := Some ?c))(slot := None)) X"
        by (rule balanced_close_all [where p = ?c, OF bal [of ?c]]) (use f slot in simp_all)
      then show ?thesis using b fr slot by (simp add: fd_inv_def fun_upd_idem)
    next
      case False
      then show ?thesis using r1 bal b slot f1
        by (intro fork_thread_inv [of s1 slot "?c\<lparr>p_mtag := mt\<rparr>" X ra cv r s']) auto
    qed
  qed
qed

lemma process_exit_inv:
  assumes inv: "fd_inv s X" and r: "process_exit ra s = Some (r, s')"
  shows "fd_inv s' X"
proof (cases "current_process s")
  case None
  then show ?thesis using inv r by (auto simp: process_exit_def fd_inv_def dest!: with_thr_frame)
next
  case (Some p)
  note b = inv [unfolded fd_inv_def]
  have i: "idx p < NPROC" "proctab s (idx p) = Some p" using b current_processD [OF _ Some] by simp_all
  let ?q = "if idx p > 0 then None else Some (p\<lparr>iotab := \<lambda>_. None\<rparr>)"
  obtain f where f: "close_all (iotab p) fds (ios s) = Some f"
    and fr: "ios s' = f" "proctab s' = (proctab s)(idx p := ?q)"
    using r Some by (auto simp: process_exit_def Let_def split: bind_splits if_splits dest!: with_mem_frame with_thr_frame)
  have "balanced f ((proctab s)(idx p := ?q)) X"
    by (rule balanced_close_all [of "ios s" "proctab s" X "idx p" p f]) (use b i f in \<open>auto simp: cnt_def\<close>)
  moreover have "procs_ok ((proctab s)(idx p := ?q))" using b i(1) by (auto intro: procs_ok_upd)
  ultimately show ?thesis using fr b by (simp add: fd_inv_def)
qed

end
