(* ===== verification/Pipes.thy ===== *)
theory Pipes
  imports Ring Sched_Steps
begin

text \<open>
  Pipes of kernel/io.c on top of the buffer of \<open>Ring\<close> and the threads of \<open>Sched_Steps\<close>. An
  operation runs up to its end or to the call that suspends the caller; \<open>Suspended pc\<close> says where
  the caller goes on when it runs again, and \<open>pipe_resume\<close> goes on from there. A condition
  variable of the pipe is named by a number, the lock by another.
\<close>

subsection \<open>State and operations\<close>

record pipe_state =
  plock :: nat
  not_empty :: nat
  not_full :: nat
  write_open :: bool
  read_open :: bool
  pb :: pipe_buf

datatype pipe_pc =
    RdAcquire nat | RdWait nat
  | WrAcquire "byte list" | WrWait "byte list" nat
  | ClAcquire bool

datatype pipe_res =
    PRead int "byte list" | PWrite int | PClosed bool | Suspended pipe_pc

type_synonym pipe_step = "(pipe_res \<times> kthr \<times> pipe_state) option"

definition pipe_read_loop :: "nat \<Rightarrow> kthr \<Rightarrow> pipe_state \<Rightarrow> pipe_step" where
  "pipe_read_loop bufsz k s =
     (if pipe_count (pb s) = 0 \<and> write_open s
      then map_option (\<lambda>k. (Suspended (RdWait bufsz), k, s)) (condition_wait (Cond (not_empty s)) k)
      else case drain pipe_empty pipe_get bufsz (pb s) of (out, b) \<Rightarrow> do {
        let s = s\<lparr>pb := b\<rparr>;
        k \<leftarrow> (if length out > 0 then condition_broadcast (Cond (not_full s)) k else Some k);
        k \<leftarrow> lock_release (plock s) k;
        Some (PRead (int (length out)) out, k, s)
      })"

definition pipe_read_acquire :: "nat \<Rightarrow> kthr \<Rightarrow> pipe_state \<Rightarrow> pipe_step" where
  "pipe_read_acquire bufsz k s =
     do {
       (r, k) \<leftarrow> lock_acquire (plock s) k;
       case r of Blocked \<Rightarrow> Some (Suspended (RdAcquire bufsz), k, s) | Returned _ \<Rightarrow> pipe_read_loop bufsz k s
     }"

definition pipe_read :: "bool \<Rightarrow> int \<Rightarrow> kthr \<Rightarrow> pipe_state \<Rightarrow> pipe_step" where
  "pipe_read is_writer bufsz k s =
     (if is_writer then Some (PRead (- EBADFD) [], k, s)
      else if bufsz \<le> 0 then Some (PRead 0 [], k, s)
      else pipe_read_acquire (nat bufsz) k s)"

partial_function (option) pipe_write_loop ::
  "byte list \<Rightarrow> nat \<Rightarrow> kthr \<Rightarrow> pipe_state \<Rightarrow> (pipe_res \<times> kthr \<times> pipe_state) option"
where
  "pipe_write_loop data written k s =
     (if written < length data
      then if pipe_count (pb s) = PIPE_BUF_SIZE \<and> read_open s
        then map_option (\<lambda>k. (Suspended (WrWait data written), k, s)) (condition_wait (Cond (not_full s)) k)
        else if \<not> read_open s
        then map_option (\<lambda>k. (PWrite (if written > 0 then int written else - EPIPE), k, s)) (lock_release (plock s) k)
        else case fill pipe_full pipe_put (drop written data) (pb s) of (rest, b) \<Rightarrow>
          Option.bind (condition_broadcast (Cond (not_empty s)) k)
            (\<lambda>k. pipe_write_loop data (length data - length rest) k (s\<lparr>pb := b\<rparr>))
      else map_option (\<lambda>k. (PWrite (int written), k, s)) (lock_release (plock s) k))"

definition pipe_write_acquire :: "byte list \<Rightarrow> kthr \<Rightarrow> pipe_state \<Rightarrow> pipe_step" where
  "pipe_write_acquire data k s =
     do {
       (r, k) \<leftarrow> lock_acquire (plock s) k;
       case r of Blocked \<Rightarrow> Some (Suspended (WrAcquire data), k, s) | Returned _ \<Rightarrow> pipe_write_loop data 0 k s
     }"

text \<open>The bytes to write are the first \<open>len\<close> of the buffer the caller passes.\<close>

definition pipe_write :: "bool \<Rightarrow> byte list \<Rightarrow> int \<Rightarrow> kthr \<Rightarrow> pipe_state \<Rightarrow> pipe_step" where
  "pipe_write is_writer buf len k s =
     (if \<not> is_writer then Some (PWrite (- EBADFD), k, s)
      else if len \<le> 0 then Some (PWrite 0, k, s)
      else pipe_write_acquire (take (nat len) buf) k s)"

definition pipe_close :: "bool \<Rightarrow> kthr \<Rightarrow> pipe_state \<Rightarrow> pipe_step" where
  "pipe_close is_writer k s =
     do {
       (r, k) \<leftarrow> lock_acquire (plock s) k;
       case r of
         Blocked \<Rightarrow> Some (Suspended (ClAcquire is_writer), k, s)
       | Returned _ \<Rightarrow> do {
           (k, s) \<leftarrow> (if is_writer
                      then map_option (\<lambda>k. (k, s\<lparr>write_open := False\<rparr>)) (condition_broadcast (Cond (not_empty s)) k)
                      else map_option (\<lambda>k. (k, s\<lparr>read_open := False\<rparr>)) (condition_broadcast (Cond (not_full s)) k));
           k \<leftarrow> lock_release (plock s) k;
           Some (PClosed (\<not> write_open s \<and> \<not> read_open s), k, s)
         }
     }"

text \<open>
  \<open>ok\<close>: the three allocations have succeeded. The endpoints are told apart by \<open>is_writer\<close>; both
  refer to the one state.
\<close>

definition create_pipe :: "bool \<Rightarrow> nat \<Rightarrow> nat \<Rightarrow> nat \<Rightarrow> kthr \<Rightarrow> (pipe_state \<times> kthr) option" where
  "create_pipe ok l ne nf k =
     (if \<not> ok then None
      else Some (\<lparr>plock = l, not_empty = ne, not_full = nf, write_open = True, read_open = True,
                   pb = \<lparr>phead = 0, ptail = 0, pbuf = replicate PIPE_BUF_SIZE 0\<rparr>\<rparr>,
                 condition_init (Cond nf) (condition_init (Cond ne) (lock_init l k))))"

text \<open>A thread that runs again goes on after the wait: it tests its condition again.\<close>

fun pipe_resume :: "pipe_pc \<Rightarrow> kthr \<Rightarrow> pipe_state \<Rightarrow> pipe_step" where
  "pipe_resume (RdAcquire bufsz) k s = pipe_read_acquire bufsz k s"
| "pipe_resume (RdWait bufsz) k s = pipe_read_loop bufsz k s"
| "pipe_resume (WrAcquire data) k s = pipe_write_acquire data k s"
| "pipe_resume (WrWait data written) k s = pipe_write_loop data written k s"
| "pipe_resume (ClAcquire is_writer) k s = pipe_close is_writer k s"

subsection \<open>The pipe as a queue of bytes\<close>

lemma pipe_count_items: "pipe_count b = length (pipe_items b)"
  by (simp add: pipe_count_def pipe_items_def)

lemma pipe_write_free:
  assumes R: "reachable k" "TP k \<noteq> IDLE_TID" "l_owner k (plock s) = None"
    and I: "pipe_inv (pb s)" "read_open s"
    and D: "data \<noteq> []" "length (pipe_items (pb s)) + length data \<le> PIPE_BUF_SIZE"
  obtains k' b where "pipe_write True data (int (length data)) k s = Some (PWrite (int (length data)), k', s\<lparr>pb := b\<rparr>)"
    "pipe_inv b" "pipe_items b = pipe_items (pb s) @ data" "reachable k'" "TP k' = TP k" "l_owner k' = l_owner k"
proof -
  obtain k1 where k1: "lock_acquire (plock s) k = Some (Returned (), k1)" "reachable k1" "TP k1 = TP k"
      "l_owner k1 = (l_owner k)(plock s \<mapsto> TP k)" "l_count k1 (plock s) = 1"
    by (rule acquire_free [OF R])
  obtain k2 where k2: "condition_broadcast (Cond (not_empty s)) k1 = Some k2" "reachable k2" "TP k2 = TP k1"
      "l_owner k2 = l_owner k1" "l_count k2 = l_count k1"
    by (rule broadcast_frame [OF k1(2)])
  obtain k3 where k3: "lock_release (plock s) k2 = Some k3" "reachable k3" "TP k3 = TP k2"
      "l_owner k3 = (l_owner k2)(plock s := None)"
    by (rule release_held [of k2 "plock s"]) (use k1 k2 R in auto)
  obtain rest b where f: "fill pipe_full pipe_put data (pb s) = (rest, b)" by fastforce
  have F: "rest = []" "pipe_items b = pipe_items (pb s) @ data" "pipe_inv b"
    using pipe.fill_ok [OF I(1), of data] f D(2) by simp_all
  have "pipe_count (pb s) \<noteq> PIPE_BUF_SIZE"
    using D by (cases data) (simp_all add: pipe_count_items)
  moreover have "pipe_write_loop data (length data) k2 (s\<lparr>pb := b\<rparr>) =
      Some (PWrite (int (length data)), k3, s\<lparr>pb := b\<rparr>)"
    by (subst pipe_write_loop.simps) (simp add: k3)
  ultimately have "pipe_write_loop data 0 k1 s = Some (PWrite (int (length data)), k3, s\<lparr>pb := b\<rparr>)"
    by (subst pipe_write_loop.simps) (use I D(1) f F k2(1) in simp)
  then have "pipe_write True data (int (length data)) k s = Some (PWrite (int (length data)), k3, s\<lparr>pb := b\<rparr>)"
    using k1(1) D(1) by (simp add: pipe_write_def pipe_write_acquire_def)
  moreover have "l_owner k3 = l_owner k" using k3(4) k2(4) k1(4) R(3) by (simp add: fun_upd_idem)
  ultimately show thesis using that F k3 k2 k1 by simp
qed

lemma pipe_read_free:
  assumes R: "reachable k" "TP k \<noteq> IDLE_TID" "l_owner k (plock s) = None"
    and I: "pipe_inv (pb s)" "pipe_items (pb s) \<noteq> [] \<or> \<not> write_open s" and n: "0 < n"
  obtains k' b where "pipe_read False n k s =
      Some (PRead (int (length (take (nat n) (pipe_items (pb s))))) (take (nat n) (pipe_items (pb s))), k', s\<lparr>pb := b\<rparr>)"
    "pipe_inv b" "pipe_items b = drop (nat n) (pipe_items (pb s))" "reachable k'" "TP k' = TP k" "l_owner k' = l_owner k"
proof -
  obtain k1 where k1: "lock_acquire (plock s) k = Some (Returned (), k1)" "reachable k1" "TP k1 = TP k"
      "l_owner k1 = (l_owner k)(plock s \<mapsto> TP k)" "l_count k1 (plock s) = 1"
    by (rule acquire_free [OF R])
  obtain out b where d: "drain pipe_empty pipe_get (nat n) (pb s) = (out, b)" by fastforce
  have F: "out = take (nat n) (pipe_items (pb s))" "pipe_items b = drop (nat n) (pipe_items (pb s))" "pipe_inv b"
    using pipe.drain_ok [OF I(1), of "nat n"] d by simp_all
  obtain k2 where k2: "(if length out > 0 then condition_broadcast (Cond (not_full s)) k1 else Some k1) = Some k2"
      "reachable k2" "TP k2 = TP k1" "l_owner k2 = l_owner k1" "l_count k2 = l_count k1"
    by (rule broadcast_frame [OF k1(2), of "not_full s"]) (use k1(2) in \<open>cases "length out > 0"; auto\<close>)
  obtain k3 where k3: "lock_release (plock s) k2 = Some k3" "reachable k3" "TP k3 = TP k2"
      "l_owner k3 = (l_owner k2)(plock s := None)"
    by (rule release_held [of k2 "plock s"]) (use k1 k2 R in auto)
  have "\<not> (pipe_count (pb s) = 0 \<and> write_open s)" using I(2) by (auto simp: pipe_count_items)
  then have "pipe_read False n k s = Some (PRead (int (length out)) out, k3, s\<lparr>pb := b\<rparr>)"
    using n k1(1) d k2(1) k3(1)
    by (cases "out = []") (simp_all add: pipe_read_def pipe_read_acquire_def pipe_read_loop_def Let_def)
  moreover have "l_owner k3 = l_owner k" using k3(4) k2(4) k1(4) R(3) by (simp add: fun_upd_idem)
  ultimately show thesis using that F k3 k2 k1 by simp
qed



subsection \<open>Threads that share a pipe\<close>

record psys =
  kt :: kthr
  pp :: pipe_state
  cont :: "nat \<Rightarrow> pipe_pc option"

datatype pipe_call = CallRead bool int | CallWrite bool "byte list" int | CallClose bool

fun pipe_start :: "pipe_call \<Rightarrow> kthr \<Rightarrow> pipe_state \<Rightarrow> pipe_step" where
  "pipe_start (CallRead is_writer bufsz) k s = pipe_read is_writer bufsz k s"
| "pipe_start (CallWrite is_writer buf len) k s = pipe_write is_writer buf len k s"
| "pipe_start (CallClose is_writer) k s = pipe_close is_writer k s"

fun suspended :: "pipe_res \<Rightarrow> pipe_pc option" where
  "suspended (Suspended pc) = Some pc"
| "suspended _ = None"

text \<open>Calls of other components use their own locks and condition variables.\<close>

fun foreign :: "pipe_state \<Rightarrow> tcall \<Rightarrow> bool" where
  "foreign p (Broadcast c) \<longleftrightarrow> c \<noteq> not_empty p \<and> c \<noteq> not_full p"
| "foreign p (Wait c) \<longleftrightarrow> c \<noteq> not_empty p \<and> c \<noteq> not_full p"
| "foreign p (Acquire l) \<longleftrightarrow> l \<noteq> plock p"
| "foreign p (Release l) \<longleftrightarrow> l \<noteq> plock p"
| "foreign p _ \<longleftrightarrow> True"

definition moved :: "psys \<Rightarrow> pipe_res \<Rightarrow> kthr \<Rightarrow> pipe_state \<Rightarrow> psys" where
  "moved s r k p = s\<lparr>kt := k, pp := p, cont := (cont s)(TP (kt s) := suspended r)\<rparr>"

inductive psys_step :: "psys \<Rightarrow> psys \<Rightarrow> bool" where
  start: "TP (kt s) \<noteq> IDLE_TID \<Longrightarrow> cont s (TP (kt s)) = None \<Longrightarrow>
    pipe_start call (kt s) (pp s) = Some (r, k, p) \<Longrightarrow> psys_step s (moved s r k p)"
| resume: "cont s (TP (kt s)) = Some pc \<Longrightarrow> TP (kt s) \<noteq> IDLE_TID \<Longrightarrow>
    pipe_resume pc (kt s) (pp s) = Some (r, k, p) \<Longrightarrow> psys_step s (moved s r k p)"
| other: "cont s (TP (kt s)) = None \<or> (\<exists>d. c = Broadcast d) \<Longrightarrow> may_call c (kt s) \<Longrightarrow> foreign (pp s) c \<Longrightarrow>
    tcall_exec c (kt s) = Some (sw, k) \<Longrightarrow> psys_step s (s\<lparr>kt := k\<rparr>)"

text \<open>Suspended after \<open>lock_acquire\<close> has returned.\<close>

fun inside :: "pipe_pc option \<Rightarrow> bool" where
  "inside (Some (RdWait _)) \<longleftrightarrow> True"
| "inside (Some (WrWait _ _)) \<longleftrightarrow> True"
| "inside _ \<longleftrightarrow> False"

definition stuck :: "psys \<Rightarrow> nat \<Rightarrow> bool" where
  "stuck s r \<longleftrightarrow> reachable (kt s) \<and> l_owner (kt s) (plock (pp s)) = Some r \<and>
     r \<in> set (waiters (kt s) (Cond (not_empty (pp s)))) \<and> (\<forall>t. t \<noteq> r \<longrightarrow> \<not> inside (cont s t))"

lemma stuck_not_running:
  assumes "stuck s r"
  shows "r \<noteq> TP (kt s)"
proof -
  obtain rl wl ll where K: "kinv (kt s) rl wl ll" using assms reachable_kinv [of "kt s"] unfolding stuck_def by blast
  have "t_state (kt s) r = THREAD_WAITING"
    using assms schedD(3) [OF kinvD(1) [OF K]] by (simp add: stuck_def queue_eq [OF K])
  then show ?thesis using threadsD(3) [OF kinvD(2) [OF K]] by auto
qed

text \<open>While the lock is held by another thread, every call on the pipe ends at \<open>lock_acquire\<close>.\<close>

lemma blocked_call:
  assumes "stuck s r" and "TP (kt s) \<noteq> IDLE_TID"
  obtains k where "lock_acquire (plock (pp s)) (kt s) = Some (Blocked, k)"
    "reachable k" "l_owner k = l_owner (kt s)"
    "r \<in> set (waiters k (Cond (not_empty (pp s))))"
proof -
  have R: "reachable (kt s)" using assms(1) by (simp add: stuck_def)
  obtain rl wl ll where K: "kinv (kt s) rl wl ll" using reachable_kinv [OF R] by blast
  have r: "l_owner (kt s) (plock (pp s)) = Some r" "r \<in> set (wl (Cond (not_empty (pp s))))"
    using assms(1) by (simp_all add: stuck_def queue_eq [OF K])
  show thesis
  proof (rule kinv_acquire [OF K assms(2), of "plock (pp s)"])
    fix st' h
    assume A: "lock_acquire (plock (pp s)) (kt s) = Some (Blocked, st')" "l_owner st' = l_owner (kt s)"
      "kinv st' (tl rl) (wl(LockCv (plock (pp s)) := wl (LockCv (plock (pp s))) @ [TP (kt s)])) ll"
    have "reachable st'"
      using reachable.call [OF R, of "Acquire (plock (pp s))" True st'] A(1) assms(2) by (simp add: blocked_def)
    with A r(2) that show thesis by (simp add: queue_eq [OF A(3)])
  qed (use r stuck_not_running [OF assms(1)] in auto)
qed

lemma pp_moved [simp]: "pp (moved s r k p) = p"
  by (simp add: moved_def)

lemma stuck_return:
  assumes "stuck s r" and "suspended x = None"
  shows "stuck (moved s x (kt s) (pp s)) r"
  using assms by (auto simp: stuck_def moved_def)

lemma stuck_acquire:
  assumes S: "stuck s r" and ni: "TP (kt s) \<noteq> IDLE_TID"
    and m: "Option.bind (lock_acquire (plock (pp s)) (kt s))
        (\<lambda>(y, k). case y of Returned u \<Rightarrow> g u k | Blocked \<Rightarrow> Some (Suspended pc, k, pp s)) = Some (r', k, p)"
    and pc: "\<not> inside (Some pc)"
  shows "stuck (moved s r' k p) r \<and> p = pp s"
proof -
  obtain k1 where "lock_acquire (plock (pp s)) (kt s) = Some (Blocked, k1)"
      "reachable k1" "l_owner k1 = l_owner (kt s)" "r \<in> set (waiters k1 (Cond (not_empty (pp s))))"
    by (rule blocked_call [OF S ni])
  then show ?thesis
    using m pc S by (auto simp: stuck_def moved_def)
qed

lemma stuck_start:
  assumes "stuck s r" and "TP (kt s) \<noteq> IDLE_TID" and "pipe_start call (kt s) (pp s) = Some (r', k, p)"
  shows "stuck (moved s r' k p) r \<and> p = pp s"
proof (cases call)
  case (CallRead w n)
  show ?thesis
    using assms(3) stuck_return [OF assms(1), of r']
      stuck_acquire [OF assms(1,2), of "\<lambda>_ k. pipe_read_loop (nat n) k (pp s)" "RdAcquire (nat n)" r' k p]
    by (auto simp: CallRead pipe_read_def pipe_read_acquire_def split: if_splits)
next
  case (CallWrite w buf n)
  show ?thesis
    using assms(3) stuck_return [OF assms(1), of r']
      stuck_acquire [OF assms(1,2), of "\<lambda>_ k. pipe_write_loop (take (nat n) buf) 0 k (pp s)"
        "WrAcquire (take (nat n) buf)" r' k p]
    by (auto simp: CallWrite pipe_write_def pipe_write_acquire_def split: if_splits)
next
  case (CallClose w)
  show ?thesis
    by (rule stuck_acquire [OF assms(1,2) assms(3) [unfolded CallClose pipe_start.simps pipe_close_def]]) simp
qed

lemma stuck_resume:
  assumes "stuck s r" and "TP (kt s) \<noteq> IDLE_TID" and "cont s (TP (kt s)) = Some pc"
    and "pipe_resume pc (kt s) (pp s) = Some (r', k, p)"
  shows "stuck (moved s r' k p) r \<and> p = pp s"
proof -
  have "\<not> inside (Some pc)"
    using assms(1,3) stuck_not_running [OF assms(1)] by (metis stuck_def)
  then consider n where "pc = RdAcquire n" | d where "pc = WrAcquire d" | w where "pc = ClAcquire w"
    by (cases pc) auto
  then show ?thesis
  proof cases
    case 1
    show ?thesis
      by (rule stuck_acquire [OF assms(1,2) assms(4) [unfolded 1 pipe_resume.simps pipe_read_acquire_def]]) simp
  next
    case 2
    show ?thesis
      by (rule stuck_acquire [OF assms(1,2) assms(4) [unfolded 2 pipe_resume.simps pipe_write_acquire_def]]) simp
  next
    case 3
    show ?thesis
      by (rule stuck_start [OF assms(1,2), of "CallClose w"]) (use assms(4) 3 in simp)
  qed
qed

lemma stuck_step:
  assumes "psys_step s s'" and "stuck s r"
  shows "stuck s' r \<and> pp s' = pp s"
  using assms
proof (induction rule: psys_step.induct)
  case (start s call r' k p)
  then show ?case using stuck_start [of s r call r' k p] by auto
next
  case (resume s pc r' k p)
  then show ?case using stuck_resume [of s r pc r' k p] by auto
next
  case (other s c sw k)
  have R: "reachable (kt s)" using other.prems by (simp add: stuck_def)
  obtain rl wl ll where K: "kinv (kt s) rl wl ll" using reachable_kinv [OF R] by blast
  obtain rl' wl' ll' where S: "kinv k rl' wl' ll'"
      "\<forall>d. c \<noteq> Broadcast d \<longrightarrow> set (wl (Cond d)) \<subseteq> set (wl' (Cond d))"
      "\<forall>l h. l_owner (kt s) l = Some h \<and> h \<noteq> TP (kt s) \<longrightarrow> l_owner k l = Some h"
    by (rule step_ok [OF K other.hyps(2)]) (use other.hyps(4) in auto)
  have "c \<noteq> Broadcast (not_empty (pp s))" using other.hyps(3) by auto
  then have "r \<in> set (waiters k (Cond (not_empty (pp s))))"
    using other.prems S(2) by (auto simp: stuck_def queue_eq [OF K] queue_eq [OF S(1)])
  moreover have "reachable k" using reachable.call [OF R other.hyps(2,4)] .
  ultimately show ?case
    using other.prems S(3) stuck_not_running [OF other.prems] by (simp add: stuck_def)
qed

lemma stuck_forever:
  assumes "psys_step\<^sup>*\<^sup>* s s'" and "stuck s r"
  shows "stuck s' r \<and> pp s' = pp s"
  using assms by (induction rule: rtranclp_induct) (auto dest: stuck_step)



text \<open>the ends of a pipe after the other end is closed. Reading an empty pipe whose write end
  is closed returns 0, the end of file; writing to a pipe whose read end is closed returns
  \<open>-EPIPE\<close>. Neither blocks, and the lock is free again. An endpoint of the wrong direction is
  refused with \<open>-EBADFD\<close>.\<close>

theorem pipe_closed_ends:
  assumes "reachable k" and "TP k \<noteq> IDLE_TID" and "l_owner k (plock s) = None" and "pipe_inv (pb s)"
    and "0 < n" and "data \<noteq> []"
  shows "(pipe_items (pb s) = [] \<and> \<not> write_open s \<longrightarrow>
      (\<exists>k' s'. pipe_read False n k s = Some (PRead 0 [], k', s') \<and> l_owner k' = l_owner k)) \<and>
    (\<not> read_open s \<longrightarrow>
      (\<exists>k'. pipe_write True data (int (length data)) k s = Some (PWrite (- EPIPE), k', s) \<and> l_owner k' = l_owner k)) \<and>
    pipe_read True n k s = Some (PRead (- EBADFD) [], k, s) \<and>
    pipe_write False data n k s = Some (PWrite (- EBADFD), k, s)"
proof -
  have "\<exists>k' s'. pipe_read False n k s = Some (PRead 0 [], k', s') \<and> l_owner k' = l_owner k"
    if "pipe_items (pb s) = [] \<and> \<not> write_open s"
    by (rule pipe_read_free [OF assms(1-4) _ assms(5)]) (use that in auto)
  moreover have "\<exists>k'. pipe_write True data (int (length data)) k s = Some (PWrite (- EPIPE), k', s) \<and>
      l_owner k' = l_owner k" if r: "\<not> read_open s"
  proof -
    obtain k1 where k1: "lock_acquire (plock s) k = Some (Returned (), k1)" "reachable k1" "TP k1 = TP k"
        "l_owner k1 = (l_owner k)(plock s \<mapsto> TP k)" "l_count k1 (plock s) = 1"
      by (rule acquire_free [OF assms(1-3)])
    obtain k2 where k2: "lock_release (plock s) k1 = Some k2" "l_owner k2 = (l_owner k1)(plock s := None)"
      by (rule release_held [of k1 "plock s"]) (use k1 assms(2) in auto)
    have "pipe_write_loop data 0 k1 s = Some (PWrite (- EPIPE), k2, s)"
      by (subst pipe_write_loop.simps) (use r assms(6) k2(1) in simp)
    moreover have "l_owner k2 = l_owner k" using k2(2) k1(4) assms(3) by (simp add: fun_upd_idem)
    ultimately show ?thesis
      using k1(1) assms(6) by (simp add: pipe_write_def pipe_write_acquire_def)
  qed
  ultimately show ?thesis by (simp add: pipe_read_def pipe_write_def)
qed

theorem pipe_closed_ends_witness:
  "\<exists>p k. create_pipe True 0 1 2 thread_boot = Some (p, thread_boot) \<and>
    pipe_write True [9] 1 thread_boot (p\<lparr>read_open := False\<rparr>) = Some (PWrite (- EPIPE), k, p\<lparr>read_open := False\<rparr>)"
proof -
  obtain p where p: "create_pipe True 0 1 2 thread_boot = Some (p, thread_boot)" "plock p = 0"
      "pb p = \<lparr>phead = 0, ptail = 0, pbuf = replicate PIPE_BUF_SIZE 0\<rparr>"
    by (simp add: create_pipe_def condition_init_def lock_init_def thread_boot_def fun_eq_iff fun_upd_def)
  have "TP thread_boot \<noteq> IDLE_TID" "l_owner thread_boot 0 = None"
    by (simp_all add: thread_boot_def MAIN_TID_def IDLE_TID_def NTHR_def)
  then show ?thesis
    using pipe_closed_ends [OF boot, of "p\<lparr>read_open := False\<rparr>" 1 "[9]"] p
    by (auto simp: pipe_inv_def pipe_count_def)
qed

end
