(* ===== verification/Fdtab.thy ===== *)
theory Fdtab
  imports Process Device Pipes
begin

text \<open>
  The system calls of kernel/syscall.c that work on file descriptors. A call acts on the table of
  the current process; its result is the code it returns, next to what it stores in the caller's
  memory. The open functions are those of the device table and of the file system: each returns a
  code and the object it has opened. The operations of the drivers do not suspend the caller here;
  those of pipes, which may, are in \<open>Pipes\<close>.
\<close>

type_synonym 'd opened = "(int \<times> nat) \<times> 'd kstate"

subsection \<open>Helpers\<close>

definition valid_fd :: "int \<Rightarrow> bool" where
  "valid_fd fd \<longleftrightarrow> 0 \<le> fd \<and> fd < int PROCESS_IOMAX"

definition fd_to_io :: "int \<Rightarrow> 'd kstate \<Rightarrow> nat option" where
  "fd_to_io fd s =
     (if \<not> valid_fd fd then None
      else case current_process s of None \<Rightarrow> None | Some p \<Rightarrow> iotab p (nat fd))"

definition set_fd :: "process \<Rightarrow> int \<Rightarrow> nat option \<Rightarrow> 'd kstate \<Rightarrow> 'd kstate" where
  "set_fd p fd v s = s\<lparr>proctab := (proctab s)(idx p := Some (p\<lparr>iotab := (iotab p)(nat fd := v)\<rparr>))\<rparr>"

definition close_ob :: "nat \<Rightarrow> 'd kstate \<Rightarrow> 'd kstate option" where
  "close_ob ob s = map_option (\<lambda>f. s\<lparr>ios := f\<rparr>) (close_io ob (ios s))"

text \<open>Closing what a descriptor names, if anything, as a new object is put in its place.\<close>

definition close_slot :: "nat option \<Rightarrow> 'd kstate \<Rightarrow> 'd kstate option" where
  "close_slot v s = (case v of None \<Rightarrow> Some s | Some ob \<Rightarrow> close_ob ob s)"

definition install_io :: "int \<Rightarrow> nat option \<Rightarrow> 'd kstate \<Rightarrow> (int \<times> 'd kstate) option" where
  "install_io fd io s =
     (if \<not> valid_fd fd \<or> io = None then Some (- EINVAL, s)
      else case current_process s of
        None \<Rightarrow> Some (- EINVAL, s)
      | Some p \<Rightarrow> do {
          s \<leftarrow> close_slot (iotab p (nat fd)) s;
          Some (0, set_fd p fd io s)
        })"

definition find_free_fd :: "process \<Rightarrow> int" where
  "find_free_fd p = (case find (\<lambda>i. iotab p i = None) fds of Some i \<Rightarrow> int i | None \<Rightarrow> - EMFILE)"

subsection \<open>Open\<close>

text \<open>The part \<open>sysdevopen\<close> and \<open>sysfsopen\<close> have in common: what follows the open.\<close>

definition install_opened :: "int \<Rightarrow> 'd opened \<Rightarrow> (int \<times> 'd kstate) option" where
  "install_opened fd r =
     (case r of ((rc, ob), s) \<Rightarrow>
        if rc \<noteq> 0 then Some (rc, s)
        else do {
          let choice = (if fd < 0
                        then case current_process s of
                               None \<Rightarrow> Inl (- EINVAL)
                             | Some p \<Rightarrow> if find_free_fd p < 0 then Inl (- EMFILE) else Inr (find_free_fd p)
                        else Inr fd);
          case choice of
            Inl e \<Rightarrow> map_option (Pair e) (close_ob ob s)
          | Inr fd \<Rightarrow> do {
              (rc, s) \<leftarrow> install_io fd (Some ob) s;
              s \<leftarrow> (if rc \<noteq> 0 then close_ob ob s else Some s);
              Some (if rc < 0 then rc else fd, s)
            }
        })"

definition sysdevopen ::
  "(int \<Rightarrow> 'd kstate \<Rightarrow> 'd opened option) devtab \<Rightarrow> int \<Rightarrow> cstr option \<Rightarrow> int \<Rightarrow> 'd kstate \<Rightarrow> (int \<times> 'd kstate) option"
where
  "sysdevopen tab fd name instno s =
     (case name of
        None \<Rightarrow> Some (- EINVAL, s)
      | Some name \<Rightarrow> do {
          r \<leftarrow> open_device name instno tab;
          case r of
            Inl e \<Rightarrow> Some (e, s)
          | Inr f \<Rightarrow> Option.bind (f instno s) (install_opened fd)
        })"

definition sysfsopen ::
  "(cstr \<Rightarrow> 'd kstate \<Rightarrow> 'd opened option) \<Rightarrow> int \<Rightarrow> cstr option \<Rightarrow> 'd kstate \<Rightarrow> (int \<times> 'd kstate) option"
where
  "sysfsopen fsopen fd name s =
     (case name of
        None \<Rightarrow> Some (- EINVAL, s)
      | Some name \<Rightarrow> Option.bind (fsopen name s) (install_opened fd))"

subsection \<open>Close, read, write and control\<close>

definition sysclose :: "int \<Rightarrow> 'd kstate \<Rightarrow> (int \<times> 'd kstate) option" where
  "sysclose fd s =
     (if \<not> valid_fd fd then Some (- EINVAL, s)
      else case current_process s of
        None \<Rightarrow> Some (- EINVAL, s)
      | Some p \<Rightarrow>
          (case iotab p (nat fd) of
             None \<Rightarrow> Some (- EINVAL, s)
           | Some ob \<Rightarrow> do { s \<leftarrow> close_ob ob s; Some (0, set_fd p fd None s) }))"

definition on_io :: "nat \<Rightarrow> ('d io \<Rightarrow> ('a \<times> 'd io) option) \<Rightarrow> 'd kstate \<Rightarrow> ('a \<times> 'd kstate) option" where
  "on_io ob f s = map_option (\<lambda>(a, io). (a, s\<lparr>ios := (ios s)(ob := io)\<rparr>)) (f (ios s ob))"

text \<open>The unsigned sizes are converted to \<open>long\<close>.\<close>

definition sysread :: "int \<Rightarrow> nat \<Rightarrow> 'd kstate \<Rightarrow> ((int \<times> byte list) \<times> 'd kstate) option" where
  "sysread fd bufsz s =
     (case fd_to_io fd s of
        None \<Rightarrow> Some ((- EINVAL, []), s)
      | Some ob \<Rightarrow> on_io ob (\<lambda>io. ioread io (slong bufsz)) s)"

definition syswrite :: "int \<Rightarrow> byte list \<Rightarrow> nat \<Rightarrow> 'd kstate \<Rightarrow> (int \<times> 'd kstate) option" where
  "syswrite fd buf len s =
     (case fd_to_io fd s of
        None \<Rightarrow> Some (- EINVAL, s)
      | Some ob \<Rightarrow> on_io ob (\<lambda>io. iowrite io buf (slong len)) s)"

definition sysioctl :: "int \<Rightarrow> int \<Rightarrow> nat option \<Rightarrow> 'd kstate \<Rightarrow> ((int \<times> nat option) \<times> 'd kstate) option" where
  "sysioctl fd cmd arg s =
     (case fd_to_io fd s of
        None \<Rightarrow> Some ((- EINVAL, arg), s)
      | Some ob \<Rightarrow> on_io ob (\<lambda>io. ioctl io cmd arg) s)"

subsection \<open>Duplicate and pipe\<close>

definition sysiodup :: "int \<Rightarrow> int \<Rightarrow> 'd kstate \<Rightarrow> (int \<times> 'd kstate) option" where
  "sysiodup oldfd newfd s =
     (case current_process s of
        None \<Rightarrow> Some (- EINVAL, s)
      | Some p \<Rightarrow>
          if \<not> valid_fd oldfd then Some (- EBADFD, s)
          else case iotab p (nat oldfd) of
            None \<Rightarrow> Some (- EBADFD, s)
          | Some ob \<Rightarrow>
              if newfd < 0 \<and> find_free_fd p < 0 then Some (find_free_fd p, s)
              else if 0 \<le> newfd \<and> \<not> valid_fd newfd then Some (- EBADFD, s)
              else let newfd = (if newfd < 0 then find_free_fd p else newfd)
                in if oldfd = newfd then Some (newfd, s)
                   else do {
                     s \<leftarrow> close_slot (iotab p (nat newfd)) s;
                     Some (newfd, set_fd p newfd (Some ob) (s\<lparr>ios := add_io ob (ios s)\<rparr>))
                   })"

text \<open>
  The two descriptors \<open>syspipe\<close> takes, or the error. The second choice leaves out the slot of the
  first one.
\<close>

definition pipe_fds :: "process \<Rightarrow> int \<Rightarrow> int \<Rightarrow> int + int \<times> int" where
  "pipe_fds p wfd rfd =
     (let w = (if wfd < 0 then find_free_fd p else wfd)
      in if wfd < 0 \<and> w < 0 then Inl w
         else if 0 \<le> wfd \<and> (\<not> valid_fd wfd \<or> iotab p (nat wfd) \<noteq> None) then Inl (- EBADFD)
         else let r = (if rfd < 0
                       then case find (\<lambda>i. int i \<noteq> w \<and> iotab p i = None) fds of Some i \<Rightarrow> int i | None \<Rightarrow> rfd
                       else rfd)
           in if rfd < 0 \<and> r < 0 then Inl (- EMFILE)
              else if 0 \<le> rfd \<and> (\<not> valid_fd rfd \<or> iotab p (nat rfd) \<noteq> None) then Inl (- EBADFD)
              else if w = r then Inl (- EBADFD) else Inr (w, r))"

text \<open>What \<open>create_pipe\<close> is given: whether its allocations succeed, its names and its two ends.\<close>

record 'd pipe_args =
  pa_ok :: bool
  pa_lock :: nat
  pa_not_empty :: nat
  pa_not_full :: nat
  pa_w :: nat
  pa_r :: nat
  pa_wio :: "'d io"
  pa_rio :: "'d io"

definition syspipe ::
  "'d pipe_args \<Rightarrow> int option \<Rightarrow> int option \<Rightarrow> 'd kstate \<Rightarrow> int \<times> (int \<times> int) option \<times> 'd kstate"
where
  "syspipe a wfdptr rfdptr s =
     (case (wfdptr, rfdptr) of
        (Some wfd, Some rfd) \<Rightarrow>
          (case current_process s of
             None \<Rightarrow> (- EINVAL, None, s)
           | Some p \<Rightarrow>
               (case pipe_fds p wfd rfd of
                  Inl e \<Rightarrow> (e, None, s)
                | Inr (w, r) \<Rightarrow>
                    (case create_pipe (pa_ok a) (pa_lock a) (pa_not_empty a) (pa_not_full a) (thr s) of
                       None \<Rightarrow> (- ENOMEM, None, s)
                     | Some (_, k) \<Rightarrow>
                         (0, Some (w, r),
                          s\<lparr>thr := k,
                            ios := (ios s)(pa_w a := (pa_wio a)\<lparr>refcnt := 1\<rparr>, pa_r a := (pa_rio a)\<lparr>refcnt := 1\<rparr>),
                            proctab := (proctab s)(idx p := Some (p\<lparr>iotab := (iotab p)(nat w := Some (pa_w a),
                                                                                  nat r := Some (pa_r a))\<rparr>))\<rparr>))))
      | _ \<Rightarrow> (- EINVAL, None, s))"

subsection \<open>Each call keeps the reference counts\<close>

lemma fd_invD:
  assumes "fd_inv s X"
  shows "refcount (ios s) x = refs (proctab s) x + X x" "procs_ok (proctab s)" "X x < 2 ^ 32"
    "refcount (ios s) x + 1 < 2 ^ 64"
proof -
  show r: "refcount (ios s) x = refs (proctab s) x + X x" "procs_ok (proctab s)" "X x < 2 ^ 32"
    using assms by (auto simp: fd_inv_def balanced_def)
  have "(256::nat) + 2 ^ 32 + 1 < 2 ^ 64" by simp
  then show "refcount (ios s) x + 1 < 2 ^ 64" using r(1,3) refs_le [of "proctab s" x] by linarith
qed

lemma fd_invI:
  assumes "\<And>x. refcount (ios s) x = refs (proctab s) x + X x" "procs_ok (proctab s)" "\<And>x. X x < 2 ^ 32"
  shows "fd_inv s X"
  using assms by (auto simp: fd_inv_def balanced_def)

lemma valid_fd_nat: "valid_fd fd \<Longrightarrow> nat fd < PROCESS_IOMAX"
  by (auto simp: valid_fd_def)

lemma find_free_fdD:
  assumes "\<not> find_free_fd p < 0"
  shows "valid_fd (find_free_fd p)" "iotab p (nat (find_free_fd p)) = None"
proof -
  obtain i where f: "find (\<lambda>i. iotab p i = None) fds = Some i"
    using assms by (auto simp: find_free_fd_def EMFILE_def split: option.splits)
  then have "i < PROCESS_IOMAX" "iotab p i = None" by (auto simp: find_Some_iff fds_def)
  then show "valid_fd (find_free_fd p)" "iotab p (nat (find_free_fd p)) = None"
    by (simp_all add: find_free_fd_def f valid_fd_def)
qed

lemma refs_set_fd:
  assumes "procs_ok (proctab s)" "current_process s = Some p" "valid_fd fd" "proctab s' = proctab s"
  shows "refs (proctab (set_fd p fd v s')) x + of_bool (iotab p (nat fd) = Some x) =
           refs (proctab s) x + of_bool (v = Some x)"
  using refs_upd [OF current_processD(1) [OF assms(1,2)], of "proctab s"
      "Some (p\<lparr>iotab := (iotab p)(nat fd := v)\<rparr>)" x] current_processD(2) [OF assms(1,2)]
    cnt_upd [OF valid_fd_nat [OF assms(3)], of "iotab p" v x] assms(4)
  by (simp add: set_fd_def)

lemma procs_ok_set_fd:
  assumes "procs_ok (proctab s)" "current_process s = Some p" "proctab s' = proctab s"
  shows "procs_ok (proctab (set_fd p fd v s'))"
  unfolding set_fd_def
  using procs_ok_upd [OF assms(1) current_processD(1) [OF assms(1,2)],
      of "Some (p\<lparr>iotab := (iotab p)(nat fd := v)\<rparr>)"] assms(3)
  by simp

lemma close_ob_rc:
  assumes "close_ob ob s = Some s'"
  shows "refcount (ios s) x = refcount (ios s') x + of_bool (x = ob)"
    "proctab s' = proctab s" "t_proc s' = t_proc s" "thr s' = thr s" "kh s' = kh s"
proof -
  obtain f where f: "close_io ob (ios s) = Some f" and s': "s' = s\<lparr>ios := f\<rparr>"
    using assms by (auto simp: close_ob_def)
  show "refcount (ios s) x = refcount (ios s') x + of_bool (x = ob)"
    using rc_close_io [OF f] by (simp add: s')
qed (use assms in \<open>auto simp: close_ob_def\<close>)

lemma close_slot_rc:
  assumes "close_slot v s = Some s'"
  shows "refcount (ios s) x = refcount (ios s') x + of_bool (v = Some x)" "proctab s' = proctab s"
proof (atomize (full), cases v)
  case None
  then show "refcount (ios s) x = refcount (ios s') x + of_bool (v = Some x) \<and> proctab s' = proctab s"
    using assms by (simp add: close_slot_def)
next
  case (Some ob)
  then have "close_ob ob s = Some s'" using assms by (simp add: close_slot_def)
  from close_ob_rc(1,2) [OF this]
  show "refcount (ios s) x = refcount (ios s') x + of_bool (v = Some x) \<and> proctab s' = proctab s"
    using Some by (simp add: eq_commute)
qed

lemma ios_set_fd [simp]: "ios (set_fd p fd v s) = ios s"
  by (simp add: set_fd_def)

lemma set_fd_inv:
  assumes p: "procs_ok (proctab s)" "current_process s = Some p" "valid_fd fd" "proctab s' = proctab s"
    and X: "\<And>x. X x < 2 ^ 32"
    and r: "\<And>x. refcount (ios s') x + of_bool (iotab p (nat fd) = Some x) =
                refs (proctab s) x + X x + of_bool (v = Some x)"
  shows "fd_inv (set_fd p fd v s') X"
proof (rule fd_invI)
  show "refcount (ios (set_fd p fd v s')) x = refs (proctab (set_fd p fd v s')) x + X x" for x
    using r [of x] refs_set_fd [OF p, of v x] by simp
qed (use X procs_ok_set_fd [OF p(1,2,4)] in auto)

lemma sysclose_inv:
  assumes inv: "fd_inv s X" and r: "sysclose fd s = Some (c, s')"
  shows "fd_inv s' X"
proof (cases "s' = s")
  case False
  then obtain p ob s1 where p: "valid_fd fd" "current_process s = Some p" "iotab p (nat fd) = Some ob"
    and c: "close_ob ob s = Some s1" and s': "s' = set_fd p fd None s1"
    using r by (auto simp: sysclose_def split: if_splits option.splits bind_splits)
  note d = fd_invD [OF inv] and q = close_ob_rc [OF c]
  show ?thesis unfolding s'
  proof (rule set_fd_inv [OF d(2) p(2,1) q(2) d(3)])
    show "refcount (ios s1) x + of_bool (iotab p (nat fd) = Some x) =
        refs (proctab s) x + X x + of_bool (None = Some x)" for x
      using q(1) [of x] d(1) [of x] p(3) by (cases "x = ob") simp_all
  qed
qed (use inv in simp)

lemma sysiodup_inv:
  assumes inv: "fd_inv s X" and r: "sysiodup oldfd newfd s = Some (c, s')"
  shows "fd_inv s' X"
proof (cases "s' = s")
  case False
  obtain p ob s1 n where p: "current_process s = Some p" and n: "n = (if newfd < 0 then find_free_fd p else newfd)"
    and v: "newfd < 0 \<Longrightarrow> \<not> find_free_fd p < 0" "0 \<le> newfd \<Longrightarrow> valid_fd newfd"
    and c: "close_slot (iotab p (nat n)) s = Some s1"
    and s': "s' = set_fd p n (Some ob) (s1\<lparr>ios := add_io ob (ios s1)\<rparr>)"
    using r False
    by (auto simp: sysiodup_def Let_def split: if_splits option.splits bind_splits)
  have vn: "valid_fd n" using v find_free_fdD(1) [of p] n by auto
  note d = fd_invD [OF inv] and q = close_slot_rc [OF c]
  have "refcount (ios s1) ob + 1 < 2 ^ 64" using q(1) [of ob] d(4) [of ob] by linarith
  then have a: "refcount (add_io ob (ios s1)) x = refcount (ios s1) x + of_bool (x = ob)" for x
    by (rule rc_add_io)
  show ?thesis unfolding s'
  proof (rule set_fd_inv [OF d(2) p vn _ d(3)])
    show "refcount (ios (s1\<lparr>ios := add_io ob (ios s1)\<rparr>)) x + of_bool (iotab p (nat n) = Some x) =
        refs (proctab s) x + X x + of_bool (Some ob = Some x)" for x
      using q(1) [of x] a [of x] d(1) [of x] by (cases "x = ob") simp_all
  qed (use q in simp)
qed (use inv in simp)

text \<open>Opening: the object has one reference more than descriptors name it until it is installed.\<close>

definition opens :: "('d kstate \<Rightarrow> 'd opened option) \<Rightarrow> bool" where
  "opens f \<longleftrightarrow>
     (\<forall>s c ob s1. f s = Some ((c, ob), s1) \<longrightarrow>
        proctab s1 = proctab s \<and> current_process s1 = current_process s \<and>
        (\<forall>x. refcount (ios s1) x = refcount (ios s) x + of_bool (c = 0 \<and> x = ob)))"

definition pending :: "'d kstate \<Rightarrow> nat \<Rightarrow> (nat \<Rightarrow> nat) \<Rightarrow> bool" where
  "pending s ob X \<longleftrightarrow>
     (\<forall>x. refcount (ios s) x = refs (proctab s) x + X x + of_bool (x = ob)) \<and>
     procs_ok (proctab s) \<and> (\<forall>x. X x < 2 ^ 32)"

lemma pending_close:
  assumes "pending s ob X" "close_ob ob s = Some s'"
  shows "fd_inv s' X"
proof (rule fd_invI)
  show "refcount (ios s') x = refs (proctab s') x + X x" for x
    using assms(1) close_ob_rc(1,2) [OF assms(2)] by (simp add: pending_def)
qed (use assms close_ob_rc(2) [OF assms(2)] in \<open>auto simp: pending_def\<close>)

lemma install_io_pending:
  assumes pn: "pending s ob X" and r: "install_io fd (Some ob) s = Some (c, s')"
  shows "if c = 0 then fd_inv s' X else s' = s"
proof (cases "c = 0")
  case True
  then obtain p s1 where p: "current_process s = Some p" "valid_fd fd"
    and c: "close_slot (iotab p (nat fd)) s = Some s1" and s': "s' = set_fd p fd (Some ob) s1"
    using r by (auto simp: install_io_def EINVAL_def split: if_splits option.splits bind_splits)
  note q = close_slot_rc [OF c]
  have d: "procs_ok (proctab s)" "\<And>x. X x < 2 ^ 32" using pn by (auto simp: pending_def)
  have "fd_inv s' X" unfolding s'
  proof (rule set_fd_inv [OF d(1) p q(2) d(2)])
    show "refcount (ios s1) x + of_bool (iotab p (nat fd) = Some x) =
        refs (proctab s) x + X x + of_bool (Some ob = Some x)" for x
      using pn q(1) [of x] by (cases "x = ob") (simp_all add: pending_def)
  qed
  then show ?thesis using True by simp
qed (use r in \<open>auto simp: install_io_def split: if_splits option.splits bind_splits\<close>)

lemma install_opened_inv:
  assumes pn: "c = 0 \<Longrightarrow> pending s ob X" and i: "c \<noteq> 0 \<Longrightarrow> fd_inv s X"
    and r: "install_opened fd ((c, ob), s) = Some (e, s')"
  shows "fd_inv s' X"
proof (cases "c = 0")
  case True
  consider "close_ob ob s = Some s'" |
      n d s1 where "install_io n (Some ob) s = Some (d, s1)" "(if d \<noteq> 0 then close_ob ob s1 else Some s1) = Some s'"
    using r True by (auto simp: install_opened_def Let_def split: if_splits option.splits bind_splits)
  then show ?thesis
  proof cases
    case 1
    then show ?thesis using pending_close pn [OF True] by blast
  next
    case 2
    then show ?thesis using install_io_pending [OF pn [OF True] 2(1)] pending_close [OF pn [OF True]]
      by (auto split: if_splits)
  qed
qed (use r i in \<open>auto simp: install_opened_def\<close>)

lemma opened_inv:
  assumes inv: "fd_inv s X" and f: "opens f" and o: "f s = Some r" and i: "install_opened fd r = Some (e, s')"
  shows "fd_inv s' X"
proof -
  obtain c ob s1 where r: "r = ((c, ob), s1)" by (metis surj_pair)
  have k: "proctab s1 = proctab s" "\<And>x. refcount (ios s1) x = refcount (ios s) x + of_bool (c = 0 \<and> x = ob)"
    using f o r unfolding opens_def by blast+
  note d = fd_invD [OF inv]
  show ?thesis
  proof (rule install_opened_inv [of c s1 ob X fd e s'])
    show "pending s1 ob X" if "c = 0"
      unfolding pending_def using k d that by simp
    show "fd_inv s1 X" if "c \<noteq> 0"
      by (rule fd_invI) (use k d that in simp_all)
  qed (use i r in simp)
qed

lemma sysfsopen_inv:
  assumes "fd_inv s X" "\<And>n. opens (fsopen n)" "sysfsopen fsopen fd name s = Some (e, s')"
  shows "fd_inv s' X"
proof (cases name)
  case (Some n)
  then obtain r where "fsopen n s = Some r" "install_opened fd r = Some (e, s')"
    using assms(3) by (auto simp: sysfsopen_def bind_eq_Some_conv)
  then show ?thesis using opened_inv assms(1,2) by blast
qed (use assms in \<open>simp add: sysfsopen_def\<close>)

lemma sysdevopen_inv:
  assumes "fd_inv s X" and t: "\<And>f i. open_device (the name) i tab = Some (Inr f) \<Longrightarrow> opens (f i)"
    and r: "sysdevopen tab fd name i s = Some (e, s')"
  shows "fd_inv s' X"
proof (cases name)
  case (Some n)
  obtain q where q: "open_device n i tab = Some q"
    using r Some by (auto simp: sysdevopen_def bind_eq_Some_conv)
  show ?thesis
  proof (cases q)
    case (Inl c)
    then show ?thesis using r Some q assms(1) by (simp add: sysdevopen_def)
  next
    case (Inr f)
    then obtain z where "f i s = Some z" "install_opened fd z = Some (e, s')"
      using r Some q by (auto simp: sysdevopen_def bind_eq_Some_conv)
    then show ?thesis using opened_inv assms(1) t [of i f] Some q Inr by simp
  qed
qed (use assms in \<open>simp add: sysdevopen_def\<close>)

lemma on_io_inv:
  assumes "fd_inv s X" "on_io ob f s = Some (a, s')"
    and "\<And>io io' a. f io = Some (a, io') \<Longrightarrow> refcnt io' = refcnt io"
  shows "fd_inv s' X"
proof -
  obtain io where io: "f (ios s ob) = Some (a, io)" and s': "s' = s\<lparr>ios := (ios s)(ob := io)\<rparr>"
    using assms(2) by (auto simp: on_io_def)
  have "refcount (ios s') = refcount (ios s)"
    using assms(3) [OF io] by (auto simp: s' refcount_def)
  then show ?thesis using assms(1) by (simp add: fd_inv_def balanced_def s')
qed

lemma io_refcnt:
  "ioread io n = Some (a, io') \<Longrightarrow> refcnt io' = refcnt io"
  "iowrite io buf n = Some (b, io') \<Longrightarrow> refcnt io' = refcnt io"
  "ioctl io cmd arg = Some (c, io') \<Longrightarrow> refcnt io' = refcnt io"
  by (auto simp: ioread_def iowrite_def ioctl_def split: option.splits if_splits)

lemma sysread_inv: "fd_inv s X \<Longrightarrow> sysread fd n s = Some (a, s') \<Longrightarrow> fd_inv s' X"
  by (auto simp: sysread_def io_refcnt split: option.splits intro: on_io_inv)

lemma syswrite_inv: "fd_inv s X \<Longrightarrow> syswrite fd buf n s = Some (a, s') \<Longrightarrow> fd_inv s' X"
  by (auto simp: syswrite_def io_refcnt split: option.splits intro: on_io_inv)

lemma sysioctl_inv: "fd_inv s X \<Longrightarrow> sysioctl fd cmd arg s = Some (a, s') \<Longrightarrow> fd_inv s' X"
  by (auto simp: sysioctl_def io_refcnt split: option.splits intro: on_io_inv)

lemma pipe_fdsD:
  assumes "pipe_fds p wfd rfd = Inr (w, r)"
  shows "valid_fd w" "iotab p (nat w) = None" "valid_fd r" "iotab p (nat r) = None" "w \<noteq> r"
proof -
  show w: "valid_fd w" "iotab p (nat w) = None" and ne: "w \<noteq> r"
    using assms find_free_fdD [of p] by (auto simp: pipe_fds_def Let_def split: if_splits option.splits)
  show "valid_fd r" "iotab p (nat r) = None"
    using assms by (auto simp: pipe_fds_def Let_def valid_fd_def fds_def find_Some_iff
      split: if_splits option.splits)
qed

text \<open>The ends of a new pipe are objects nothing refers to yet.\<close>

definition fresh_ends :: "'d pipe_args \<Rightarrow> 'd kstate \<Rightarrow> bool" where
  "fresh_ends a s \<longleftrightarrow>
     pa_w a \<noteq> pa_r a \<and> refcount (ios s) (pa_w a) = 0 \<and> refcount (ios s) (pa_r a) = 0"

lemma syspipe_inv:
  assumes inv: "fd_inv s X" and fr: "fresh_ends a s" and r: "syspipe a wp rp s = (e, o', s')"
  shows "fd_inv s' X"
proof (cases "s' = s")
  case False
  then obtain p w q k wfd rfd where p: "current_process s = Some p" and pf: "pipe_fds p wfd rfd = Inr (w, q)"
    and s': "s' = s\<lparr>thr := k,
        ios := (ios s)(pa_w a := (pa_wio a)\<lparr>refcnt := 1\<rparr>, pa_r a := (pa_rio a)\<lparr>refcnt := 1\<rparr>),
        proctab := (proctab s)(idx p := Some (p\<lparr>iotab := (iotab p)(nat w := Some (pa_w a), nat q := Some (pa_r a))\<rparr>))\<rparr>"
    using r by (auto simp: syspipe_def split: option.splits sum.splits prod.splits)
  note f = pipe_fdsD [OF pf]
  note d = fd_invD [OF inv] and n = fr [unfolded fresh_ends_def]
  note i = current_processD [OF d(2) p]
  have nq: "nat w \<noteq> nat q" using f by (auto simp: valid_fd_def)
  let ?t = "(iotab p)(nat w := Some (pa_w a))"
  show ?thesis
  proof (rule fd_invI)
    fix x
    have "refs (proctab s') x = refs (proctab s) x + of_bool (pa_w a = x) + of_bool (pa_r a = x)"
      using refs_upd [OF i(1), of "proctab s" "Some (p\<lparr>iotab := ?t(nat q := Some (pa_r a))\<rparr>)" x] i(2)
        cnt_upd [OF valid_fd_nat [OF f(1)], of "iotab p" "Some (pa_w a)" x]
        cnt_upd [OF valid_fd_nat [OF f(3)], of ?t "Some (pa_r a)" x] f(2,4) nq
      by (simp add: s')
    moreover have "refcount (ios s') x = refcount (ios s) x + of_bool (pa_w a = x) + of_bool (pa_r a = x)"
      using n by (auto simp: s' refcount_def)
    ultimately show "refcount (ios s') x = refs (proctab s') x + X x" using d(1) [of x] by linarith
  next
    show "procs_ok (proctab s')" 
      using procs_ok_upd [OF d(2) i(1), of "Some (p\<lparr>iotab := ?t(nat q := Some (pa_r a))\<rparr>)"] by (simp add: s')
  qed (use d in simp)
qed (use inv in simp)

subsection \<open>Every run of the kernel\<close>

text \<open>
  A step is a system call of the running process, what the child of a fork runs first, or work of
  the scheduler or the page fault handler, which leave objects and descriptors alone. The open
  functions are those for which \<open>opens\<close> holds.
\<close>

inductive fd_step :: "'d kstate \<Rightarrow> 'd kstate \<Rightarrow> bool" where
  step_close: "sysclose fd s = Some (c, s') \<Longrightarrow> fd_step s s'"
| step_dup: "sysiodup oldfd newfd s = Some (c, s') \<Longrightarrow> fd_step s s'"
| step_pipe: "fresh_ends a s \<Longrightarrow> syspipe a wp rp s = (c, fdpair, s') \<Longrightarrow> fd_step s s'"
| step_read: "sysread fd n s = Some (a, s') \<Longrightarrow> fd_step s s'"
| step_write: "syswrite fd buf n s = Some (c, s') \<Longrightarrow> fd_step s s'"
| step_ioctl: "sysioctl fd cmd arg s = Some (a, s') \<Longrightarrow> fd_step s s'"
| step_fsopen: "(\<And>n. opens (fsopen n)) \<Longrightarrow> sysfsopen fsopen fd name s = Some (c, s') \<Longrightarrow> fd_step s s'"
| step_devopen: "(\<And>f i. open_device (the name) i tab = Some (Inr f) \<Longrightarrow> opens (f i)) \<Longrightarrow>
    sysdevopen tab fd name i s = Some (c, s') \<Longrightarrow> fd_step s s'"
| step_fork: "process_fork ra cv tfr s = Some (fr, s') \<Longrightarrow> fd_step s s'"
| step_child: "fork_func cv tf s = Some (tf', s') \<Longrightarrow> fd_step s s'"
| step_exit: "process_exit ra s = Some (u, s') \<Longrightarrow> fd_step s s'"
| step_thread: "with_thr f s = Some ((), s') \<Longrightarrow> fd_step s s'"
| step_memory: "with_mem g s = Some ((), s') \<Longrightarrow> fd_step s s'"

inductive_cases fd_stepE: "fd_step s s'"

lemma fd_inv_frame:
  "fd_inv s X \<Longrightarrow> ios s' = ios s \<Longrightarrow> proctab s' = proctab s \<Longrightarrow> fd_inv s' X"
  by (simp add: fd_inv_def)

lemma fork_func_frame:
  "fork_func cv tf s = Some (tf', s') \<Longrightarrow> ios s' = ios s \<and> proctab s' = proctab s"
  by (auto simp: fork_func_def split: bind_splits option.splits if_splits
      dest!: with_thr_frame with_mem_frame)

lemma fd_step_inv: "fd_step s s' \<Longrightarrow> fd_inv s X \<Longrightarrow> fd_inv s' X"
proof (induction rule: fd_step.induct)
  case (step_fsopen fsopen fd name s c s')
  then show ?case by (intro sysfsopen_inv [of s X fsopen fd name c s'])
next
  case (step_devopen name tab fd i s c s')
  then show ?case by (intro sysdevopen_inv [of s X name tab fd i c s'])
next
  case (step_child cv tf s tf' s')
  then show ?case using fd_inv_frame [of s X s'] fork_func_frame [of cv tf s tf' s'] by simp
next
  case (step_thread f s s')
  then show ?case using fd_inv_frame [of s X s'] with_thr_frame [of f s "()" s'] by simp
next
  case (step_memory g s s')
  then show ?case using fd_inv_frame [of s X s'] with_mem_frame [of g s "()" s'] by simp
qed (blast intro: sysclose_inv sysiodup_inv syspipe_inv sysread_inv syswrite_inv sysioctl_inv
      process_fork_inv process_exit_inv)+

lemma fd_reach_inv: "fd_step\<^sup>*\<^sup>* s s' \<Longrightarrow> fd_inv s X \<Longrightarrow> fd_inv s' X"
  by (induction rule: rtranclp_induct) (auto intro: fd_step_inv)

lemma procmgr_init_inv:
  assumes "procmgr_init ready addr s = Some s'" "\<And>x. refcount (ios s) x < 2 ^ 32"
  shows "fd_inv s' (refcount (ios s))"
proof -
  obtain p where p: "proctab s' = (\<lambda>_. None)(0 := Some p)" "iotab p = (\<lambda>_. None)" "idx p = 0" "ios s' = ios s"
    using assms(1) by (auto simp: procmgr_init_def thread_set_process_def Let_def split: if_splits)
  have "refs (proctab s') x = 0" for x
    using refs_upd [of 0 "\<lambda>_. None" "Some p" x] p(1,2) by (simp add: NPROC_def refs_def cnt_def)
  moreover have "procs_ok (proctab s')" using p by (auto simp: procs_ok_def NPROC_def)
  ultimately show ?thesis using assms(2) p(4) by (intro fd_invI) auto
qed


definition demo_io :: "unit io" where
  "demo_io = ioinit0 () \<lparr>if_close = Some Some, if_cntl = None, if_read = None, if_write = None,
                          if_readat = None, if_writeat = None\<rparr>"

definition demo_k :: "unit kstate" where
  "demo_k = \<lparr>ios = (\<lambda>_. demo_io), proctab = (\<lambda>_. None), t_proc = (\<lambda>_. None), thr = thread_boot, kh = demo_heap\<rparr>"

definition demo_pipe :: "unit pipe_args" where
  "demo_pipe = \<lparr>pa_ok = True, pa_lock = 1, pa_not_empty = 2, pa_not_full = 3, pa_w = 4, pa_r = 5,
                pa_wio = demo_io, pa_rio = demo_io\<rparr>"

lemmas demo_simps = demo_k_def demo_io_def demo_pipe_def ioinit0_def thread_boot_def MAIN_TID_def
  procmgr_init_def thread_set_process_def current_process_def running_thread_process_def NTHR_def

definition demo_k1 :: "unit kstate" where
  "demo_k1 = snd (snd (syspipe demo_pipe (Some (- 1)) (Some (- 1)) (the (procmgr_init True 0 demo_k))))"

lemma demo_init: "procmgr_init True 0 demo_k = Some (the (procmgr_init True 0 demo_k))"
  by (simp add: demo_simps)

lemma demo_fresh: "fresh_ends demo_pipe (the (procmgr_init True 0 demo_k))"
  by (simp add: demo_simps fresh_ends_def refcount_def)

lemma demo_step: "fd_step (the (procmgr_init True 0 demo_k)) demo_k1"
proof -
  let ?r = "syspipe demo_pipe (Some (- 1)) (Some (- 1)) (the (procmgr_init True 0 demo_k))"
  have "?r = (fst ?r, fst (snd ?r), demo_k1)" unfolding demo_k1_def by (simp only: prod.collapse)
  then show ?thesis by (rule step_pipe [OF demo_fresh])
qed

lemma demo_slot: "\<exists>p. proctab demo_k1 0 = Some p \<and> iotab p 0 = Some 4"
  by (simp add: demo_k1_def syspipe_def demo_simps pipe_fds_def find_free_fd_def fds_def
      PROCESS_IOMAX_def upt_conv_Cons create_pipe_def Let_def)


text \<open>C15: closing a descriptor closes the driver exactly with the last reference. In a state with
  exact counts, \<open>sysclose\<close> of a descriptor that names an object returns 0 and frees the descriptor,
  and it runs the close function of the driver when this was the only reference, else it leaves
  the driver alone.\<close>

theorem sysclose_last_reference:
  assumes inv: "fd_inv s X" and fd: "fd_to_io fd s = Some ob"
    and cl: "if_close (intf (ios s ob)) = Some cl" "cl (dev (ios s ob)) = Some d"
  shows "\<exists>s'. sysclose fd s = Some (0, s') \<and> fd_to_io fd s' = None \<and>
           dev (ios s' ob) = (if refs (proctab s) ob + X ob = 1 then d else dev (ios s ob)) \<and>
           (\<forall>x. x \<noteq> ob \<longrightarrow> ios s' x = ios s x)"
proof -
  obtain p where p: "valid_fd fd" "current_process s = Some p" "iotab p (nat fd) = Some ob"
    using fd by (auto simp: fd_to_io_def split: if_splits option.splits)
  note dd = fd_invD [OF inv] and i = current_processD [OF fd_invD(2) [OF inv] p(2)]
  have "0 < held (proctab s (idx p)) ob"
    using cnt_upd [OF valid_fd_nat [OF p(1)], of "iotab p" None ob] p(3) i(2) by simp
  then have pos: "0 < refcount (ios s) ob" using held_le_refs [OF i(1), of "proctab s" ob] dd(1) [of ob] by simp
  have "(refcnt (ios s ob) = 1) = (refcount (ios s) ob = 1)"
    by (metis refcount_def unat_1 word_unat_eq_iff)
  then have one: "(refcnt (ios s ob) - 1 = 0) = (refs (proctab s) ob + X ob = 1)"
    using dd(1) [of ob] by simp
  have nz: "refcnt (ios s ob) \<noteq> 0" using pos by (auto simp: refcount_def)
  define io where "io = (ios s ob)\<lparr>refcnt := refcnt (ios s ob) - 1,
      dev := if refs (proctab s) ob + X ob = 1 then d else dev (ios s ob)\<rparr>"
  have "ioclose (ios s ob) = Some io" using nz cl one by (simp add: ioclose_def Let_def io_def)
  then have c: "close_ob ob s = Some (s\<lparr>ios := (ios s)(ob := io)\<rparr>)" by (simp add: close_ob_def close_io_def)
  have idx: "running_thread_process s = Some (idx p)"
    using p(2) fd_invD(2) [OF inv] by (auto simp: current_process_def procs_ok_def split: bind_splits)
  show ?thesis
    using p c idx by (intro exI [of _ "set_fd p fd None (s\<lparr>ios := (ios s)(ob := io)\<rparr>)"])
      (simp add: sysclose_def fd_to_io_def set_fd_def current_process_def running_thread_process_def io_def)
qed

theorem sysclose_last_reference_witness:
  "\<exists>s'. sysclose 0 demo_k1 = Some (0, s') \<and> fd_to_io 0 s' = None"
proof -
  have z: "refcount (ios demo_k) = (\<lambda>_. 0)" by (simp add: demo_simps refcount_def fun_eq_iff)
  have "fd_inv (the (procmgr_init True 0 demo_k)) (\<lambda>_. 0)"
    using procmgr_init_inv [OF demo_init] by (simp add: z)
  then have inv: "fd_inv demo_k1 (\<lambda>_. 0)" by (rule fd_step_inv [OF demo_step])
  have c: "fd_to_io 0 demo_k1 = Some 4" "if_close (intf (ios demo_k1 4)) = Some Some"
    by (simp_all add: fd_to_io_def valid_fd_def demo_k1_def syspipe_def demo_simps pipe_fds_def
        find_free_fd_def fds_def PROCESS_IOMAX_def upt_conv_Cons create_pipe_def Let_def
        condition_init_def lock_init_def)
  show ?thesis using sysclose_last_reference [OF inv c refl] by blast
qed

end
