(* ===== verification/Build_Stack.thy ===== *)
theory Build_Stack
  imports Process
begin

text \<open>
  The initial stack of a program, \<open>build_stack\<close> of kernel/process.c: the argument vector and the
  strings it points to, at the top of the stack page. The page is its list of bytes; \<open>argv i\<close> is
  the \<open>i\<close>-th argument without its terminator, in memory that does not overlap the page.
\<close>

subsection \<open>The code\<close>

fun stack_size :: "(nat \<Rightarrow> byte list) \<Rightarrow> nat list \<Rightarrow> nat \<Rightarrow> nat option" where
  "stack_size argv [] stksz = Some stksz"
| "stack_size argv (i # is) stksz =
     (let argsz = length (argv i) + 1
      in if PAGE_SIZE - stksz < argsz then None else stack_size argv is (stksz + argsz))"

fun copy_args :: "(nat \<Rightarrow> byte list) \<Rightarrow> nat \<Rightarrow> nat list \<Rightarrow> nat \<Rightarrow> byte list \<Rightarrow> byte list" where
  "copy_args argv newargv [] p page = page"
| "copy_args argv newargv (i # is) p page =
     (let page = patch (newargv + 8 * i) (nat_le 8 (UMEM_END_VMA - PAGE_SIZE + p)) page;
          argsz = length (argv i) + 1
      in copy_args argv newargv is (p + argsz) (patch p (argv i @ [0]) page))"

text \<open>The comparison with the unsigned bound refuses a negative \<open>argc\<close> as well.\<close>

definition build_stack :: "int \<Rightarrow> (nat \<Rightarrow> byte list) \<Rightarrow> byte list \<Rightarrow> (int \<times> byte list) option" where
  "build_stack argc argv page =
     (if PAGE_SIZE div 8 - 1 < ull argc then Some (- ENOMEM, page)
      else let n = nat argc
        in case stack_size argv [0..<n] ((n + 1) * 8) of
             None \<Rightarrow> Some (- ENOMEM, page)
           | Some stksz \<Rightarrow>
               (let stksz = ROUND_UP stksz 16
                in if \<not> stksz \<le> PAGE_SIZE then None
                   else let newargv = PAGE_SIZE - stksz;
                            page = copy_args argv newargv [0..<n] (newargv + 8 * (n + 1)) page
                        in Some (int stksz, patch (newargv + 8 * n) (nat_le 8 0) page)))"

subsection \<open>Sizes\<close>

definition args_size :: "(nat \<Rightarrow> byte list) \<Rightarrow> nat \<Rightarrow> nat" where
  "args_size argv n = (\<Sum>i<n. length (argv i) + 1)"

lemma stack_size_eq:
  assumes "i \<le> n" and "k \<le> PAGE_SIZE"
  shows "stack_size argv [i..<n] k =
     (if k + (\<Sum>j\<in>{i..<n}. length (argv j) + 1) \<le> PAGE_SIZE
      then Some (k + (\<Sum>j\<in>{i..<n}. length (argv j) + 1)) else None)"
  using assms
proof (induction "n - i" arbitrary: i k)
  case (Suc d)
  have i: "i < n" "[i..<n] = i # [Suc i..<n]" "{i..<n} = insert i {Suc i..<n}"
    using Suc.hyps(2) by (auto simp: upt_conv_Cons)
  have s: "(\<Sum>j\<in>{i..<n}. length (argv j) + 1) =
      length (argv i) + 1 + (\<Sum>j\<in>{Suc i..<n}. length (argv j) + 1)"
    by (simp add: i(3))
  show ?case
  proof (cases "PAGE_SIZE - k < length (argv i) + 1")
    case True
    then show ?thesis using Suc.prems(2) s by (simp add: i(2) Let_def)
  next
    case False
    then have "k + (length (argv i) + 1) \<le> PAGE_SIZE" using Suc.prems(2) by linarith
    then show ?thesis
      using Suc.hyps(1) [of "Suc i" "k + (length (argv i) + 1)"] Suc.hyps(2) i(1) False s
      by (simp add: i(2) Let_def add.assoc)
  qed
qed simp

subsection \<open>Contents\<close>

text \<open>\<open>pos\<close> is where the string of argument \<open>i\<close> starts.\<close>

definition pos :: "(nat \<Rightarrow> byte list) \<Rightarrow> nat \<Rightarrow> nat \<Rightarrow> nat" where
  "pos argv p i = p + args_size argv i"

lemma pos_0 [simp]: "pos argv p 0 = p"
  by (simp add: pos_def args_size_def)

lemma pos_Suc: "pos argv p (Suc i) = pos argv p i + (length (argv i) + 1)"
  by (simp add: pos_def args_size_def)

lemma pos_mono: "i \<le> j \<Longrightarrow> pos argv p i \<le> pos argv p j"
  by (induction j) (auto simp: pos_Suc le_Suc_eq)

text \<open>The first \<open>i\<close> arguments have been written, and nothing below the vector.\<close>

definition args_at :: "(nat \<Rightarrow> byte list) \<Rightarrow> nat \<Rightarrow> nat \<Rightarrow> nat \<Rightarrow> byte list \<Rightarrow> bool" where
  "args_at argv a p i page \<longleftrightarrow>
     (\<forall>j<i. seg (a + 8 * j) 8 page = nat_le 8 (UMEM_END_VMA - PAGE_SIZE + pos argv p j) \<and>
            seg (pos argv p j) (length (argv j) + 1) page = argv j @ [0])"

lemma copy_args_ok:
  assumes "i \<le> n" "length page = L" "a + 8 * n \<le> p" "pos argv p n \<le> L" "args_at argv a p i page"
  shows "length (copy_args argv a [i..<n] (pos argv p i) page) = L \<and>
         args_at argv a p n (copy_args argv a [i..<n] (pos argv p i) page) \<and>
         take a (copy_args argv a [i..<n] (pos argv p i) page) = take a page"
  using assms
proof (induction "n - i" arbitrary: i page)
  case (Suc d)
  let ?q = "pos argv p i"
  let ?w = "nat_le 8 (UMEM_END_VMA - PAGE_SIZE + ?q)"
  let ?p1 = "patch (a + 8 * i) ?w page"
  let ?p2 = "patch ?q (argv i @ [0]) ?p1"
  have i: "i < n" "[i..<n] = i # [Suc i..<n]"
    using Suc.hyps(2) by (auto simp: upt_conv_Cons)
  have q: "p \<le> ?q" "?q + (length (argv i) + 1) \<le> L" "a + 8 * i + 8 \<le> p"
    using pos_mono [of 0 i argv p] pos_mono [of "Suc i" n argv p] i Suc.prems by (auto simp: pos_Suc)
  have l: "length ?p1 = L" "length ?p2 = L" using q Suc.prems(2) by auto
  have lo: "take a ?p2 = take a page"
    using q l Suc.prems(2) by (intro nth_equalityI) (auto simp: nth_patch)
  have "args_at argv a p (Suc i) ?p2"
    unfolding args_at_def
  proof (intro allI impI)
    fix j assume j: "j < Suc i"
    have pj: "pos argv p j + (length (argv j) + 1) \<le> ?q" "p \<le> pos argv p j" if "j < i"
      using pos_mono [of "Suc j" i argv p] pos_mono [of 0 j argv p] that by (auto simp: pos_Suc)
    show "seg (a + 8 * j) 8 ?p2 = nat_le 8 (UMEM_END_VMA - PAGE_SIZE + pos argv p j) \<and>
          seg (pos argv p j) (length (argv j) + 1) ?p2 = argv j @ [0]"
    proof (cases "j = i")
      case True
      then show ?thesis using q l Suc.prems(2) by (simp add: seg_patch_other)
    next
      case False
      then have "j < i" using j by simp
      then show ?thesis using q l pj Suc.prems(2,5)
        by (simp add: seg_patch_other args_at_def)
    qed
  qed
  then show ?case
    using Suc.hyps(1) [of "Suc i" ?p2] Suc.hyps(2) Suc.prems i l lo
    by (simp add: Let_def pos_Suc)
qed simp

text \<open>What the program finds on its stack page of which the top \<open>k\<close> bytes are in use.\<close>

definition stack_has :: "(nat \<Rightarrow> byte list) \<Rightarrow> nat \<Rightarrow> nat \<Rightarrow> byte list \<Rightarrow> bool" where
  "stack_has argv n k page \<longleftrightarrow>
     (\<forall>i<n. \<exists>off. le_nat (seg (PAGE_SIZE - k + 8 * i) 8 page) = UMEM_END_VMA - PAGE_SIZE + off \<and>
            PAGE_SIZE - k + 8 * (n + 1) \<le> off \<and> off + length (argv i) < PAGE_SIZE \<and>
            seg off (length (argv i) + 1) page = argv i @ [0]) \<and>
     le_nat (seg (PAGE_SIZE - k + 8 * n) 8 page) = 0"

lemma stack_hasI:
  assumes l: "length page = PAGE_SIZE" and k: "a = PAGE_SIZE - k" and p: "p = a + 8 * (n + 1)"
    and e: "pos argv p n \<le> PAGE_SIZE" and at: "args_at argv a p n page"
  shows "stack_has argv n k (patch (a + 8 * n) (nat_le 8 0) page)"
proof -
  let ?page = "patch (a + 8 * n) (nat_le 8 0) page"
  have n: "a + 8 * n + 8 \<le> PAGE_SIZE" using e pos_mono [of 0 n argv p] p by simp
  have "\<exists>off. le_nat (seg (a + 8 * i) 8 ?page) = UMEM_END_VMA - PAGE_SIZE + off \<and>
            a + 8 * (n + 1) \<le> off \<and> off + length (argv i) < PAGE_SIZE \<and>
            seg off (length (argv i) + 1) ?page = argv i @ [0]" if i: "i < n" for i
  proof (intro exI conjI)
    have o: "p \<le> pos argv p i" "pos argv p i + (length (argv i) + 1) \<le> PAGE_SIZE"
      using pos_mono [of 0 i argv p] pos_mono [of "Suc i" n argv p] i e by (auto simp: pos_Suc)
    have "UMEM_END_VMA - PAGE_SIZE + pos argv p i < 256 ^ 8"
      using o by (simp add: UMEM_END_VMA_def PAGE_SIZE_def)
    then show "le_nat (seg (a + 8 * i) 8 ?page) = UMEM_END_VMA - PAGE_SIZE + pos argv p i"
      using at i n l by (simp add: args_at_def seg_patch_other)
    show "a + 8 * (n + 1) \<le> pos argv p i" "pos argv p i + length (argv i) < PAGE_SIZE"
      using o p by simp_all
    show "seg (pos argv p i) (length (argv i) + 1) ?page = argv i @ [0]"
      using at i n l o p by (simp add: args_at_def seg_patch_other)
  qed
  moreover have "le_nat (seg (a + 8 * n) 8 ?page) = 0" using n l by simp
  ultimately show ?thesis unfolding stack_has_def k [symmetric] by blast
qed

lemma round_stack16:
  assumes "k \<le> 4096"
  shows "k \<le> ROUND_UP k 16" "ROUND_UP k 16 \<le> 4096" "ROUND_UP k 16 mod 16 = 0"
proof -
  have "u64 (k + 16 - 1) = k + 15" using assms by (simp add: u64_def)
  then have r: "ROUND_UP k 16 = (k + 15) div 16 * 16" by (simp add: ROUND_UP_def)
  have "(k + 15) div 16 * 16 + (k + 15) mod 16 = k + 15" by (rule div_mult_mod_eq)
  moreover have "(k + 15) mod 16 < 16" by simp
  ultimately show "k \<le> ROUND_UP k 16" unfolding r by linarith
  have "(k + 15) div 16 \<le> 4111 div 16" using assms by (intro div_le_mono) simp
  then show "ROUND_UP k 16 \<le> 4096" unfolding r by simp
  show "ROUND_UP k 16 mod 16 = 0" unfolding r by simp
qed

definition stack_need :: "(nat \<Rightarrow> byte list) \<Rightarrow> nat \<Rightarrow> nat" where
  "stack_need argv n = 8 * (n + 1) + args_size argv n"

lemma ull_neg:
  assumes "argc < 0" "- 2147483648 \<le> argc"
  shows "511 < ull argc"
proof -
  have "(argc + 18446744073709551616) mod 18446744073709551616 = argc + 18446744073709551616"
    using assms by (intro mod_pos_pos_trivial) auto
  then have "argc mod 18446744073709551616 = argc + 18446744073709551616" by simp
  then show ?thesis using assms(2) by (simp add: ull_def)
qed

lemma ull_nonneg: "0 \<le> argc \<Longrightarrow> argc < 2147483648 \<Longrightarrow> ull argc = nat argc"
  by (simp add: ull_def mod_pos_pos_trivial)

lemma page_div: "PAGE_SIZE div 8 - 1 = 511"
  by (simp add: PAGE_SIZE_def)

lemma stack_size_need:
  assumes "n \<le> 511"
  shows "stack_size argv [0..<n] ((n + 1) * 8) =
           (if stack_need argv n \<le> PAGE_SIZE then Some (stack_need argv n) else None)"
proof -
  have "(n + 1) * 8 \<le> PAGE_SIZE" using assms by (simp add: PAGE_SIZE_def)
  then show ?thesis using stack_size_eq [of 0 n "(n + 1) * 8" argv]
    by (simp add: stack_need_def args_size_def atLeast0LessThan mult.commute)
qed

lemma build_stack_refuses:
  assumes "argc < 2147483648" "- 2147483648 \<le> argc"
    and "argc < 0 \<or> PAGE_SIZE < stack_need argv (nat argc)"
  shows "build_stack argc argv page = Some (- ENOMEM, page)"
proof (cases "0 \<le> argc \<and> nat argc \<le> 511")
  case True
  then show ?thesis using assms stack_size_need [of "nat argc" argv] by (simp add: build_stack_def)
next
  case False
  then have "511 < ull argc" using assms ull_neg ull_nonneg by (cases "argc < 0") auto
  then show ?thesis unfolding build_stack_def page_div by simp
qed

lemma build_stack_fits:
  assumes l: "length page = PAGE_SIZE" and fits: "stack_need argv n \<le> PAGE_SIZE"
  defines "k \<equiv> ROUND_UP (stack_need argv n) 16"
  shows "\<exists>page'. build_stack (int n) argv page = Some (int k, page') \<and>
           k mod 16 = 0 \<and> k \<le> PAGE_SIZE \<and> length page' = PAGE_SIZE \<and>
           stack_has argv n k page' \<and> take (PAGE_SIZE - k) page' = take (PAGE_SIZE - k) page"
proof -
  have n: "n \<le> 511" using fits by (simp add: stack_need_def PAGE_SIZE_def)
  have k: "stack_need argv n \<le> k" "k \<le> PAGE_SIZE" "k mod 16 = 0"
    using round_stack16 [of "stack_need argv n"] fits by (simp_all add: k_def PAGE_SIZE_def)
  define a where "a = PAGE_SIZE - k"
  define p where "p = a + 8 * (n + 1)"
  define c where "c = copy_args argv a [0..<n] p page"
  define r where "r = patch (a + 8 * n) (nat_le 8 0) c"
  have e: "pos argv p n \<le> PAGE_SIZE" using k by (simp add: pos_def p_def a_def stack_need_def)
  have c: "length c = PAGE_SIZE" "args_at argv a p n c" "take a c = take a page"
    using copy_args_ok [of 0 n page PAGE_SIZE a p argv] l e by (auto simp: c_def p_def args_at_def)
  have "ull (int n) = n" using n ull_nonneg [of "int n"] by simp
  then have b: "build_stack (int n) argv page = Some (int k, r)"
    unfolding build_stack_def page_div
    using n stack_size_need [OF n, of argv] fits k(2)
    by (simp add: Let_def k_def [symmetric] a_def [symmetric] p_def c_def r_def)
  have w: "a + 8 * n + 8 \<le> PAGE_SIZE" using k by (simp add: a_def stack_need_def)
  have "take a r = take a c"
    using c(1) w unfolding r_def by (intro nth_equalityI) (auto simp: nth_patch)
  moreover have "stack_has argv n k r"
    unfolding r_def by (rule stack_hasI [OF c(1) a_def p_def e c(2)])
  moreover have "length r = PAGE_SIZE" using c(1) w by (simp add: r_def)
  ultimately show ?thesis
    unfolding a_def [symmetric] using b k c(3) by (intro exI [of _ r] conjI) simp_all
qed

text \<open>C36: \<open>build_stack\<close> lays out the arguments. When the vector, its terminating null pointer and
  the terminated strings fit in the page, the size it returns is a multiple of 16 and at most a
  page; entry \<open>i\<close> of the vector at the new stack pointer is the user address of a copy of argument
  \<open>i\<close> that lies inside the page above the vector, the entry after the last is null, and the bytes
  below the stack pointer are unchanged. When they do not fit it returns \<open>-ENOMEM\<close> and writes
  nothing. So does a negative count.\<close>

theorem build_stack_argv:
  assumes "length page = PAGE_SIZE" and "argc < 2147483648" and "- 2147483648 \<le> argc"
  shows "if 0 \<le> argc \<and> 8 * (nat argc + 1) + args_size argv (nat argc) \<le> PAGE_SIZE
         then \<exists>k page'. build_stack argc argv page = Some (int k, page') \<and>
                k mod 16 = 0 \<and> k \<le> PAGE_SIZE \<and> length page' = PAGE_SIZE \<and>
                stack_has argv (nat argc) k page' \<and>
                take (PAGE_SIZE - k) page' = take (PAGE_SIZE - k) page
         else build_stack argc argv page = Some (- ENOMEM, page)"
proof (cases "0 \<le> argc \<and> stack_need argv (nat argc) \<le> PAGE_SIZE")
  case True
  then have "int (nat argc) = argc" by simp
  then show ?thesis
    unfolding stack_need_def [symmetric] if_P [OF True] using build_stack_fits [OF assms(1), of argv "nat argc"] True by metis
next
  case False
  then have "build_stack argc argv page = Some (- ENOMEM, page)"
    by (intro build_stack_refuses [OF assms(2,3)]) linarith
  then show ?thesis
    unfolding stack_need_def [symmetric] if_not_P [OF False] .
qed

theorem build_stack_argv_witness:
  "\<exists>k page'. build_stack 2 (\<lambda>i. if i = 0 then [108, 115] else [47]) (replicate PAGE_SIZE 0) = Some (int k, page') \<and>
     k mod 16 = 0 \<and> stack_has (\<lambda>i. if i = 0 then [108, 115] else [47]) 2 k page'"
proof -
  let ?argv = "\<lambda>i::nat. if i = 0 then [108, 115] else [47 :: byte]"
  have "args_size ?argv 2 = 5" by (simp add: args_size_def numeral_2_eq_2)
  then have "0 \<le> (2::int) \<and> 8 * (nat 2 + 1) + args_size ?argv (nat 2) \<le> PAGE_SIZE"
    by (simp add: PAGE_SIZE_def)
  then show ?thesis using build_stack_argv [of "replicate PAGE_SIZE 0" 2 ?argv] by auto
qed

end
