(* ===== verification/Elf.thy ===== *)
theory Elf
  imports Io Vm
begin

text \<open>
  The loader of executables, kernel/elf.c. The loaded program goes to the user memory of the
  current process; pages that are not there yet appear, filled with zeros, on first use, so the
  memory is a total function from 64-bit addresses to bytes. \<open>None\<close> is a driver that does not
  return.
\<close>

type_synonym umem = "64 word \<Rightarrow> byte"

subsection \<open>Headers\<close>

definition EI_CLASS :: nat where "EI_CLASS = 4"
definition EI_DATA :: nat where "EI_DATA = 5"
definition EI_VERSION :: nat where "EI_VERSION = 6"
definition ELFCLASS64 :: byte where "ELFCLASS64 = 2"
definition ELFDATA2LSB :: byte where "ELFDATA2LSB = 1"
definition EV_CURRENT :: nat where "EV_CURRENT = 1"
definition ET_EXEC :: nat where "ET_EXEC = 2"
definition PT_LOAD :: nat where "PT_LOAD = 1"
definition EM_RISCV :: nat where "EM_RISCV = 243"

record elf64_ehdr =
  e_ident :: "byte list"
  e_type :: nat
  e_machine :: nat
  e_version :: nat
  e_entry :: nat
  e_phoff :: nat
  e_phentsize :: nat
  e_phnum :: nat

record elf64_phdr =
  p_type :: nat
  p_flags :: nat
  p_offset :: nat
  p_vaddr :: nat
  p_filesz :: nat
  p_memsz :: nat

definition EHDRSZ :: nat where "EHDRSZ = 64"
definition PHDRSZ :: nat where "PHDRSZ = 56"

text \<open>The fields at their offsets; those the loader does not read are left out.\<close>

definition decode_ehdr :: "byte list \<Rightarrow> elf64_ehdr" where
  "decode_ehdr b =
     \<lparr>e_ident = seg 0 16 b, e_type = le_nat (seg 16 2 b), e_machine = le_nat (seg 18 2 b),
      e_version = le_nat (seg 20 4 b), e_entry = le_nat (seg 24 8 b), e_phoff = le_nat (seg 32 8 b),
      e_phentsize = le_nat (seg 54 2 b), e_phnum = le_nat (seg 56 2 b)\<rparr>"

definition decode_phdr :: "byte list \<Rightarrow> elf64_phdr" where
  "decode_phdr b =
     \<lparr>p_type = le_nat (seg 0 4 b), p_flags = le_nat (seg 4 4 b), p_offset = le_nat (seg 8 8 b),
      p_vaddr = le_nat (seg 16 8 b), p_filesz = le_nat (seg 32 8 b), p_memsz = le_nat (seg 40 8 b)\<rparr>"

definition ehdr_valid :: "elf64_ehdr \<Rightarrow> bool" where
  "ehdr_valid eh \<longleftrightarrow>
     e_ident eh ! 0 = 0x7F \<and> e_ident eh ! 1 = 0x45 \<and> e_ident eh ! 2 = 0x4C \<and> e_ident eh ! 3 = 0x46 \<and>
     e_ident eh ! EI_CLASS = ELFCLASS64 \<and> e_ident eh ! EI_DATA = ELFDATA2LSB \<and>
     unat (e_ident eh ! EI_VERSION) = EV_CURRENT \<and> e_type eh = ET_EXEC \<and> e_machine eh = EM_RISCV \<and>
     e_version eh = EV_CURRENT \<and> e_phentsize eh = PHDRSZ"

subsection \<open>Loading\<close>

definition put_bytes :: "nat \<Rightarrow> byte list \<Rightarrow> umem \<Rightarrow> umem" where
  "put_bytes a bs mm = (\<lambda>x. let k = unat (x - word_of_nat a) in if k < length bs then bs ! k else mm x)"

definition put_zeros :: "nat \<Rightarrow> nat \<Rightarrow> umem \<Rightarrow> umem" where
  "put_zeros a n mm = (\<lambda>x. if unat (x - word_of_nat a) < n then 0 else mm x)"

definition phdr_range_ok :: "elf64_phdr \<Rightarrow> bool" where
  "phdr_range_ok ph \<longleftrightarrow>
     \<not> p_vaddr ph < UMEM_START_VMA \<and> \<not> u64 (p_vaddr ph + p_memsz ph) > UMEM_END_VMA \<and>
     \<not> p_filesz ph > p_memsz ph"

text \<open>The body of the loop after the header is read; the code is 0 when the loop goes on.\<close>

definition load_segment :: "elf64_phdr \<Rightarrow> 'd io \<Rightarrow> umem \<Rightarrow> (int \<times> umem \<times> 'd io) option" where
  "load_segment ph io mm =
     (if p_type ph \<noteq> PT_LOAD then Some (0, mm, io)
      else if \<not> phdr_range_ok ph then Some (- EINVAL, mm, io)
      else do {
        (ok, mm, io) \<leftarrow>
          (if p_filesz ph > 0
           then do {
             ((n, bs), io) \<leftarrow> ioreadat io (p_offset ph) (slong (p_filesz ph));
             Some (n = slong (p_filesz ph), put_bytes (p_vaddr ph) bs mm, io)
           }
           else Some (True, mm, io));
        Some (if \<not> ok then (- EIO, mm, io)
              else (0, if p_memsz ph > p_filesz ph
                       then put_zeros (p_vaddr ph + p_filesz ph) (p_memsz ph - p_filesz ph) mm else mm, io))
      })"

fun load_segments :: "nat \<Rightarrow> nat list \<Rightarrow> 'd io \<Rightarrow> umem \<Rightarrow> (int \<times> umem \<times> 'd io) option" where
  "load_segments phoff [] io mm = Some (0, mm, io)"
| "load_segments phoff (i # is) io mm =
     do {
       ((n, bs), io) \<leftarrow> ioreadat io (u64 (phoff + i * PHDRSZ)) (int PHDRSZ);
       if n \<noteq> int PHDRSZ then Some (- EIO, mm, io)
       else do {
         (c, mm, io) \<leftarrow> load_segment (decode_phdr bs) io mm;
         if c \<noteq> 0 then Some (c, mm, io) else load_segments phoff is io mm
       }
     }"

text \<open>The result, with the entry point when the code is 0. No object or no place for it: \<open>-EINVAL\<close>.\<close>

definition elf_load ::
  "'d io option \<Rightarrow> bool \<Rightarrow> umem \<Rightarrow> ((int \<times> nat option) \<times> umem \<times> 'd io option) option"
where
  "elf_load elfio eptr mm =
     (case elfio of
        None \<Rightarrow> Some ((- EINVAL, None), mm, None)
      | Some io \<Rightarrow>
          if \<not> eptr then Some ((- EINVAL, None), mm, Some io)
          else do {
            ((n, bs), io) \<leftarrow> ioreadat io 0 (int EHDRSZ);
            if n \<noteq> int EHDRSZ then Some ((- EIO, None), mm, Some io)
            else let eh = decode_ehdr bs
              in if \<not> ehdr_valid eh then Some ((- EINVAL, None), mm, Some io)
                 else do {
                   (c, mm, io) \<leftarrow> load_segments (e_phoff eh) [0..<e_phnum eh] io mm;
                   Some (if c \<noteq> 0 then (c, None) else (0, Some (e_entry eh)), mm, Some io)
                 }
          })"

subsection \<open>Files\<close>

text \<open>What the loader relies on: an object that serves the bytes of a file at any position.\<close>

locale file_object =
  fixes fio :: "'d io" and img :: "byte list"
  assumes serve: "0 \<le> n \<Longrightarrow> ioreadat fio pos n = Some ((int (length (seg pos (nat n) img)), seg pos (nat n) img), fio)"

definition mem_file :: "byte list \<Rightarrow> memio io" where
  "mem_file b = ioinit1 \<lparr>mbuf = b, msize = length b, mlive = True\<rparr> memio_iointf"

interpretation memfile: file_object "mem_file b" b for b
  by unfold_locales
    (auto simp: mem_file_def ioinit1_def ioreadat_def memio_iointf_def memio_readat_def seg_def Let_def min_def)

subsection \<open>One segment\<close>

lemma word_range:
  fixes x :: "64 word"
  assumes "a + m \<le> 2 ^ 64"
  shows "unat (x - word_of_nat a) < m \<longleftrightarrow> a \<le> unat x \<and> unat x < a + m"
    "a \<le> unat x \<Longrightarrow> a < 2 ^ 64 \<Longrightarrow> unat (x - word_of_nat a) = unat x - a"
proof -
  show e: "unat (x - word_of_nat a) = unat x - a" if "a \<le> unat x" "a < 2 ^ 64"
    using that by (simp add: unat_sub_if' unat_of_nat take_bit_nat_eq_self)
  show "unat (x - word_of_nat a) < m \<longleftrightarrow> a \<le> unat x \<and> unat x < a + m"
  proof (cases "m = 0")
    case False
    then have "a < 2 ^ 64" using assms by simp
    then show ?thesis using assms e unsigned_less [of x]
      by (cases "a \<le> unat x") (auto simp: unat_sub_if' unat_of_nat take_bit_nat_eq_self)
  qed simp
qed

definition in_seg :: "elf64_phdr \<Rightarrow> 64 word \<Rightarrow> bool" where
  "in_seg ph x \<longleftrightarrow> p_type ph = PT_LOAD \<and> p_vaddr ph \<le> unat x \<and> unat x < p_vaddr ph + p_memsz ph"

definition seg_byte :: "byte list \<Rightarrow> elf64_phdr \<Rightarrow> 64 word \<Rightarrow> byte" where
  "seg_byte img ph x =
     (let k = unat x - p_vaddr ph in if k < p_filesz ph then img ! (p_offset ph + k) else 0)"

definition seg_fits :: "byte list \<Rightarrow> elf64_phdr \<Rightarrow> bool" where
  "seg_fits img ph \<longleftrightarrow> p_type ph = PT_LOAD \<longrightarrow>
     UMEM_START_VMA \<le> p_vaddr ph \<and> p_vaddr ph + p_memsz ph \<le> UMEM_END_VMA \<and>
     p_filesz ph \<le> p_memsz ph \<and> p_offset ph + p_filesz ph \<le> length img"

definition phdr_at :: "byte list \<Rightarrow> nat \<Rightarrow> nat \<Rightarrow> elf64_phdr" where
  "phdr_at img phoff i = decode_phdr (seg (u64 (phoff + i * PHDRSZ)) PHDRSZ img)"

definition headers_in :: "byte list \<Rightarrow> nat \<Rightarrow> nat \<Rightarrow> bool" where
  "headers_in img phoff i \<longleftrightarrow> phoff + i * PHDRSZ + PHDRSZ \<le> length img \<and> length img < 2 ^ 63"

lemma put_segment:
  assumes "p_type ph = PT_LOAD" "p_vaddr ph + p_memsz ph < 2 ^ 64" "p_filesz ph \<le> p_memsz ph"
    "p_offset ph + p_filesz ph \<le> length img"
  shows "put_zeros (p_vaddr ph + p_filesz ph) (p_memsz ph - p_filesz ph)
           (put_bytes (p_vaddr ph) (seg (p_offset ph) (p_filesz ph) img) mm) =
         (\<lambda>x. if in_seg ph x then seg_byte img ph x else mm x)"
proof
  fix x :: "64 word"
  let ?v = "p_vaddr ph" and ?f = "p_filesz ph" and ?m = "p_memsz ph"
  have z: "unat (x - word_of_nat (?v + ?f)) < ?m - ?f \<longleftrightarrow> ?v + ?f \<le> unat x \<and> unat x < ?v + ?m"
    using word_range(1) [of "?v + ?f" "?m - ?f" x] assms by simp
  have b: "unat (x - word_of_nat ?v) < ?f \<longleftrightarrow> ?v \<le> unat x \<and> unat x < ?v + ?f"
    using word_range(1) [of ?v ?f x] assms by simp
  have d: "unat (x - word_of_nat ?v) = unat x - ?v" if "?v \<le> unat x"
    using word_range(2) [of ?v 0 x] that assms by simp
  have l: "length (seg (p_offset ph) ?f img) = ?f" using assms(4) by simp
  show "put_zeros (?v + ?f) (?m - ?f) (put_bytes ?v (seg (p_offset ph) ?f img) mm) x =
      (if in_seg ph x then seg_byte img ph x else mm x)"
    unfolding put_zeros_def put_bytes_def Let_def l z b
    using assms(1,3,4) d by (auto simp: in_seg_def seg_byte_def Let_def add_diff_assoc2 add.commute)
qed

lemma put_none: "put_zeros a 0 mm = mm" "put_bytes a [] mm = mm"
  by (simp_all add: put_zeros_def put_bytes_def)

lemma umem_end_small: "UMEM_END_VMA < 2 ^ 63"
  by (simp add: UMEM_END_VMA_def)

lemma slong_small: "n < 2 ^ 63 \<Longrightarrow> slong n = int n"
  by (simp add: slong_def mod_pos_pos_trivial)

subsection \<open>The whole program\<close>

context file_object begin

lemma load_segment_ok:
  assumes "seg_fits img ph"
  shows "load_segment ph fio mm = Some (0, (\<lambda>x. if in_seg ph x then seg_byte img ph x else mm x), fio)"
proof (cases "p_type ph = PT_LOAD")
  case True
  then have f: "UMEM_START_VMA \<le> p_vaddr ph" "p_vaddr ph + p_memsz ph \<le> UMEM_END_VMA"
      "p_filesz ph \<le> p_memsz ph" "p_offset ph + p_filesz ph \<le> length img"
    using assms by (auto simp: seg_fits_def)
  have lt: "p_vaddr ph + p_memsz ph < 2 ^ 64" "p_filesz ph < 2 ^ 63"
    using f umem_end_small by simp_all
  have ok: "phdr_range_ok ph"
    using f lt by (simp add: phdr_range_ok_def u64_def)
  have rd: "ioreadat fio (p_offset ph) (slong (p_filesz ph)) =
      Some ((int (p_filesz ph), seg (p_offset ph) (p_filesz ph) img), fio)"
    using serve [of "int (p_filesz ph)" "p_offset ph"] f(4) lt(2) by (simp add: slong_small)
  have "load_segment ph fio mm = Some (0,
      put_zeros (p_vaddr ph + p_filesz ph) (p_memsz ph - p_filesz ph)
        (put_bytes (p_vaddr ph) (seg (p_offset ph) (p_filesz ph) img) mm), fio)"
    using True ok rd lt(2) f(3) by (auto simp: load_segment_def slong_small put_none)
  then show ?thesis using put_segment [OF True lt(1) f(3,4)] by simp
qed (simp add: load_segment_def in_seg_def)

lemma read_phdr:
  assumes "headers_in img phoff i"
  shows "ioreadat fio (u64 (phoff + i * PHDRSZ)) (int PHDRSZ) =
           Some ((int PHDRSZ, seg (u64 (phoff + i * PHDRSZ)) PHDRSZ img), fio)"
proof -
  have "u64 (phoff + i * PHDRSZ) = phoff + i * PHDRSZ"
    using assms by (simp add: headers_in_def u64_def)
  then show ?thesis using serve [of "int PHDRSZ" "phoff + i * PHDRSZ"] assms by (simp add: headers_in_def)
qed

lemma load_segments_ok:
  assumes "distinct is"
    and "\<forall>i\<in>set is. headers_in img phoff i \<and> seg_fits img (phdr_at img phoff i)"
    and "\<forall>i\<in>set is. \<forall>j\<in>set is. i \<noteq> j \<longrightarrow> \<not> (in_seg (phdr_at img phoff i) x \<and> in_seg (phdr_at img phoff j) x)"
  shows "\<exists>mm'. load_segments phoff is fio mm = Some (0, mm', fio) \<and>
           (\<forall>i\<in>set is. in_seg (phdr_at img phoff i) x \<longrightarrow> mm' x = seg_byte img (phdr_at img phoff i) x) \<and>
           ((\<forall>i\<in>set is. \<not> in_seg (phdr_at img phoff i) x) \<longrightarrow> mm' x = mm x)"
  using assms
proof (induction "is" arbitrary: mm)
  case (Cons i "is")
  let ?ph = "phdr_at img phoff i"
  let ?m = "\<lambda>x. if in_seg ?ph x then seg_byte img ?ph x else mm x"
  have "load_segment (decode_phdr (seg (u64 (phoff + i * PHDRSZ)) PHDRSZ img)) fio mm = Some (0, ?m, fio)"
    using load_segment_ok [of ?ph mm] Cons.prems(2) by (simp add: phdr_at_def)
  then have step: "load_segments phoff (i # is) fio mm = load_segments phoff is fio ?m"
    using read_phdr [of phoff i] Cons.prems(2) by simp
  obtain mm' where r: "load_segments phoff is fio ?m = Some (0, mm', fio)"
    and a: "\<forall>i\<in>set is. in_seg (phdr_at img phoff i) x \<longrightarrow> mm' x = seg_byte img (phdr_at img phoff i) x"
    and b: "(\<forall>i\<in>set is. \<not> in_seg (phdr_at img phoff i) x) \<longrightarrow> mm' x = ?m x"
    using Cons.IH [of ?m] Cons.prems by auto
  have "mm' x = seg_byte img ?ph x" if "in_seg ?ph x"
  proof -
    have "\<forall>j\<in>set is. \<not> in_seg (phdr_at img phoff j) x"
    proof
      fix j assume j: "j \<in> set is"
      then have "i \<noteq> j" using Cons.prems(1) by auto
      then show "\<not> in_seg (phdr_at img phoff j) x" using Cons.prems(3) j that by simp
    qed
    then show ?thesis using b that by simp
  qed
  then show ?case using step r a b by (intro exI [of _ mm']) auto
qed simp

lemma load_segment_confined:
  assumes nw: "p_type ph = PT_LOAD \<Longrightarrow> p_vaddr ph + p_memsz ph < 2 ^ 64"
    and r: "load_segment ph fio mm = Some (c, mm', io')"
  shows "io' = fio" "mm' x \<noteq> mm x \<Longrightarrow> UMEM_START_VMA \<le> unat x \<and> unat x < UMEM_END_VMA"
proof -
  have "io' = fio \<and> (mm' x \<noteq> mm x \<longrightarrow> UMEM_START_VMA \<le> unat x \<and> unat x < UMEM_END_VMA)"
  proof (cases "p_type ph = PT_LOAD \<and> phdr_range_ok ph")
    case True
    let ?v = "p_vaddr ph" and ?f = "p_filesz ph" and ?m = "p_memsz ph"
    have f: "UMEM_START_VMA \<le> ?v" "?v + ?m \<le> UMEM_END_VMA" "?f \<le> ?m" "?v + ?m < 2 ^ 64"
      using True nw by (auto simp: phdr_range_ok_def u64_def)
    have fs: "?f < 2 ^ 63" using f umem_end_small by simp
    let ?bs = "seg (p_offset ph) ?f img"
    have bl: "length ?bs \<le> ?f" by (simp add: length_seg)
    have rd: "ioreadat fio (p_offset ph) (slong ?f) = Some ((int (length ?bs), ?bs), fio)"
      using serve [of "int ?f" "p_offset ph"] fs by (simp add: slong_small)
    have z: "unat (x - word_of_nat (?v + ?f)) < ?m - ?f \<longleftrightarrow> ?v + ?f \<le> unat x \<and> unat x < ?v + ?m"
      using word_range(1) [of "?v + ?f" "?m - ?f" x] f by simp
    have b: "unat (x - word_of_nat ?v) < length ?bs \<longleftrightarrow> ?v \<le> unat x \<and> unat x < ?v + length ?bs"
      using word_range(1) [of ?v "length ?bs" x] f bl by simp
    have pz: "put_zeros (?v + ?f) (?m - ?f) q x \<noteq> q x \<longrightarrow> ?v \<le> unat x \<and> unat x < ?v + ?m" for q
      using z f by (auto simp: put_zeros_def)
    have pb: "put_bytes ?v ?bs mm x \<noteq> mm x \<longrightarrow> ?v \<le> unat x \<and> unat x < ?v + ?m"
      using b bl f(3) by (auto simp: put_bytes_def Let_def)
    consider "mm' = mm" | "mm' = put_bytes ?v ?bs mm" | "mm' = put_zeros (?v + ?f) (?m - ?f) mm"
      | "mm' = put_zeros (?v + ?f) (?m - ?f) (put_bytes ?v ?bs mm)"
      using r True rd by (auto simp: load_segment_def split: if_splits)
    then have "mm' x \<noteq> mm x \<longrightarrow> ?v \<le> unat x \<and> unat x < ?v + ?m"
      using pz [of mm] pz [of "put_bytes ?v ?bs mm"] pb by cases auto
    moreover have "io' = fio" using r True rd by (auto simp: load_segment_def split: if_splits)
    ultimately show ?thesis using f by auto
  qed (use r in \<open>auto simp: load_segment_def split: if_splits\<close>)
  then show "io' = fio" "mm' x \<noteq> mm x \<Longrightarrow> UMEM_START_VMA \<le> unat x \<and> unat x < UMEM_END_VMA" by auto
qed

lemma load_segments_confined:
  assumes "\<forall>i\<in>set is. p_type (phdr_at img phoff i) = PT_LOAD \<longrightarrow>
      p_vaddr (phdr_at img phoff i) + p_memsz (phdr_at img phoff i) < 2 ^ 64"
    and "load_segments phoff is fio mm = Some (c, mm', io')" and "mm' x \<noteq> mm x"
  shows "UMEM_START_VMA \<le> unat x \<and> unat x < UMEM_END_VMA"
  using assms
proof (induction "is" arbitrary: mm)
  case (Cons i "is")
  let ?pos = "u64 (phoff + i * PHDRSZ)"
  let ?ph = "phdr_at img phoff i"
  have rd: "ioreadat fio ?pos (int PHDRSZ) = Some ((int (length (seg ?pos PHDRSZ img)), seg ?pos PHDRSZ img), fio)"
    using serve [of "int PHDRSZ" ?pos] by simp
  show ?case
  proof (cases "length (seg ?pos PHDRSZ img) = PHDRSZ")
    case True
    then obtain d m1 io1 where l: "load_segment ?ph fio mm = Some (d, m1, io1)"
      and rest: "(if d \<noteq> 0 then Some (d, m1, io1) else load_segments phoff is io1 m1) = Some (c, mm', io')"
      using Cons.prems(2) rd by (cases "load_segment ?ph fio mm") (auto simp: phdr_at_def)
    have s: "io1 = fio" "m1 x \<noteq> mm x \<Longrightarrow> UMEM_START_VMA \<le> unat x \<and> unat x < UMEM_END_VMA"
      using load_segment_confined [OF _ l] Cons.prems(1) by auto
    show ?thesis
    proof (cases "m1 x = mm x")
      case True
      then show ?thesis using Cons.IH [of m1] Cons.prems(1,3) rest s(1) by (auto split: if_splits)
    qed (rule s(2))
  next
    case False
    then show ?thesis using Cons.prems(2,3) rd by simp
  qed
qed simp

end

subsection \<open>Properties of the loader\<close>

definition elf_header :: "byte list \<Rightarrow> elf64_ehdr" where
  "elf_header img = decode_ehdr (seg 0 EHDRSZ img)"

text \<open>A file the loader accepts: a valid header, program headers and contents inside the file,
  segments inside user memory and disjoint.\<close>

definition elf_file :: "byte list \<Rightarrow> bool" where
  "elf_file img \<longleftrightarrow>
     EHDRSZ \<le> length img \<and> ehdr_valid (elf_header img) \<and>
     (\<forall>i<e_phnum (elf_header img).
        headers_in img (e_phoff (elf_header img)) i \<and> seg_fits img (phdr_at img (e_phoff (elf_header img)) i)) \<and>
     (\<forall>i<e_phnum (elf_header img). \<forall>j<e_phnum (elf_header img). i \<noteq> j \<longrightarrow>
        (\<forall>x. \<not> (in_seg (phdr_at img (e_phoff (elf_header img)) i) x \<and>
               in_seg (phdr_at img (e_phoff (elf_header img)) j) x)))"

lemma elf_load_unfold:
  assumes "file_object fio img" "EHDRSZ \<le> length img" "ehdr_valid (elf_header img)"
  shows "elf_load (Some fio) True mm =
     map_option (\<lambda>(c, mm, io). (if c \<noteq> 0 then (c, None) else (0, Some (e_entry (elf_header img))), mm, Some io))
       (load_segments (e_phoff (elf_header img)) [0..<e_phnum (elf_header img)] fio mm)"
proof -
  have "ioreadat fio 0 (int EHDRSZ) = Some ((int EHDRSZ, seg 0 EHDRSZ img), fio)"
    using file_object.serve [OF assms(1), of "int EHDRSZ" 0] assms(2) by simp
  then show ?thesis using assms(3)
    by (cases "load_segments (e_phoff (elf_header img)) [0..<e_phnum (elf_header img)] fio mm")
      (auto simp: elf_load_def elf_header_def Let_def)
qed

text \<open>C37: \<open>elf_load\<close> loads the program. From an object that serves a well-formed executable it
  returns 0 and the entry point of the header; every address of a loadable segment then holds the
  byte of the file, or zero past the part that is in the file, and no other address is changed.\<close>

theorem elf_load_image:
  assumes "file_object fio img" and "elf_file img"
  shows "\<exists>mm'. elf_load (Some fio) True mm = Some ((0, Some (e_entry (elf_header img))), mm', Some fio) \<and>
     (\<forall>x. (\<forall>i<e_phnum (elf_header img). in_seg (phdr_at img (e_phoff (elf_header img)) i) x \<longrightarrow>
             mm' x = seg_byte img (phdr_at img (e_phoff (elf_header img)) i) x) \<and>
          ((\<forall>i<e_phnum (elf_header img). \<not> in_seg (phdr_at img (e_phoff (elf_header img)) i) x) \<longrightarrow>
             mm' x = mm x))"
proof -
  let ?off = "e_phoff (elf_header img)" and ?n = "e_phnum (elf_header img)"
  have h: "\<forall>i\<in>set [0..<?n]. headers_in img ?off i \<and> seg_fits img (phdr_at img ?off i)"
    using assms(2) unfolding elf_file_def by simp
  have dj: "\<forall>i\<in>set [0..<?n]. \<forall>j\<in>set [0..<?n]. i \<noteq> j \<longrightarrow>
      \<not> (in_seg (phdr_at img ?off i) x \<and> in_seg (phdr_at img ?off j) x)" for x
    using assms(2) unfolding elf_file_def by simp
  have l: "\<exists>mm'. load_segments ?off [0..<?n] fio mm = Some (0, mm', fio) \<and>
      (\<forall>i\<in>set [0..<?n]. in_seg (phdr_at img ?off i) x \<longrightarrow> mm' x = seg_byte img (phdr_at img ?off i) x) \<and>
      ((\<forall>i\<in>set [0..<?n]. \<not> in_seg (phdr_at img ?off i) x) \<longrightarrow> mm' x = mm x)" for x
    by (rule file_object.load_segments_ok [OF assms(1) distinct_upt h dj])
  obtain mm' where m: "load_segments ?off [0..<?n] fio mm = Some (0, mm', fio)" using l by blast
  have "elf_load (Some fio) True mm = Some ((0, Some (e_entry (elf_header img))), mm', Some fio)"
    using elf_load_unfold [OF assms(1)] assms(2) m by (simp add: elf_file_def)
  moreover have "(\<forall>i<?n. in_seg (phdr_at img ?off i) x \<longrightarrow> mm' x = seg_byte img (phdr_at img ?off i) x) \<and>
      ((\<forall>i<?n. \<not> in_seg (phdr_at img ?off i) x) \<longrightarrow> mm' x = mm x)" for x
    using l [of x] unfolding m by simp
  ultimately show ?thesis by blast
qed

text \<open>A program of one segment: four bytes at the start of user memory, followed by four zeros.\<close>

definition demo_elf :: "byte list" where
  "demo_elf =
    [127, 69, 76, 70, 2, 1, 1, 0, 0, 0, 0, 0, 0, 0, 0, 0, 2, 0, 243, 0,
     1, 0, 0, 0, 0, 0, 0, 192, 0, 0, 0, 0, 64, 0, 0, 0, 0, 0, 0, 0,
     0, 0, 0, 0, 0, 0, 0, 0, 0, 0, 0, 0, 64, 0, 56, 0, 1, 0, 0, 0,
     0, 0, 0, 0, 1, 0, 0, 0, 5, 0, 0, 0, 120, 0, 0, 0, 0, 0, 0, 0,
     0, 0, 0, 192, 0, 0, 0, 0, 0, 0, 0, 0, 0, 0, 0, 0, 4, 0, 0, 0,
     0, 0, 0, 0, 8, 0, 0, 0, 0, 0, 0, 0, 0, 0, 0, 0, 0, 0, 0, 0,
     1, 2, 3, 4]"

lemma demo_elf_header:
  "length demo_elf = 124" "e_phnum (elf_header demo_elf) = 1" "e_phoff (elf_header demo_elf) = 64"
  "e_entry (elf_header demo_elf) = 0xC0000000" "ehdr_valid (elf_header demo_elf)"
  "phdr_at demo_elf 64 0 =
     \<lparr>p_type = 1, p_flags = 5, p_offset = 120, p_vaddr = 0xC0000000, p_filesz = 4, p_memsz = 8\<rparr>"
  by (simp_all add: demo_elf_def elf_header_def decode_ehdr_def EHDRSZ_def seg_def ehdr_valid_def phdr_at_def
      decode_phdr_def PHDRSZ_def u64_def EI_CLASS_def EI_DATA_def EI_VERSION_def ELFCLASS64_def ELFDATA2LSB_def
      EV_CURRENT_def ET_EXEC_def EM_RISCV_def)

lemma demo_elf_file: "elf_file demo_elf"
  unfolding elf_file_def demo_elf_header
  by (simp add: demo_elf_header EHDRSZ_def PHDRSZ_def headers_in_def seg_fits_def UMEM_START_VMA_def UMEM_END_VMA_def)

theorem elf_load_image_witness:
  "\<exists>mm'. elf_load (Some (mem_file demo_elf)) True (\<lambda>_. 9) = Some ((0, Some 0xC0000000), mm', Some (mem_file demo_elf)) \<and>
     mm' 0xC0000001 = 2 \<and> mm' 0xC0000005 = 0 \<and> mm' 0xC0000008 = 9"
proof -
  let ?ph = "phdr_at demo_elf 64 0"
  have x: "unat (0xC0000001 :: 64 word) = 0xC0000001" "unat (0xC0000005 :: 64 word) = 0xC0000005"
    "unat (0xC0000008 :: 64 word) = 0xC0000008" by simp_all
  have n: "demo_elf ! 121 = 2" by (simp add: demo_elf_def)
  obtain mm' where l: "elf_load (Some (mem_file demo_elf)) True (\<lambda>_. 9) =
      Some ((0, Some 0xC0000000), mm', Some (mem_file demo_elf))"
    and m: "\<And>x. in_seg ?ph x \<longrightarrow> mm' x = seg_byte demo_elf ?ph x" "\<And>x. \<not> in_seg ?ph x \<longrightarrow> mm' x = 9"
    using elf_load_image [OF memfile.file_object_axioms demo_elf_file, of "\<lambda>_. 9"]
    by (auto simp: demo_elf_header)
  have "mm' 0xC0000001 = 2" "mm' 0xC0000005 = 0" "mm' 0xC0000008 = 9"
    using m [of "0xC0000001"] m [of "0xC0000005"] m [of "0xC0000008"] n
    by (simp_all add: in_seg_def seg_byte_def demo_elf_header x PT_LOAD_def Let_def)
  then show ?thesis using l by blast
qed

text \<open>C38: whatever the file holds, the loader writes only to user memory, provided no loadable
  segment wraps around the end of the address space: an address that differs afterwards, with any
  result, is between \<open>UMEM_START_VMA\<close> and \<open>UMEM_END_VMA\<close>.\<close>

theorem elf_load_confined:
  assumes "file_object fio img"
    and "\<forall>i<e_phnum (elf_header img). p_type (phdr_at img (e_phoff (elf_header img)) i) = PT_LOAD \<longrightarrow>
           p_vaddr (phdr_at img (e_phoff (elf_header img)) i) +
           p_memsz (phdr_at img (e_phoff (elf_header img)) i) < 2 ^ 64"
    and "elf_load (Some fio) True mm = Some (r, mm', io')" and "mm' x \<noteq> mm x"
  shows "UMEM_START_VMA \<le> unat x \<and> unat x < UMEM_END_VMA"
proof -
  have rd: "ioreadat fio 0 (int EHDRSZ) = Some ((int (length (seg 0 EHDRSZ img)), seg 0 EHDRSZ img), fio)"
    using file_object.serve [OF assms(1), of "int EHDRSZ" 0] by simp
  have ok: "length (seg 0 EHDRSZ img) = EHDRSZ" "ehdr_valid (elf_header img)"
    using assms(3,4) rd by (auto simp: elf_load_def elf_header_def Let_def split: if_splits)
  have "EHDRSZ \<le> length img" using ok(1) by (simp add: length_seg min_def split: if_splits)
  then obtain c io1 where l: "load_segments (e_phoff (elf_header img)) [0..<e_phnum (elf_header img)] fio mm = Some (c, mm', io1)"
    using assms(3) elf_load_unfold [OF assms(1) _ ok(2), of mm] by auto
  show ?thesis
    by (rule file_object.load_segments_confined [where mm = mm and mm' = mm' and x = x, OF assms(1) _ l assms(4)])
      (use assms(2) in simp)
qed

theorem elf_load_confined_witness:
  "\<exists>r mm'. elf_load (Some (mem_file demo_elf)) True (\<lambda>_. 9) = Some (r, mm', Some (mem_file demo_elf)) \<and> mm' 7 = 9"
proof -
  obtain r mm' where l: "elf_load (Some (mem_file demo_elf)) True (\<lambda>_. 9) = Some (r, mm', Some (mem_file demo_elf))"
  proof -
    have fits: "headers_in demo_elf 64 0" "seg_fits demo_elf (phdr_at demo_elf 64 0)"
      using demo_elf_file by (simp_all add: elf_file_def demo_elf_header(2,3))
    have "load_segments 64 [0] (mem_file demo_elf) (\<lambda>_. 9) = Some (0, \<lambda>x. if in_seg (phdr_at demo_elf 64 0) x
        then seg_byte demo_elf (phdr_at demo_elf 64 0) x else 9, mem_file demo_elf)"
      using memfile.load_segment_ok [OF fits(2), of "\<lambda>_. 9"] memfile.read_phdr [OF fits(1)]
      by (simp add: phdr_at_def)
    then show ?thesis
      using that elf_load_unfold [OF memfile.file_object_axioms, of demo_elf "\<lambda>_. 9"] demo_elf_header(1-5)
      by (simp add: EHDRSZ_def)
  qed
  have "mm' 7 = 9"
  proof (rule ccontr)
    assume "mm' 7 \<noteq> 9"
    then have "UMEM_START_VMA \<le> unat (7 :: 64 word) \<and> unat (7 :: 64 word) < UMEM_END_VMA"
      by (intro elf_load_confined [OF memfile.file_object_axioms _ l, of 7]) (simp_all add: demo_elf_header)
    then show False by (simp add: UMEM_START_VMA_def)
  qed
  then show ?thesis using l by blast
qed

text \<open>The range check of a segment can be passed by wrapping around. For every start address
  past the end of user memory there is a size with which the check accepts the segment.\<close>

theorem elf_range_check_wraps:
  assumes "UMEM_END_VMA \<le> v" and "v < 2 ^ 64" and "p_vaddr ph = v" and "p_filesz ph = 0"
    and "p_memsz ph = 2 ^ 64 - v"
  shows "phdr_range_ok ph"
proof -
  have "v + (2 ^ 64 - v) = 2 ^ 64" using assms(2) by simp
  then show ?thesis using assms by (simp add: phdr_range_ok_def u64_def UMEM_START_VMA_def UMEM_END_VMA_def)
qed

theorem elf_range_check_wraps_witness:
  "phdr_range_ok \<lparr>p_type = 1, p_flags = 6, p_offset = 0, p_vaddr = 0xFFFFFFFFFFFFF000, p_filesz = 0, p_memsz = 4096\<rparr>"
  by (rule elf_range_check_wraps [of "0xFFFFFFFFFFFFF000"]) (simp_all add: UMEM_END_VMA_def)

end
