(* ===== verification/Syscall.thy ===== *)
theory Syscall
  imports Fdtab Build_Stack Elf
begin

text \<open>
  Execution of a new program, \<open>process_exec\<close> of kernel/process.c, and the dispatch of system calls
  of kernel/syscall.c. Next to the state of \<open>Process\<close> there is the memory of the process, as in
  \<open>Elf\<close>, from which the calls take the strings and buffers of the caller. Services with a state of
  their own, the file system, the console and the timer, are arguments: their models are in
  \<open>Ktfs_Create\<close>, \<open>Console\<close> and \<open>Timer\<close>.
\<close>

subsection \<open>The caller's memory\<close>

text \<open>A string; a memory without a terminator is read forever.\<close>

partial_function (option) ustr :: "umem \<Rightarrow> 64 word \<Rightarrow> byte list option" where
  "ustr um a = (if um a = 0 then Some [] else Option.bind (ustr um (a + 1)) (\<lambda>r. Some (um a # r)))"

definition ubytes :: "umem \<Rightarrow> nat \<Rightarrow> nat \<Rightarrow> byte list" where
  "ubytes um a n = map (\<lambda>i. um (word_of_nat (a + i))) [0..<n]"

text \<open>A terminated string for a pointer that is not null.\<close>

definition ucstr :: "umem \<Rightarrow> nat \<Rightarrow> cstr option option" where
  "ucstr um a = (if a = 0 then Some None else map_option (\<lambda>r. Some (r @ [0])) (ustr um (word_of_nat a)))"

definition uint_at :: "umem \<Rightarrow> nat \<Rightarrow> int option" where
  "uint_at um a = (if a = 0 then None else Some (cint (int (le_nat (ubytes um a 4)))))"

definition reg_int :: "nat \<Rightarrow> int" where
  "reg_int r = cint (int r)"

subsection \<open>Execution of a program\<close>

datatype exec_res = Exec_rc int | Exec_jump trap_frame

text \<open>The positions of the bits as riscv.h has them.\<close>

definition RISCV_SSTATUS_SPIE :: nat where "RISCV_SSTATUS_SPIE = 3"
definition RISCV_SSTATUS_SPP :: nat where "RISCV_SSTATUS_SPP = 8"

text \<open>
  The arguments, read in the memory space of the process. For a null pointer the code copies the
  byte at address 0, in the region of devices: there is no result.
\<close>

definition arg_at :: "umem \<Rightarrow> nat \<Rightarrow> nat \<Rightarrow> byte list option" where
  "arg_at um argv i =
     (let p = le_nat (ubytes um (argv + 8 * i) 8) in if p = 0 then None else ustr um (word_of_nat p))"

definition stack_top :: nat where "stack_top = UMEM_END_VMA - PAGE_SIZE"

definition exec_frame :: "nat \<Rightarrow> nat \<Rightarrow> int \<Rightarrow> int \<Rightarrow> trap_frame" where
  "exec_frame sst entry stksz argc =
     (let p = UMEM_END_VMA - nat stksz
      in \<lparr>a0 = ull argc, a1 = p, a2 = 0, a7 = 0, sp = p,
          sstatus = set_bit RISCV_SSTATUS_SPIE (unset_bit RISCV_SSTATUS_SPP sst), sepc = entry, rest = (\<lambda>_. 0)\<rparr>)"

text \<open>The new stack page reads as zeros, and so does the place of a page that has been freed.\<close>

definition drop_stack :: "int \<Rightarrow> 'd kstate \<Rightarrow> umem \<Rightarrow> (exec_res \<times> 'd kstate \<times> umem) option" where
  "drop_stack c s um =
     do {
       (_, s) \<leftarrow> with_mem (no_result (unmap_and_free_range stack_top PAGE_SIZE)) s;
       Some (Exec_rc c, s, put_zeros stack_top PAGE_SIZE um)
     }"

definition exec_stack ::
  "nat \<Rightarrow> nat \<Rightarrow> int \<Rightarrow> nat \<Rightarrow> 'd kstate \<Rightarrow> umem \<Rightarrow> (exec_res \<times> 'd kstate \<times> umem) option"
where
  "exec_stack sst entry argc argv s um =
     (if ull argc \<le> PAGE_SIZE div 8 - 1 \<and> (\<exists>i\<in>set [0..<nat argc]. arg_at um argv i = None) then None
      else do {
        (stksz, page) \<leftarrow> build_stack argc (\<lambda>i. the (arg_at um argv i)) (ubytes um stack_top PAGE_SIZE);
        if stksz < 0 then drop_stack stksz s um
        else Some (Exec_jump (exec_frame sst entry stksz argc), s, put_bytes stack_top page um)
      })"

definition process_exec ::
  "nat \<Rightarrow> nat option \<Rightarrow> int \<Rightarrow> nat \<Rightarrow> 'd kstate \<Rightarrow> umem \<Rightarrow> (exec_res \<times> 'd kstate \<times> umem) option"
where
  "process_exec sst exeio argc argv s um =
     (case (current_process s, exeio) of
        (Some _, Some ob) \<Rightarrow> do {
          (spp, s) \<leftarrow> with_mem alloc_phys_page s;
          if spp = 0 then Some (Exec_rc (- ENOMEM), s, um)
          else do {
            (_, s) \<leftarrow> with_mem (\<lambda>m. Some ((), zero_page spp m)) s;
            (v, s) \<leftarrow> with_mem (map_page stack_top spp (PTE_R OR PTE_W OR PTE_U)) s;
            if v = 0
            then do {
              (_, s) \<leftarrow> with_mem (\<lambda>m. Some ((), free_phys_page spp m)) s;
              Some (Exec_rc (- ENOMEM), s, um)
            }
            else do {
              let um = put_zeros stack_top PAGE_SIZE um;
              ((c, entry), um, io) \<leftarrow> elf_load (Some (ios s ob)) True um;
              let s = s\<lparr>ios := (ios s)(ob := the io)\<rparr>;
              if c \<noteq> 0 then drop_stack c s um
              else exec_stack sst (the entry) argc argv s um
            }
          }
        }
      | _ \<Rightarrow> Some (Exec_rc (- EINVAL), s, um))"

subsection \<open>The other calls\<close>

record 'd services =
  sv_devtab :: "(int \<Rightarrow> 'd kstate \<Rightarrow> 'd opened option) devtab"
  sv_fsopen :: "cstr \<Rightarrow> 'd kstate \<Rightarrow> 'd opened option"
  sv_fscreate :: "cstr \<Rightarrow> 'd kstate \<Rightarrow> (int \<times> 'd kstate) option"
  sv_fsdelete :: "cstr \<Rightarrow> 'd kstate \<Rightarrow> (int \<times> 'd kstate) option"
  sv_print :: "cstr \<Rightarrow> 'd kstate \<Rightarrow> 'd kstate option"
  sv_sleep :: "nat \<Rightarrow> 'd kstate \<Rightarrow> (unit outcome \<times> 'd kstate) option"
  sv_pipe :: "'d pipe_args"
  sv_ra :: nat
  sv_cv :: nat
  sv_sstatus :: nat

text \<open>
  How a call ends: it returns a code; or the caller waits, and the call goes on when it runs
  again; or the caller is gone; or a new program starts with the given registers.
\<close>

datatype sc_res = Ret int | Waits | Gone "unit outcome" | Jumps trap_frame

type_synonym 'd sc = "(sc_res \<times> 'd kstate \<times> umem) option"

definition ret :: "umem \<Rightarrow> (int \<times> 'd kstate) option \<Rightarrow> 'd sc" where
  "ret um r = map_option (\<lambda>(c, s). (Ret c, s, um)) r"

definition sysexit :: "nat \<Rightarrow> 'd kstate \<Rightarrow> umem \<Rightarrow> 'd sc" where
  "sysexit ra s um = map_option (\<lambda>(u, s). (Gone u, s, um)) (process_exit ra s)"

definition sysexec :: "nat \<Rightarrow> int \<Rightarrow> int \<Rightarrow> nat \<Rightarrow> 'd kstate \<Rightarrow> umem \<Rightarrow> 'd sc" where
  "sysexec sst fd argc argv s um =
     (case fd_to_io fd s of
        None \<Rightarrow> Some (Ret (- EINVAL), s, um)
      | Some ob \<Rightarrow>
          map_option (\<lambda>(r, s, um). (case r of Exec_rc c \<Rightarrow> Ret c | Exec_jump f \<Rightarrow> Jumps f, s, um))
            (process_exec sst (Some ob) argc argv s um))"

definition syswait :: "int \<Rightarrow> 'd kstate \<Rightarrow> umem \<Rightarrow> 'd sc" where
  "syswait t s um =
     map_option (\<lambda>(r, s). (case r of Returned c \<Rightarrow> Ret c | Blocked \<Rightarrow> Waits, s, um))
       (with_thr (thread_join t) s)"

definition sysprint :: "(cstr \<Rightarrow> 'd kstate \<Rightarrow> 'd kstate option) \<Rightarrow> cstr option \<Rightarrow> 'd kstate \<Rightarrow> (int \<times> 'd kstate) option" where
  "sysprint print msg s =
     (case msg of None \<Rightarrow> Some (- EINVAL, s) | Some msg \<Rightarrow> map_option (Pair 0) (print msg s))"

definition sysusleep :: "(nat \<Rightarrow> 'd kstate \<Rightarrow> (unit outcome \<times> 'd kstate) option) \<Rightarrow> nat \<Rightarrow> 'd kstate \<Rightarrow> umem \<Rightarrow> 'd sc" where
  "sysusleep sleep_us us s um =
     map_option (\<lambda>(r, s). (case r of Returned _ \<Rightarrow> Ret 0 | Blocked \<Rightarrow> Waits, s, um)) (sleep_us us s)"

definition sysfscreate :: "(cstr \<Rightarrow> 'd kstate \<Rightarrow> (int \<times> 'd kstate) option) \<Rightarrow> cstr option \<Rightarrow> 'd kstate \<Rightarrow> (int \<times> 'd kstate) option" where
  "sysfscreate create name s = (case name of None \<Rightarrow> Some (- EINVAL, s) | Some name \<Rightarrow> create name s)"

definition sysfsdelete :: "(cstr \<Rightarrow> 'd kstate \<Rightarrow> (int \<times> 'd kstate) option) \<Rightarrow> cstr option \<Rightarrow> 'd kstate \<Rightarrow> (int \<times> 'd kstate) option" where
  "sysfsdelete delete name s = (case name of None \<Rightarrow> Some (- EINVAL, s) | Some name \<Rightarrow> delete name s)"

definition sysfork :: "nat \<Rightarrow> nat \<Rightarrow> trap_frame \<Rightarrow> 'd kstate \<Rightarrow> umem \<Rightarrow> 'd sc" where
  "sysfork ra cv tfr s um =
     map_option (\<lambda>(r, s). (case r of Fork_rc c \<Rightarrow> Ret c | Fork_waits _ \<Rightarrow> Waits, s, um))
       (process_fork ra cv (Some tfr) s)"

subsection \<open>Dispatch\<close>

definition SYSCALL_EXIT :: int where "SYSCALL_EXIT = 0"
definition SYSCALL_EXEC :: int where "SYSCALL_EXEC = 1"
definition SYSCALL_FORK :: int where "SYSCALL_FORK = 2"
definition SYSCALL_WAIT :: int where "SYSCALL_WAIT = 3"
definition SYSCALL_PRINT :: int where "SYSCALL_PRINT = 4"
definition SYSCALL_USLEEP :: int where "SYSCALL_USLEEP = 5"
definition SYSCALL_DEVOPEN :: int where "SYSCALL_DEVOPEN = 10"
definition SYSCALL_FSOPEN :: int where "SYSCALL_FSOPEN = 11"
definition SYSCALL_FSCREATE :: int where "SYSCALL_FSCREATE = 12"
definition SYSCALL_FSDELETE :: int where "SYSCALL_FSDELETE = 13"
definition SYSCALL_CLOSE :: int where "SYSCALL_CLOSE = 16"
definition SYSCALL_READ :: int where "SYSCALL_READ = 17"
definition SYSCALL_WRITE :: int where "SYSCALL_WRITE = 18"
definition SYSCALL_IOCTL :: int where "SYSCALL_IOCTL = 19"
definition SYSCALL_PIPE :: int where "SYSCALL_PIPE = 20"
definition SYSCALL_IODUP :: int where "SYSCALL_IODUP = 21"

lemmas scnum_defs = SYSCALL_EXIT_def SYSCALL_EXEC_def SYSCALL_FORK_def SYSCALL_WAIT_def
  SYSCALL_PRINT_def SYSCALL_USLEEP_def SYSCALL_DEVOPEN_def SYSCALL_FSOPEN_def SYSCALL_FSCREATE_def
  SYSCALL_FSDELETE_def SYSCALL_CLOSE_def SYSCALL_READ_def SYSCALL_WRITE_def SYSCALL_IOCTL_def
  SYSCALL_PIPE_def SYSCALL_IODUP_def

definition read_call :: "int \<Rightarrow> nat \<Rightarrow> nat \<Rightarrow> 'd kstate \<Rightarrow> umem \<Rightarrow> 'd sc" where
  "read_call fd buf n s um = map_option (\<lambda>((c, bs), s). (Ret c, s, put_bytes buf bs um)) (sysread fd n s)"

definition ioctl_call :: "int \<Rightarrow> int \<Rightarrow> nat \<Rightarrow> 'd kstate \<Rightarrow> umem \<Rightarrow> 'd sc" where
  "ioctl_call fd cmd arg s um =
     map_option (\<lambda>((c, v), s). (Ret c, s, case v of None \<Rightarrow> um | Some v \<Rightarrow> put_bytes arg (nat_le 8 v) um))
       (sysioctl fd cmd (if arg = 0 then None else Some (le_nat (ubytes um arg 8))) s)"

definition pipe_call :: "'d pipe_args \<Rightarrow> nat \<Rightarrow> nat \<Rightarrow> 'd kstate \<Rightarrow> umem \<Rightarrow> 'd sc" where
  "pipe_call a wp rp s um =
     (case syspipe a (uint_at um wp) (uint_at um rp) s of (c, r, s) \<Rightarrow>
        Some (Ret c, s,
          case r of None \<Rightarrow> um
          | Some (w, r) \<Rightarrow> put_bytes rp (nat_le 4 (nat r)) (put_bytes wp (nat_le 4 (nat w)) um)))"

definition syscall :: "'d services \<Rightarrow> trap_frame \<Rightarrow> 'd kstate \<Rightarrow> umem \<Rightarrow> 'd sc" where
  "syscall sv tfr s um =
     (let n = reg_int (a7 tfr); i0 = reg_int (a0 tfr); i1 = reg_int (a1 tfr)
      in if n = SYSCALL_EXIT then sysexit (sv_ra sv) s um
         else if n = SYSCALL_EXEC then sysexec (sv_sstatus sv) i0 i1 (a2 tfr) s um
         else if n = SYSCALL_WAIT then syswait i0 s um
         else if n = SYSCALL_PRINT then Option.bind (ucstr um (a0 tfr)) (\<lambda>m. ret um (sysprint (sv_print sv) m s))
         else if n = SYSCALL_USLEEP then sysusleep (sv_sleep sv) (a0 tfr) s um
         else if n = SYSCALL_DEVOPEN
         then Option.bind (ucstr um (a1 tfr)) (\<lambda>m. ret um (sysdevopen (sv_devtab sv) i0 m (reg_int (a2 tfr)) s))
         else if n = SYSCALL_FSOPEN then Option.bind (ucstr um (a1 tfr)) (\<lambda>m. ret um (sysfsopen (sv_fsopen sv) i0 m s))
         else if n = SYSCALL_FSCREATE then Option.bind (ucstr um (a0 tfr)) (\<lambda>m. ret um (sysfscreate (sv_fscreate sv) m s))
         else if n = SYSCALL_FSDELETE then Option.bind (ucstr um (a0 tfr)) (\<lambda>m. ret um (sysfsdelete (sv_fsdelete sv) m s))
         else if n = SYSCALL_CLOSE then ret um (sysclose i0 s)
         else if n = SYSCALL_READ then read_call i0 (a1 tfr) (a2 tfr) s um
         else if n = SYSCALL_WRITE then ret um (syswrite i0 (ubytes um (a1 tfr) (a2 tfr)) (a2 tfr) s)
         else if n = SYSCALL_IOCTL then ioctl_call i0 i1 (a2 tfr) s um
         else if n = SYSCALL_FORK then sysfork (sv_ra sv) (sv_cv sv) tfr s um
         else if n = SYSCALL_PIPE then pipe_call (sv_pipe sv) (a0 tfr) (a1 tfr) s um
         else if n = SYSCALL_IODUP then ret um (sysiodup i0 i1 s)
         else Some (Ret (- ENOTSUP), s, um))"

definition handle_syscall ::
  "'d services \<Rightarrow> trap_frame \<Rightarrow> 'd kstate \<Rightarrow> umem \<Rightarrow> (trap_frame \<times> sc_res \<times> 'd kstate \<times> umem) option"
where
  "handle_syscall sv tfr s um =
     do {
       let tfr = tfr\<lparr>sepc := u64 (sepc tfr + 4)\<rparr>;
       (r, s, um) \<leftarrow> syscall sv tfr s um;
       Some (case r of Ret c \<Rightarrow> tfr\<lparr>a0 := ull c\<rparr> | _ \<Rightarrow> tfr, r, s, um)
     }"

subsection \<open>Exceptions\<close>

definition RISCV_SCAUSE_ECALL_FROM_UMODE :: nat where "RISCV_SCAUSE_ECALL_FROM_UMODE = 8"
definition RISCV_SCAUSE_INSTR_PAGE_FAULT :: nat where "RISCV_SCAUSE_INSTR_PAGE_FAULT = 12"
definition RISCV_SCAUSE_LOAD_PAGE_FAULT :: nat where "RISCV_SCAUSE_LOAD_PAGE_FAULT = 13"
definition RISCV_SCAUSE_STORE_PAGE_FAULT :: nat where "RISCV_SCAUSE_STORE_PAGE_FAULT = 15"

definition page_fault :: "nat \<Rightarrow> bool" where
  "page_fault cause \<longleftrightarrow>
     cause = RISCV_SCAUSE_LOAD_PAGE_FAULT \<or> cause = RISCV_SCAUSE_STORE_PAGE_FAULT \<or>
     cause = RISCV_SCAUSE_INSTR_PAGE_FAULT"

text \<open>\<open>vma\<close> is the value of \<open>stval\<close>. What is not handled is a panic; its message is not modelled.\<close>

definition handle_smode_exception :: "nat \<Rightarrow> nat \<Rightarrow> 'd kstate \<Rightarrow> 'd kstate option" where
  "handle_smode_exception cause vma s =
     (if page_fault cause
      then do {
        (r, s) \<leftarrow> with_mem (handle_umode_page_fault vma) s;
        if r \<noteq> 0 then Some s else None
      }
      else None)"

definition handle_umode_exception ::
  "'d services \<Rightarrow> nat \<Rightarrow> nat \<Rightarrow> trap_frame \<Rightarrow> 'd kstate \<Rightarrow> umem \<Rightarrow> (trap_frame \<times> sc_res option \<times> 'd kstate \<times> umem) option"
where
  "handle_umode_exception sv cause vma tfr s um =
     (if cause = RISCV_SCAUSE_ECALL_FROM_UMODE
      then map_option (\<lambda>(tfr, r, s, um). (tfr, Some r, s, um)) (handle_syscall sv tfr s um)
      else if page_fault cause
      then do {
        (r, s) \<leftarrow> with_mem (handle_umode_page_fault vma) s;
        if r \<noteq> 0 then Some (tfr, None, s, um) else None
      }
      else None)"

subsection \<open>Every call keeps the reference counts\<close>

text \<open>
  What the services do: an open returns an object with one new reference, and the others leave
  reference counts and processes alone. The ends of the next pipe are fresh.
\<close>

definition keeps_refs :: "('d kstate \<Rightarrow> ('a \<times> 'd kstate) option) \<Rightarrow> bool" where
  "keeps_refs f \<longleftrightarrow>
     (\<forall>s a s'. f s = Some (a, s') \<longrightarrow> proctab s' = proctab s \<and> refcount (ios s') = refcount (ios s))"

definition services_ok :: "'d services \<Rightarrow> bool" where
  "services_ok sv \<longleftrightarrow>
     (\<forall>n i f. open_device n i (sv_devtab sv) = Some (Inr f) \<longrightarrow> (\<forall>j. opens (f j))) \<and>
     (\<forall>n. opens (sv_fsopen sv n)) \<and> (\<forall>n. keeps_refs (sv_fscreate sv n)) \<and>
     (\<forall>n. keeps_refs (sv_fsdelete sv n)) \<and> (\<forall>n. keeps_refs (no_result (sv_print sv n))) \<and>
     (\<forall>n. keeps_refs (sv_sleep sv n))"

lemma fd_inv_refs:
  "fd_inv s X \<Longrightarrow> refcount (ios s') = refcount (ios s) \<Longrightarrow> proctab s' = proctab s \<Longrightarrow> fd_inv s' X"
  by (simp add: fd_inv_def balanced_def)

lemma keeps_refs_inv: "keeps_refs f \<Longrightarrow> f s = Some (a, s') \<Longrightarrow> fd_inv s X \<Longrightarrow> fd_inv s' X"
  unfolding keeps_refs_def using fd_inv_refs by blast

lemma with_mem_inv: "with_mem f s = Some (a, s') \<Longrightarrow> fd_inv s X \<Longrightarrow> fd_inv s' X"
  using fd_inv_frame [of s X s'] with_mem_frame [of f s a s'] by simp

lemma with_thr_inv: "with_thr f s = Some (a, s') \<Longrightarrow> fd_inv s X \<Longrightarrow> fd_inv s' X"
  using fd_inv_frame [of s X s'] with_thr_frame [of f s a s'] by simp

lemma readat_refcnt: "ioreadat io p n = Some (a, io') \<Longrightarrow> refcnt io' = refcnt io"
  by (auto simp: ioreadat_def split: option.splits if_splits)

lemma load_segment_refcnt: "load_segment ph io mm = Some (c, mm', io') \<Longrightarrow> refcnt io' = refcnt io"
  by (auto simp: load_segment_def split: if_splits bind_splits dest!: readat_refcnt)

lemma load_segments_refcnt: "load_segments off is io mm = Some (c, mm', io') \<Longrightarrow> refcnt io' = refcnt io"
proof (induction "is" arbitrary: io mm)
  case (Cons i "is")
  then obtain n bs io1 where r: "ioreadat io (u64 (off + i * PHDRSZ)) (int PHDRSZ) = Some ((n, bs), io1)"
    by (cases "ioreadat io (u64 (off + i * PHDRSZ)) (int PHDRSZ)") auto
  have e: "refcnt io1 = refcnt io" using r by (rule readat_refcnt)
  show ?case
  proof (cases "n = int PHDRSZ")
    case True
    then obtain d m2 io2 where l: "load_segment (decode_phdr bs) io1 mm = Some (d, m2, io2)"
      using Cons.prems r by (cases "load_segment (decode_phdr bs) io1 mm") auto
    show ?thesis using Cons.prems Cons.IH [of io2 m2] r True l e load_segment_refcnt [OF l]
      by (auto split: if_splits)
  qed (use Cons.prems r e in auto)
qed simp

lemma elf_load_refcnt:
  assumes "elf_load (Some io) True mm = Some (r, mm', io')"
  shows "\<exists>io1. io' = Some io1 \<and> refcnt io1 = refcnt io"
proof -
  obtain n bs io1 where r: "ioreadat io 0 (int EHDRSZ) = Some ((n, bs), io1)"
    using assms by (cases "ioreadat io 0 (int EHDRSZ)") (auto simp: elf_load_def)
  show ?thesis
    using assms r readat_refcnt [OF r]
    by (auto simp: elf_load_def Let_def split: if_splits bind_splits dest!: load_segments_refcnt)
qed

lemma drop_stack_inv: "drop_stack c s um = Some (r, s', um') \<Longrightarrow> fd_inv s X \<Longrightarrow> fd_inv s' X"
  by (auto simp: drop_stack_def split: bind_splits dest!: with_mem_inv)

lemma exec_stack_inv:
  "exec_stack sst entry argc argv s um = Some (r, s', um') \<Longrightarrow> fd_inv s X \<Longrightarrow> fd_inv s' X"
  by (auto simp: exec_stack_def split: if_splits bind_splits dest: drop_stack_inv)

lemma process_exec_inv:
  assumes r: "process_exec sst exeio argc argv s um = Some (r, s', um')" and inv: "fd_inv s X"
  shows "fd_inv s' X"
proof (cases "current_process s = None \<or> exeio = None")
  case True
  then show ?thesis using r inv by (auto simp: process_exec_def split: option.splits)
next
  case False
  then obtain p ob where p: "current_process s = Some p" "exeio = Some ob" by auto
  obtain spp s1 where s1: "with_mem alloc_phys_page s = Some (spp, s1)"
    using r p by (cases "with_mem alloc_phys_page s") (auto simp: process_exec_def)
  have i1: "fd_inv s1 X" using with_mem_inv [OF s1 inv] .
  show ?thesis
  proof (cases "spp = 0")
    case True
    then show ?thesis using r p s1 i1 by (simp add: process_exec_def)
  next
    case False
    obtain s2 where s2: "with_mem (\<lambda>m. Some ((), zero_page spp m)) s1 = Some ((), s2)"
      by (simp add: with_mem_def)
    have i2: "fd_inv s2 X" using with_mem_inv [OF s2 i1] .
    obtain v s3 where s3: "with_mem (map_page stack_top spp (PTE_R OR PTE_W OR PTE_U)) s2 = Some (v, s3)"
      using r p s1 False s2
      by (cases "with_mem (map_page stack_top spp (PTE_R OR PTE_W OR PTE_U)) s2") (auto simp: process_exec_def)
    have i3: "fd_inv s3 X" using with_mem_inv [OF s3 i2] .
    show ?thesis
    proof (cases "v = 0")
      case True
      then show ?thesis using r p s1 False s2 s3 with_mem_inv [OF _ i3]
        by (auto simp: process_exec_def split: bind_splits)
    next
      case v: False
      let ?um = "put_zeros stack_top PAGE_SIZE um"
      obtain c e um1 io where l: "elf_load (Some (ios s3 ob)) True ?um = Some ((c, e), um1, io)"
        using r p s1 False s2 s3 v
        by (cases "elf_load (Some (ios s3 ob)) True ?um") (auto simp: process_exec_def Let_def)
      let ?s = "s3\<lparr>ios := (ios s3)(ob := the io)\<rparr>"
      have "refcount (ios ?s) = refcount (ios s3)"
        using elf_load_refcnt [OF l] by (auto simp: refcount_def)
      then have "fd_inv ?s X" by (rule fd_inv_refs [OF i3]) simp
      then show ?thesis using r p s1 False s2 s3 v l drop_stack_inv exec_stack_inv
        by (auto simp: process_exec_def Let_def split: if_splits)
    qed
  qed
qed

lemma ret_inv:
  assumes "ret um f = Some (r, s', um')" "\<And>c. f = Some (c, s') \<Longrightarrow> fd_inv s' X"
  shows "fd_inv s' X"
  using assms by (auto simp: ret_def)

text \<open>The calls one by one; those on descriptors are in \<open>Fdtab\<close>.\<close>

lemma sysexit_inv: "fd_inv s X \<Longrightarrow> sysexit ra s um = Some (r, s', um') \<Longrightarrow> fd_inv s' X"
  by (auto simp: sysexit_def elim: process_exit_inv)

lemma sysexec_inv:
  assumes "fd_inv s X" "sysexec sst fd argc argv s um = Some (r, s', um')"
  shows "fd_inv s' X"
proof (cases "fd_to_io fd s")
  case (Some ob)
  then obtain q where "process_exec sst (Some ob) argc argv s um = Some (q, s', um')"
    using assms(2) by (auto simp: sysexec_def)
  then show ?thesis by (rule process_exec_inv) (rule assms(1))
qed (use assms in \<open>simp add: sysexec_def\<close>)

lemma syswait_inv: "fd_inv s X \<Longrightarrow> syswait t s um = Some (r, s', um') \<Longrightarrow> fd_inv s' X"
  by (auto simp: syswait_def elim: with_thr_inv)

lemma sysfork_inv: "fd_inv s X \<Longrightarrow> sysfork ra cv tfr s um = Some (r, s', um') \<Longrightarrow> fd_inv s' X"
  by (auto simp: sysfork_def elim: process_fork_inv)

lemma sysusleep_inv:
  "fd_inv s X \<Longrightarrow> keeps_refs (sleep n) \<Longrightarrow> sysusleep sleep n s um = Some (r, s', um') \<Longrightarrow> fd_inv s' X"
  by (auto simp: sysusleep_def elim: keeps_refs_inv)

lemma sysprint_inv:
  assumes "fd_inv s X" "\<And>n. keeps_refs (no_result (print n))" "sysprint print m s = Some (c, s')"
  shows "fd_inv s' X"
proof (cases m)
  case (Some n)
  then have "no_result (print n) s = Some ((), s')" using assms(3) by (auto simp: sysprint_def no_result_def)
  then show ?thesis using keeps_refs_inv [OF assms(2)] assms(1) by blast
qed (use assms in \<open>simp add: sysprint_def\<close>)

lemma sysfs_inv:
  assumes "fd_inv s X" "\<And>n. keeps_refs (f n)"
  shows "sysfscreate f m s = Some (c, s') \<Longrightarrow> fd_inv s' X" "sysfsdelete f m s = Some (c, s') \<Longrightarrow> fd_inv s' X"
  using assms keeps_refs_inv [OF assms(2), of _ s c s' X]
  by (auto simp: sysfscreate_def sysfsdelete_def split: option.splits)

lemma read_call_inv: "fd_inv s X \<Longrightarrow> read_call fd buf n s um = Some (r, s', um') \<Longrightarrow> fd_inv s' X"
  by (auto simp: read_call_def elim: sysread_inv)

lemma ioctl_call_inv: "fd_inv s X \<Longrightarrow> ioctl_call fd cmd arg s um = Some (r, s', um') \<Longrightarrow> fd_inv s' X"
  by (auto simp: ioctl_call_def elim: sysioctl_inv)

lemma pipe_call_inv:
  assumes "fd_inv s X" "fresh_ends a s" "pipe_call a wp rp s um = Some (r, s', um')"
  shows "fd_inv s' X"
proof -
  obtain c q where "syspipe a (uint_at um wp) (uint_at um rp) s = (c, q, s')"
    using assms(3) by (auto simp: pipe_call_def split: prod.splits)
  then show ?thesis by (rule syspipe_inv [OF assms(1,2)])
qed

lemma bind_ret_inv:
  assumes "Option.bind q (\<lambda>m. ret um (f m)) = Some (r, s', um')" "\<And>m c. f m = Some (c, s') \<Longrightarrow> fd_inv s' X"
  shows "fd_inv s' X"
  using assms by (auto simp: bind_eq_Some_conv ret_def)

lemma syscall_inv:
  assumes inv: "fd_inv s X" and sv: "services_ok sv" and fe: "fresh_ends (sv_pipe sv) s"
    and r: "syscall sv tfr s um = Some (r, s', um')"
  shows "fd_inv s' X"
proof -
  have dev: "\<And>n f i. open_device n i (sv_devtab sv) = Some (Inr f) \<Longrightarrow> opens (f i)"
    and fs: "\<And>n. opens (sv_fsopen sv n)" and cr: "\<And>n. keeps_refs (sv_fscreate sv n)"
    and de: "\<And>n. keeps_refs (sv_fsdelete sv n)" and pr: "\<And>n. keeps_refs (no_result (sv_print sv n))"
    and sl: "\<And>n. keeps_refs (sv_sleep sv n)"
    using sv by (auto simp: services_ok_def)
  have dv: "sysdevopen (sv_devtab sv) fd nm i s = Some (e, s1) \<Longrightarrow> fd_inv s1 X" for fd nm i e s1
    by (rule sysdevopen_inv [OF inv, of nm "sv_devtab sv" fd i e s1]) (auto intro: dev)
  note calls = sysexit_inv [OF inv] sysexec_inv [OF inv] syswait_inv [OF inv] sysfork_inv [OF inv]
    sysusleep_inv [OF inv sl] read_call_inv [OF inv] ioctl_call_inv [OF inv] pipe_call_inv [OF inv fe]
  note rets = sysprint_inv [OF inv pr] dv sysfsopen_inv [OF inv fs]
    sysfs_inv(1) [OF inv cr] sysfs_inv(2) [OF inv de] sysclose_inv [OF inv] syswrite_inv [OF inv]
    sysiodup_inv [OF inv]
  show ?thesis
    using r inv unfolding syscall_def Let_def
    by (simp split: if_split_asm)
      (rule calls ret_inv bind_ret_inv, assumption, (rule rets, assumption)?)+
qed


definition demo_services :: "unit services" where
  "demo_services =
     \<lparr>sv_devtab = [], sv_fsopen = (\<lambda>_ _. None), sv_fscreate = (\<lambda>_ s. Some (- EINVAL, s)),
      sv_fsdelete = (\<lambda>_ s. Some (- EINVAL, s)), sv_print = (\<lambda>_ s. Some s),
      sv_sleep = (\<lambda>_ s. Some (Returned (), s)), sv_pipe = demo_pipe, sv_ra = 0, sv_cv = 9, sv_sstatus = 0\<rparr>"

definition demo_frame :: "nat \<Rightarrow> nat \<Rightarrow> trap_frame" where
  "demo_frame n x = \<lparr>a0 = x, a1 = 0, a2 = 0, a7 = n, sp = 0, sstatus = 0, sepc = 0, rest = (\<lambda>_. 0)\<rparr>"

definition demo_booted :: "unit kstate" where
  "demo_booted = the (procmgr_init True 0 demo_k)"

lemma demo_services_ok: "services_ok demo_services"
  by (simp add: services_ok_def demo_services_def open_device_def opens_def keeps_refs_def no_result_def)

lemma demo_booted_inv: "fd_inv demo_booted (\<lambda>_. 0)"
proof -
  have "refcount (ios demo_k) = (\<lambda>_. 0)" by (simp add: demo_simps refcount_def fun_eq_iff)
  then show ?thesis using procmgr_init_inv [OF demo_init] by (simp add: demo_booted_def)
qed


subsection \<open>Errors\<close>

lemma put_back: "n \<le> 2 ^ 64 \<Longrightarrow> put_bytes a (ubytes um a n) um = um"
  by (rule ext) (auto simp: put_bytes_def ubytes_def Let_def)

lemma put_back_word: "put_bytes a (nat_le 8 (le_nat (ubytes um a 8))) um = um"
proof -
  have "nat_le 8 (le_nat (ubytes um a 8)) = ubytes um a 8"
    using nat_le_le_nat [of "ubytes um a 8"] by (simp add: ubytes_def)
  then show ?thesis using put_back [of 8 a um] by simp
qed

lemma ull_EINVAL: "ull (- EINVAL) = 18446744073709551615"
  by (simp add: ull_def EINVAL_def)

lemma bad_fd_calls:
  assumes "fd_to_io fd s = None"
  shows "sysclose fd s = Some (- EINVAL, s)" "read_call fd buf n s um = Some (Ret (- EINVAL), s, um)"
    "syswrite fd bs n s = Some (- EINVAL, s)" "ioctl_call fd cmd arg s um = Some (Ret (- EINVAL), s, um)"
    "sysexec sst fd argc argv s um = Some (Ret (- EINVAL), s, um)"
  using assms put_back_word [of arg um]
  by (auto simp: sysclose_def fd_to_io_def read_call_def sysread_def syswrite_def ioctl_call_def
      sysioctl_def sysexec_def put_none split: if_splits option.splits)





text \<open>The bit \<open>SPIE\<close> of the architecture, number 5, is not what \<open>process_exec\<close> sets.\<close>

lemma exec_frame_spie: "bit (sstatus (exec_frame sst entry stksz argc)) 5 = bit sst 5"
  by (simp add: exec_frame_def Let_def RISCV_SSTATUS_SPIE_def RISCV_SSTATUS_SPP_def bit_simps)

end
