(* ===== verification/Virtio.thy ===== *)
theory Virtio
  imports Prelude
begin

text \<open>
  The VirtIO transport of kernel/dev/virtio.h and kernel/dev/virtio.c: the memory-mapped registers,
  feature negotiation, the setup of a queue and the choice of a driver. The registers behind a
  selector are functions of it, and so are those of a queue. \<open>offered\<close> are the features of the
  device and \<open>accepts\<close> says whether it keeps \<open>FEATURES_OK\<close> set: both belong to the device.
\<close>

unbundle bit_operations_syntax

subsection \<open>Registers\<close>

definition VIRTIO_STAT_ACKNOWLEDGE :: "32 word" where "VIRTIO_STAT_ACKNOWLEDGE = push_bit 0 1"
definition VIRTIO_STAT_DRIVER :: "32 word" where "VIRTIO_STAT_DRIVER = push_bit 1 1"
definition VIRTIO_STAT_FEATURES_OK :: "32 word" where "VIRTIO_STAT_FEATURES_OK = push_bit 3 1"
definition VIRTIO_STAT_DRIVER_OK :: "32 word" where "VIRTIO_STAT_DRIVER_OK = push_bit 2 1"
definition VIRTIO_FEATLEN :: nat where "VIRTIO_FEATLEN = 4"
definition VIRTIO_MAGIC :: nat where "VIRTIO_MAGIC = 0x74726976"
definition VIRTIO_ID_NONE :: nat where "VIRTIO_ID_NONE = 0"
definition VIRTIO_ID_BLOCK :: nat where "VIRTIO_ID_BLOCK = 2"
definition VIRTIO_ID_CONSOLE :: nat where "VIRTIO_ID_CONSOLE = 3"
definition VIRTIO_ID_RNG :: nat where "VIRTIO_ID_RNG = 4"
definition VIRTIO_ID_GPU :: nat where "VIRTIO_ID_GPU = 16"
definition VIRTQ_DESC_F_NEXT :: nat where "VIRTQ_DESC_F_NEXT = push_bit 0 1"
definition VIRTQ_DESC_F_WRITE :: nat where "VIRTQ_DESC_F_WRITE = push_bit 1 1"

record virtio_mmio_regs =
  magic_value :: nat
  version :: nat
  device_id :: nat
  offered :: "nat \<Rightarrow> 32 word"
  accepts :: bool
  device_features_sel :: nat
  driver_features :: "nat \<Rightarrow> 32 word"
  driver_features_sel :: nat
  queue_sel :: nat
  queue_num :: "nat \<Rightarrow> nat"
  queue_ready :: "nat \<Rightarrow> nat"
  queue_notify :: "nat list"
  interrupt_status :: "32 word"
  interrupt_ack :: "32 word"
  vstatus :: "32 word"
  queue_desc :: "nat \<Rightarrow> nat"
  queue_driver :: "nat \<Rightarrow> nat"
  queue_device :: "nat \<Rightarrow> nat"
  queue_reset :: "nat \<Rightarrow> nat"
  blk_capacity :: nat
  blk_size :: nat

text \<open>The feature word the selector names; and a store to the status register.\<close>

definition device_features :: "virtio_mmio_regs \<Rightarrow> 32 word" where
  "device_features r = offered r (device_features_sel r)"

definition set_driver_features :: "32 word \<Rightarrow> virtio_mmio_regs \<Rightarrow> virtio_mmio_regs" where
  "set_driver_features w r = r\<lparr>driver_features := (driver_features r)(driver_features_sel r := w)\<rparr>"

definition set_status :: "32 word \<Rightarrow> virtio_mmio_regs \<Rightarrow> virtio_mmio_regs" where
  "set_status w r = r\<lparr>vstatus := if accepts r then w else w AND NOT VIRTIO_STAT_FEATURES_OK\<rparr>"

text \<open>A descriptor; the buffers a driver hands out are named, in place of their addresses.\<close>

datatype dma = DmaNone | DmaHdr | DmaBuf | DmaStatus

record virtq_desc =
  addr :: dma
  dlen :: nat
  flags :: nat
  dnext :: nat

subsection \<open>Feature sets\<close>

type_synonym virtio_featset_t = "32 word list"

definition virtio_featset_init :: virtio_featset_t where
  "virtio_featset_init = replicate VIRTIO_FEATLEN 0"

definition virtio_featset_add :: "virtio_featset_t \<Rightarrow> nat \<Rightarrow> virtio_featset_t" where
  "virtio_featset_add fts k = fts[k div 32 := fts ! (k div 32) OR push_bit (k mod 32) 1]"

definition virtio_featset_test :: "virtio_featset_t \<Rightarrow> nat \<Rightarrow> bool" where
  "virtio_featset_test fts k = (drop_bit (k mod 32) (fts ! (k div 32)) AND 1 \<noteq> 0)"

definition virtio_check_feature :: "nat \<Rightarrow> virtio_mmio_regs \<Rightarrow> bool \<times> virtio_mmio_regs" where
  "virtio_check_feature k r =
     (let r = r\<lparr>device_features_sel := k div 32\<rparr>
      in (drop_bit (k mod 32) (device_features r) AND 1 \<noteq> 0, r))"

subsection \<open>Negotiation\<close>

fun check_needed :: "virtio_featset_t \<Rightarrow> nat list \<Rightarrow> virtio_mmio_regs \<Rightarrow> bool \<times> virtio_mmio_regs" where
  "check_needed needed [] r = (True, r)"
| "check_needed needed (i # is) r =
     (if needed ! i \<noteq> 0
      then let r = r\<lparr>device_features_sel := i\<rparr>
           in if device_features r AND needed ! i \<noteq> needed ! i then (False, r) else check_needed needed is r
      else check_needed needed is r)"

fun request_wanted ::
  "virtio_featset_t \<Rightarrow> nat list \<Rightarrow> virtio_featset_t \<Rightarrow> virtio_mmio_regs \<Rightarrow> virtio_featset_t \<times> virtio_mmio_regs"
where
  "request_wanted wanted [] enabled r = (enabled, r)"
| "request_wanted wanted (i # is) enabled r =
     (if wanted ! i \<noteq> 0
      then let r = r\<lparr>device_features_sel := i, driver_features_sel := i\<rparr>;
               enabled = enabled[i := device_features r AND wanted ! i]
           in request_wanted wanted is enabled (set_driver_features (enabled ! i) r)
      else request_wanted wanted is enabled r)"

text \<open>\<open>None\<close> is the failed assertion: the device has refused the features.\<close>

definition virtio_negotiate_features ::
  "virtio_mmio_regs \<Rightarrow> virtio_featset_t \<Rightarrow> virtio_featset_t \<Rightarrow> virtio_featset_t \<Rightarrow>
   (int \<times> virtio_featset_t \<times> virtio_mmio_regs) option"
where
  "virtio_negotiate_features r enabled wanted needed =
     (case check_needed needed [0..<VIRTIO_FEATLEN] r of
        (False, r) \<Rightarrow> Some (- ENOTSUP, enabled, r)
      | (True, r) \<Rightarrow>
          (case request_wanted wanted [0..<VIRTIO_FEATLEN] enabled r of
             (enabled, r) \<Rightarrow>
               (let r = set_status (vstatus r OR VIRTIO_STAT_FEATURES_OK) r
                in if vstatus r AND VIRTIO_STAT_FEATURES_OK = 0 then None else Some (0, enabled, r))))"

subsection \<open>Queues\<close>

definition virtio_attach_virtq :: "virtio_mmio_regs \<Rightarrow> nat \<Rightarrow> nat \<Rightarrow> nat \<Rightarrow> nat \<Rightarrow> nat \<Rightarrow> virtio_mmio_regs" where
  "virtio_attach_virtq r qid len desc_addr used_addr avail_addr =
     r\<lparr>queue_sel := qid, queue_desc := (queue_desc r)(qid := desc_addr),
       queue_device := (queue_device r)(qid := used_addr),
       queue_driver := (queue_driver r)(qid := avail_addr), queue_num := (queue_num r)(qid := len)\<rparr>"

definition virtio_enable_virtq :: "virtio_mmio_regs \<Rightarrow> nat \<Rightarrow> virtio_mmio_regs" where
  "virtio_enable_virtq r qid = r\<lparr>queue_sel := qid, queue_ready := (queue_ready r)(qid := 1)\<rparr>"

definition virtio_reset_virtq :: "virtio_mmio_regs \<Rightarrow> nat \<Rightarrow> virtio_mmio_regs" where
  "virtio_reset_virtq r qid = r\<lparr>queue_sel := qid, queue_reset := (queue_reset r)(qid := 1)\<rparr>"

definition virtio_notify_avail :: "virtio_mmio_regs \<Rightarrow> nat \<Rightarrow> virtio_mmio_regs" where
  "virtio_notify_avail r qid = r\<lparr>queue_notify := queue_notify r @ [qid]\<rparr>"

text \<open>The drivers that are linked in; those of consoles and displays are the empty ones of virtio.c.\<close>

definition viocons_attach :: "int \<Rightarrow> virtio_mmio_regs \<times> 's \<Rightarrow> (virtio_mmio_regs \<times> 's) option" where
  "viocons_attach irqno x = Some x"

definition viogpu_attach :: "int \<Rightarrow> virtio_mmio_regs \<times> 's \<Rightarrow> (virtio_mmio_regs \<times> 's) option" where
  "viogpu_attach irqno x = Some x"

definition virtio_attach ::
  "(int \<Rightarrow> virtio_mmio_regs \<times> 's \<Rightarrow> (virtio_mmio_regs \<times> 's) option) \<Rightarrow>
   (int \<Rightarrow> virtio_mmio_regs \<times> 's \<Rightarrow> (virtio_mmio_regs \<times> 's) option) \<Rightarrow>
   int \<Rightarrow> virtio_mmio_regs \<times> 's \<Rightarrow> (virtio_mmio_regs \<times> 's) option"
where
  "virtio_attach blk rng irqno x =
     (case x of (r, s) \<Rightarrow>
        if magic_value r \<noteq> VIRTIO_MAGIC then Some (r, s)
        else if version r \<noteq> 2 then Some (r, s)
        else if device_id r = VIRTIO_ID_NONE then Some (r, s)
        else let r = set_status VIRTIO_STAT_ACKNOWLEDGE (set_status 0 r)
          in if device_id r = VIRTIO_ID_CONSOLE then viocons_attach irqno (r, s)
             else if device_id r = VIRTIO_ID_BLOCK then blk irqno (r, s)
             else if device_id r = VIRTIO_ID_RNG then rng irqno (r, s)
             else if device_id r = VIRTIO_ID_GPU then viogpu_attach irqno (r, s)
             else Some (r, s))"

subsection \<open>What negotiation achieves\<close>

definition offers :: "virtio_mmio_regs \<Rightarrow> virtio_featset_t \<Rightarrow> bool" where
  "offers r fts \<longleftrightarrow> (\<forall>i<VIRTIO_FEATLEN. offered r i AND fts ! i = fts ! i)"

lemma check_needed_ok:
  "check_needed needed is r = (b, r') \<Longrightarrow>
     (b \<longleftrightarrow> (\<forall>i\<in>set is. offered r i AND needed ! i = needed ! i)) \<and>
     offered r' = offered r \<and> accepts r' = accepts r \<and> vstatus r' = vstatus r \<and>
     driver_features r' = driver_features r"
  by (induction needed "is" r rule: check_needed.induct)
    (auto simp: Let_def device_features_def split: if_splits)

lemma request_wanted_ok:
  assumes "request_wanted wanted is enabled r = (e, r')" "distinct is" "\<forall>i\<in>set is. i < length enabled"
  shows "length e = length enabled \<and> offered r' = offered r \<and> accepts r' = accepts r \<and> vstatus r' = vstatus r \<and>
    (\<forall>i<length enabled. e ! i = (if i \<in> set is \<and> wanted ! i \<noteq> 0 then offered r i AND wanted ! i else enabled ! i)) \<and>
    (\<forall>i. driver_features r' i = (if i \<in> set is \<and> wanted ! i \<noteq> 0 then offered r i AND wanted ! i else driver_features r i))"
  using assms
proof (induction wanted "is" enabled r rule: request_wanted.induct)
  case (2 wanted i "is" enabled r)
  show ?case
  proof (cases "wanted ! i = 0")
    case True
    then show ?thesis using "2.IH"(2) "2.prems" by (auto split: if_splits)
  next
    case False
    let ?r = "r\<lparr>device_features_sel := i, driver_features_sel := i\<rparr>"
    let ?e = "enabled[i := device_features ?r AND wanted ! i]"
    have "request_wanted wanted is ?e (set_driver_features (?e ! i) ?r) = (e, r')"
      using "2.prems"(1) False by (simp add: Let_def)
    then show ?thesis
      using "2.IH"(1) [OF False refl refl] "2.prems"(2,3) False
      by (auto simp: nth_list_update device_features_def set_driver_features_def)
  qed
qed simp

lemma status_features_ok: "(w OR VIRTIO_STAT_FEATURES_OK) AND VIRTIO_STAT_FEATURES_OK \<noteq> 0"
proof -
  have "bit ((w OR VIRTIO_STAT_FEATURES_OK) AND VIRTIO_STAT_FEATURES_OK) 3"
    by (simp add: VIRTIO_STAT_FEATURES_OK_def bit_simps)
  then show ?thesis by auto
qed

text \<open>
  Negotiation with a device that accepts what it offered: it succeeds when every needed feature is
  offered, and then the driver has enabled, and told the device, the wanted features that are
  offered, in every word in which it wants any.
\<close>

lemma negotiate_features_ok:
  assumes "accepts r" and "length enabled = VIRTIO_FEATLEN"
  shows "\<exists>c e r'. virtio_negotiate_features r enabled wanted needed = Some (c, e, r') \<and>
     (if offers r needed
      then c = 0 \<and> length e = VIRTIO_FEATLEN \<and> accepts r' \<and>
           (\<forall>i<VIRTIO_FEATLEN. wanted ! i \<noteq> 0 \<longrightarrow> e ! i = offered r i AND wanted ! i \<and> driver_features r' i = e ! i)
      else c = - ENOTSUP \<and> e = enabled)"
proof -
  obtain b r1 where c: "check_needed needed [0..<VIRTIO_FEATLEN] r = (b, r1)" by fastforce
  note k = check_needed_ok [OF c]
  obtain e r2 where q: "request_wanted wanted [0..<VIRTIO_FEATLEN] enabled r1 = (e, r2)" by fastforce
  have w: "length e = length enabled \<and> offered r2 = offered r1 \<and> accepts r2 = accepts r1 \<and> vstatus r2 = vstatus r1 \<and>
    (\<forall>i<length enabled. e ! i = (if i \<in> set [0..<VIRTIO_FEATLEN] \<and> wanted ! i \<noteq> 0 then offered r1 i AND wanted ! i else enabled ! i)) \<and>
    (\<forall>i. driver_features r2 i = (if i \<in> set [0..<VIRTIO_FEATLEN] \<and> wanted ! i \<noteq> 0 then offered r1 i AND wanted ! i else driver_features r1 i))"
    by (rule request_wanted_ok [OF q]) (use assms(2) in auto)
  have b: "b \<longleftrightarrow> offers r needed" using k by (auto simp: offers_def)
  show ?thesis
  proof (cases b)
    case True
    then show ?thesis using c q w k b assms status_features_ok [of "vstatus r2"]
      by (auto simp: virtio_negotiate_features_def set_status_def Let_def)
  next
    case False
    then show ?thesis using c b by (simp add: virtio_negotiate_features_def)
  qed
qed

lemma featset_add_test:
  assumes "k < 32 * VIRTIO_FEATLEN" and "j < 32 * VIRTIO_FEATLEN"
  shows "virtio_featset_test (virtio_featset_add virtio_featset_init k) j \<longleftrightarrow> j = k"
proof -
  have b: "virtio_featset_test fts i \<longleftrightarrow> bit (fts ! (i div 32)) (i mod 32)" for fts i
    by (simp add: virtio_featset_test_def and_one_eq odd_iff_mod_2_eq_one [symmetric] bit_iff_odd_drop_bit)
  have l: "k div 32 < VIRTIO_FEATLEN" "j div 32 < VIRTIO_FEATLEN"
    using assms by (simp_all add: less_mult_imp_div_less mult.commute)
  have "j = k \<longleftrightarrow> j div 32 = k div 32 \<and> j mod 32 = k mod 32"
    by (metis div_mult_mod_eq)
  then show ?thesis
    using l unfolding b virtio_featset_add_def virtio_featset_init_def
    by (auto simp: nth_list_update bit_simps)
qed

text \<open>The registers of a block device with two sectors, for the examples.\<close>

definition demo_regs :: virtio_mmio_regs where
  "demo_regs =
     \<lparr>magic_value = VIRTIO_MAGIC, version = 2, device_id = VIRTIO_ID_BLOCK, offered = (\<lambda>_. 0), accepts = True,
      device_features_sel = 0, driver_features = (\<lambda>_. 0), driver_features_sel = 0, queue_sel = 0,
      queue_num = (\<lambda>_. 0), queue_ready = (\<lambda>_. 0), queue_notify = [], interrupt_status = 0, interrupt_ack = 0,
      vstatus = 0, queue_desc = (\<lambda>_. 0), queue_driver = (\<lambda>_. 0), queue_device = (\<lambda>_. 0),
      queue_reset = (\<lambda>_. 0), blk_capacity = 2, blk_size = 512\<rparr>"

end
