(* ===== verification/Vioblk.thy ===== *)
theory Vioblk
  imports Virtio Device Intr Sched_Steps Io
begin

text \<open>
  The block driver of kernel/dev/vioblk.c. The queue has three descriptors and holds one request at
  a time. A transfer runs up to a point where it waits, for the lock or for the device, and goes
  on from there in \<open>vioblk_resume\<close>; a thread that polls gives up the processor each time. The three
  buffers of a request are told apart by name, in place of their addresses. What the device does
  with a request is the argument \<open>serve\<close>; \<open>virtio_blk\<close> states what its specification promises.
\<close>

subsection \<open>State\<close>

definition VIOBLK_INTR_PRIO :: int where "VIOBLK_INTR_PRIO = 1"
definition VIRTIO_BLK_F_BLK_SIZE :: nat where "VIRTIO_BLK_F_BLK_SIZE = 6"
definition VIRTIO_BLK_T_IN :: nat where "VIRTIO_BLK_T_IN = 0"
definition VIRTIO_BLK_T_OUT :: nat where "VIRTIO_BLK_T_OUT = 1"
definition VIRTIO_BLK_S_OK :: byte where "VIRTIO_BLK_S_OK = 0"

record vioblk_device =
  vb_irqno :: int
  vb_instno :: int
  blksz :: nat
  capacity_blocks :: nat
  io_lock :: nat
  last_used_idx :: nat
  avail_idx :: nat
  avail_ring :: "nat list"
  used_idx :: nat
  desc :: "virtq_desc list"
  hdr_type :: nat
  hdr_sector :: nat
  req_status :: byte

subsection \<open>Attachment, opening and closing\<close>

text \<open>
  The addresses of the descriptor table and of the rings are arguments. The state is the device
  that has been allocated, if any, with the tables of interrupts and of devices; \<open>isr\<close> and \<open>opn\<close>
  are the service routine and the open function that are entered there.
\<close>

definition vioblk_attach ::
  "bool \<Rightarrow> nat \<Rightarrow> nat \<Rightarrow> nat \<Rightarrow> nat \<Rightarrow> (nat \<Rightarrow> 's \<Rightarrow> 's option) \<Rightarrow> 'f \<Rightarrow> int \<Rightarrow>
   virtio_mmio_regs \<times> (vioblk_device option \<times> 's intrmgr \<times> 'f devtab) \<Rightarrow>
   (virtio_mmio_regs \<times> (vioblk_device option \<times> 's intrmgr \<times> 'f devtab)) option"
where
  "vioblk_attach alloc l da ua aa isr opn irq x =
     (case x of (r, d0, im, tab) \<Rightarrow>
        do {
          let r = set_status (vstatus r OR VIRTIO_STAT_DRIVER) r;
          let wanted = virtio_featset_add virtio_featset_init VIRTIO_BLK_F_BLK_SIZE;
          (c, enabled, r) \<leftarrow> virtio_negotiate_features r virtio_featset_init wanted virtio_featset_init;
          if c \<noteq> 0 then Some (r, d0, im, tab)
          else if \<not> alloc then Some (r, d0, im, tab)
          else do {
            let bs = (if virtio_featset_test enabled VIRTIO_BLK_F_BLK_SIZE then blk_size r else 512);
            if (word_of_nat bs - 1 :: 32 word) AND word_of_nat bs \<noteq> 0 then None
            else do {
              let r = virtio_attach_virtq r 0 3 da ua aa;
              let r = virtio_enable_virtq r 0;
              im \<leftarrow> enable_intr_source irq VIOBLK_INTR_PRIO isr im;
              let r = set_status (vstatus r OR VIRTIO_STAT_DRIVER_OK) r;
              (k, tab) \<leftarrow> register_device (Some (map ch ''vioblk'' @ [0])) (Some opn) tab;
              Some (r, Some \<lparr>vb_irqno = irq, vb_instno = k, blksz = bs, capacity_blocks = blk_capacity r,
                             io_lock = l, last_used_idx = 0, avail_idx = 0, avail_ring = [0, 0, 0], used_idx = 0,
                             desc = replicate 3 \<lparr>addr = DmaNone, dlen = 0, flags = 0, dnext = 0\<rparr>,
                             hdr_type = 0, hdr_sector = 0, req_status = 0\<rparr>, im, tab)
            }
          }
        })"

definition vioblk_open :: "'d io \<Rightarrow> int \<times> 'd io" where
  "vioblk_open io = (if iorefcnt io \<noteq> 0 then (- EBUSY, io) else (0, ioaddref io))"

definition vioblk_close :: "'d io \<Rightarrow> unit option" where
  "vioblk_close io = (if iorefcnt io = 0 then Some () else None)"

definition vioblk_isr :: "virtio_mmio_regs \<Rightarrow> virtio_mmio_regs" where
  "vioblk_isr r = r\<lparr>interrupt_ack := interrupt_status r\<rparr>"

definition vioblk_cntl :: "vioblk_device \<Rightarrow> int \<Rightarrow> nat option \<Rightarrow> int \<times> nat option" where
  "vioblk_cntl d cmd arg =
     (if cmd = IOCTL_GETBLKSZ then (cint (int (blksz d)), arg)
      else if cmd = IOCTL_GETEND
      then (case arg of None \<Rightarrow> (- EINVAL, arg) | Some _ \<Rightarrow> (0, Some (u64 (capacity_blocks d * 512))))
      else (- ENOTSUP, arg))"

subsection \<open>Transfers\<close>

datatype vioblk_pc = VbAcquire nat nat int | VbPoll int
datatype vioblk_res = VbRet int | VbSuspended vioblk_pc

type_synonym vioblk_sys = "kthr \<times> vioblk_device \<times> virtio_mmio_regs"

definition vioblk_submit :: "nat \<Rightarrow> nat \<Rightarrow> int \<Rightarrow> vioblk_device \<times> virtio_mmio_regs \<Rightarrow> vioblk_device \<times> virtio_mmio_regs" where
  "vioblk_submit ty p len x =
     (case x of (d, r) \<Rightarrow>
        (let d = d\<lparr>hdr_type := ty, hdr_sector := p div 512, req_status := 0xFF\<rparr>;
             d = d\<lparr>desc :=
               [\<lparr>addr = DmaHdr, dlen = 16, flags = VIRTQ_DESC_F_NEXT, dnext = 1\<rparr>,
                \<lparr>addr = DmaBuf, dlen = u32 (nat len),
                 flags = VIRTQ_DESC_F_NEXT OR (if ty = VIRTIO_BLK_T_IN then VIRTQ_DESC_F_WRITE else 0), dnext = 2\<rparr>,
                \<lparr>addr = DmaStatus, dlen = 1, flags = VIRTQ_DESC_F_WRITE, dnext = 0\<rparr>]\<rparr>;
             aidx = avail_idx d;
             d = d\<lparr>avail_ring := (avail_ring d)[aidx mod 3 := 0], avail_idx := u16 (aidx + 1)\<rparr>
         in (d, virtio_notify_avail r 0)))"

definition vioblk_acquire :: "nat \<Rightarrow> nat \<Rightarrow> int \<Rightarrow> vioblk_sys \<Rightarrow> (vioblk_res \<times> vioblk_sys) option" where
  "vioblk_acquire ty p len x =
     (case x of (k, d, r) \<Rightarrow>
        do {
          (a, k) \<leftarrow> lock_acquire (io_lock d) k;
          case a of
            Blocked \<Rightarrow> Some (VbSuspended (VbAcquire ty p len), k, d, r)
          | Returned _ \<Rightarrow> Some (VbSuspended (VbPoll len), k, vioblk_submit ty p len (d, r))
        })"

text \<open>One test of the polling loop, and what follows when the device is done.\<close>

definition vioblk_poll :: "int \<Rightarrow> vioblk_sys \<Rightarrow> (vioblk_res \<times> vioblk_sys) option" where
  "vioblk_poll len x =
     (case x of (k, d, r) \<Rightarrow>
        if used_idx d = last_used_idx d
        then map_option (\<lambda>k. (VbSuspended (VbPoll len), k, d, r)) (thread_yield k)
        else do {
          let d = d\<lparr>last_used_idx := used_idx d\<rparr>;
          let status_ok = (req_status d = VIRTIO_BLK_S_OK);
          k \<leftarrow> lock_release (io_lock d) k;
          Some (VbRet (if \<not> status_ok then - EIO else len), k, d, r)
        })"

definition vioblk_io :: "nat \<Rightarrow> nat \<Rightarrow> int \<Rightarrow> vioblk_sys \<Rightarrow> (vioblk_res \<times> vioblk_sys) option" where
  "vioblk_io ty p len x =
     (if p mod 512 \<noteq> 0 \<or> len \<le> 0 \<or> len mod 512 \<noteq> 0 then Some (VbRet (- EINVAL), x)
      else vioblk_acquire ty p len x)"

fun vioblk_resume :: "vioblk_pc \<Rightarrow> vioblk_sys \<Rightarrow> (vioblk_res \<times> vioblk_sys) option" where
  "vioblk_resume (VbAcquire ty p len) x = vioblk_acquire ty p len x"
| "vioblk_resume (VbPoll len) x = vioblk_poll len x"

subsection \<open>The other side of the queue\<close>

text \<open>
  The chain of descriptors that starts at the head the available ring names, and the request it
  describes: a header, a buffer and a status byte, with the direction of the buffer.
\<close>

fun chain :: "nat \<Rightarrow> virtq_desc list \<Rightarrow> nat \<Rightarrow> virtq_desc list" where
  "chain 0 ds i = []"
| "chain (Suc n) ds i =
     (if i < length ds
      then ds ! i # (if flags (ds ! i) AND VIRTQ_DESC_F_NEXT \<noteq> 0 then chain n ds (dnext (ds ! i)) else [])
      else [])"

definition writable :: "virtq_desc \<Rightarrow> bool" where
  "writable e \<longleftrightarrow> flags e AND VIRTQ_DESC_F_WRITE \<noteq> 0"

definition request :: "vioblk_device \<Rightarrow> (nat \<times> nat \<times> nat) option" where
  "request d =
     (case chain 3 (desc d) (avail_ring d ! (u16 (avail_idx d + 65535) mod 3)) of
        [h, b, e] \<Rightarrow>
          if addr h = DmaHdr \<and> dlen h = 16 \<and> \<not> writable h \<and> addr b = DmaBuf \<and>
             (writable b \<longleftrightarrow> hdr_type d = VIRTIO_BLK_T_IN) \<and> addr e = DmaStatus \<and> dlen e = 1 \<and> writable e
          then Some (hdr_type d, hdr_sector d, dlen b) else None
      | _ \<Rightarrow> None)"

text \<open>
  The device serves a request: from type, sector, length and the bytes of the buffer it gives the
  status, the bytes of the buffer afterwards and its new state. It answers only to a request that
  is well-formed and was announced, and then it advances the used ring.
\<close>

type_synonym 'm serve = "nat \<Rightarrow> nat \<Rightarrow> nat \<Rightarrow> byte list \<Rightarrow> 'm \<Rightarrow> byte \<times> byte list \<times> 'm"

definition device_step :: "'m serve \<Rightarrow> byte list \<Rightarrow> vioblk_device \<times> 'm \<Rightarrow> (byte list \<times> vioblk_device \<times> 'm) option" where
  "device_step serve buf x =
     (case x of (d, m) \<Rightarrow>
        (case request d of
           None \<Rightarrow> None
         | Some (ty, sec, n) \<Rightarrow>
             if avail_idx d = used_idx d then None
             else case serve ty sec n (take n buf) m of (st, bs, m) \<Rightarrow>
               Some (bs, d\<lparr>req_status := st, used_idx := u16 (used_idx d + 1)\<rparr>, m)))"

text \<open>What a block device of the specification does, \<open>content\<close> being the bytes it holds.\<close>

definition virtio_blk :: "'m serve \<Rightarrow> ('m \<Rightarrow> byte list) \<Rightarrow> bool" where
  "virtio_blk serve content \<longleftrightarrow>
     (\<forall>sec n buf m. 512 * sec + n \<le> length (content m) \<longrightarrow>
        (\<exists>m'. serve VIRTIO_BLK_T_IN sec n buf m = (0, seg (512 * sec) n (content m), m') \<and>
              content m' = content m) \<and>
        (length buf = n \<longrightarrow>
           (\<exists>m' bs. serve VIRTIO_BLK_T_OUT sec n buf m = (0, bs, m') \<and>
                 content m' = patch (512 * sec) buf (content m)))) \<and>
     (\<forall>ty sec n buf m. length (content m) < 512 * sec + n \<longrightarrow>
        fst (serve ty sec n buf m) \<noteq> 0 \<and> content (snd (snd (serve ty sec n buf m))) = content m)"

text \<open>
  A transfer with a free lock, when the device has answered by the time the thread polls. The
  result is the code, the bytes of the buffer and the new state.
\<close>

definition vioblk_transfer ::
  "'m serve \<Rightarrow> nat \<Rightarrow> nat \<Rightarrow> byte list \<Rightarrow> int \<Rightarrow> vioblk_sys \<times> 'm \<Rightarrow> ((int \<times> byte list) \<times> vioblk_sys \<times> 'm) option"
where
  "vioblk_transfer serve ty p buf len y =
     (case y of (x, m) \<Rightarrow>
        do {
          (a, k, d, r) \<leftarrow> vioblk_io ty p len x;
          case a of
            VbRet c \<Rightarrow> Some ((c, []), (k, d, r), m)
          | VbSuspended pc \<Rightarrow> do {
              (bs, d, m) \<leftarrow> device_step serve buf (d, m);
              (b, x) \<leftarrow> vioblk_resume pc (k, d, r);
              case b of VbRet c \<Rightarrow> Some ((c, bs), x, m) | VbSuspended _ \<Rightarrow> None
            }
        })"

definition vioblk_readat ::
  "'m serve \<Rightarrow> vioblk_sys \<times> 'm \<Rightarrow> nat \<Rightarrow> int \<Rightarrow> ((int \<times> byte list) \<times> vioblk_sys \<times> 'm) option"
where
  "vioblk_readat serve y p bufsz = vioblk_transfer serve VIRTIO_BLK_T_IN p (replicate (nat bufsz) 0) bufsz y"

definition vioblk_writeat ::
  "'m serve \<Rightarrow> vioblk_sys \<times> 'm \<Rightarrow> nat \<Rightarrow> byte list \<Rightarrow> int \<Rightarrow> (int \<times> vioblk_sys \<times> 'm) option"
where
  "vioblk_writeat serve y p buf len =
     map_option (\<lambda>((c, _), y). (c, y)) (vioblk_transfer serve VIRTIO_BLK_T_OUT p buf len y)"

definition vioblk_iointf :: "'m serve \<Rightarrow> (vioblk_sys \<times> 'm) iointf" where
  "vioblk_iointf serve =
     \<lparr>if_close = Some Some,
      if_cntl = Some (\<lambda>y cmd arg. Some (vioblk_cntl (fst (snd (fst y))) cmd arg, y)),
      if_read = None, if_write = None,
      if_readat = Some (vioblk_readat serve), if_writeat = Some (vioblk_writeat serve)\<rparr>"

subsection \<open>One request\<close>

definition idle :: "vioblk_device \<Rightarrow> bool" where
  "idle d \<longleftrightarrow> used_idx d = avail_idx d \<and> last_used_idx d = avail_idx d \<and> avail_idx d < 65536 \<and>
     length (avail_ring d) = 3"

lemma desc_flags: "VIRTQ_DESC_F_NEXT = 1" "VIRTQ_DESC_F_WRITE = 2"
  by (simp_all add: VIRTQ_DESC_F_NEXT_def VIRTQ_DESC_F_WRITE_def)

lemma ring_back: "a < 65536 \<Longrightarrow> u16 (u16 (a + 1) + 65535) = a"
proof -
  assume a: "a < 65536"
  have "((a + 1) mod 65536 + 65535) mod 65536 = (a + 1 + 65535) mod 65536" by (rule mod_add_left_eq)
  also have "\<dots> = a" using a by simp
  finally show ?thesis by (simp add: u16_def)
qed

lemma u16_Suc_neq: "a < 65536 \<Longrightarrow> u16 (a + 1) \<noteq> a"
  by (cases "a = 65535") (auto simp: u16_def)

lemma submit_request:
  assumes "idle d" and "ty = VIRTIO_BLK_T_IN \<or> ty = VIRTIO_BLK_T_OUT" and "0 \<le> len" and "len < 4294967296"
    and s: "vioblk_submit ty p len (d, r) = (d', r')"
  shows "request d' = Some (ty, p div 512, nat len)" "avail_idx d' = u16 (avail_idx d + 1)"
    "used_idx d' = used_idx d" "last_used_idx d' = last_used_idx d" "io_lock d' = io_lock d"
    "length (avail_ring d') = 3"
proof -
  have i: "avail_idx d < 65536" "length (avail_ring d) = 3" using assms(1) by (auto simp: idle_def)
  have l: "u32 (nat len) = nat len" using assms(3,4) by (simp add: u32_def)
  define h where "h = \<lparr>addr = DmaHdr, dlen = 16, flags = 1, dnext = 1\<rparr>"
  define b where "b = \<lparr>addr = DmaBuf, dlen = nat len, flags = 1 OR (if ty = VIRTIO_BLK_T_IN then 2 else 0), dnext = 2\<rparr>"
  define e where "e = \<lparr>addr = DmaStatus, dlen = 1, flags = 2, dnext = 0\<rparr>"
  have d': "desc d' = [h, b, e]" "hdr_type d' = ty" "hdr_sector d' = p div 512"
      "avail_ring d' = (avail_ring d)[avail_idx d mod 3 := 0]" "avail_idx d' = u16 (avail_idx d + 1)"
    using s l by (auto simp: vioblk_submit_def Let_def h_def b_def e_def desc_flags)
  have "avail_ring d' ! (u16 (avail_idx d' + 65535) mod 3) = 0"
    unfolding d' ring_back [OF i(1)] using i(2) by simp
  moreover have "chain 3 [h, b, e] 0 = [h, b, e]"
    by (simp add: numeral_3_eq_3 desc_flags h_def b_def e_def)
  moreover have "\<not> writable h" "writable b \<longleftrightarrow> ty = VIRTIO_BLK_T_IN" "writable e"
    by (simp_all add: writable_def h_def b_def e_def desc_flags)
  ultimately show "request d' = Some (ty, p div 512, nat len)"
    unfolding request_def d'(1-3) by (simp add: h_def b_def e_def)
qed (use s assms(1) in \<open>auto simp: vioblk_submit_def Let_def idle_def\<close>)

text \<open>While the device has not answered the thread only gives up the processor: it holds the lock.\<close>

lemma poll_waits:
  assumes "reachable k" and "used_idx d = last_used_idx d"
  obtains k' where "vioblk_poll len (k, d, r) = Some (VbSuspended (VbPoll len), k', d, r)" "l_owner k' = l_owner k"
proof -
  obtain rl wl ll where K: "kinv k rl wl ll" using reachable_kinv [OF assms(1)] by blast
  obtain k' where "thread_yield k = Some k'" "frame k k'" by (rule kinv_yield [OF K])
  then show thesis using that [of k'] assms(2) by (simp add: vioblk_poll_def frame_def)
qed

definition vb_ready :: "vioblk_sys \<Rightarrow> bool" where
  "vb_ready x \<longleftrightarrow> (case x of (k, d, r) \<Rightarrow>
     reachable k \<and> TP k \<noteq> IDLE_TID \<and> l_owner k (io_lock d) = None \<and> idle d)"

lemma transfer_ok:
  assumes rd: "vb_ready x" and ty: "ty = VIRTIO_BLK_T_IN \<or> ty = VIRTIO_BLK_T_OUT"
    and p: "p mod 512 = 0" and len: "0 < len" "len < 4294967296" "len mod 512 = 0"
    and sv: "serve ty (p div 512) (nat len) (take (nat len) buf) m = (st, bs, m')"
  shows "\<exists>x'. vioblk_transfer serve ty p buf len (x, m) = Some ((if st = 0 then len else - EIO, bs), x', m') \<and> vb_ready x'"
proof -
  obtain k d r where x: "x = (k, d, r)" by (cases x)
  have K: "reachable k" "TP k \<noteq> IDLE_TID" "l_owner k (io_lock d) = None" "idle d"
    using rd by (auto simp: x vb_ready_def)
  obtain k1 where a: "lock_acquire (io_lock d) k = Some (Returned (), k1)" "reachable k1" "TP k1 = TP k"
      "l_owner k1 = (l_owner k)(io_lock d \<mapsto> TP k)" "l_count k1 (io_lock d) = 1"
    by (rule acquire_free [OF K(1-3)])
  obtain d1 r1 where s: "vioblk_submit ty p len (d, r) = (d1, r1)" by fastforce
  have len0: "0 \<le> len" using len(1) by simp
  note q = submit_request [OF K(4) ty len0 len(2) s]
  have i: "avail_idx d < 65536" "used_idx d = avail_idx d" "last_used_idx d = avail_idx d"
    using K(4) by (auto simp: idle_def)
  have ne: "u16 (avail_idx d + 1) \<noteq> avail_idx d" by (rule u16_Suc_neq [OF i(1)])
  define d2 where "d2 = d1\<lparr>req_status := st, used_idx := u16 (used_idx d1 + 1)\<rparr>"
  have dv: "device_step serve buf (d1, m) = Some (bs, d2, m')"
    using q ne i sv by (simp add: device_step_def d2_def)
  obtain k2 where rel: "lock_release (io_lock d) k1 = Some k2" "reachable k2" "TP k2 = TP k1"
      "l_owner k2 = (l_owner k1)(io_lock d := None)"
    by (rule release_held [OF a(2), of "io_lock d"]) (use a K in auto)
  have u: "used_idx d2 \<noteq> last_used_idx d2" using q ne i by (simp add: d2_def)
  let ?d3 = "d2\<lparr>last_used_idx := used_idx d2\<rparr>"
  have pl: "vioblk_poll len (k1, d2, r1) = Some (VbRet (if st = 0 then len else - EIO), k2, ?d3, r1)"
    using u rel(1) q by (simp add: vioblk_poll_def d2_def VIRTIO_BLK_S_OK_def)
  have "vioblk_transfer serve ty p buf len (x, m) = Some ((if st = 0 then len else - EIO, bs), (k2, ?d3, r1), m')"
    using p len a(1) s dv pl by (simp add: vioblk_transfer_def vioblk_io_def vioblk_acquire_def x)
  moreover have "vb_ready (k2, ?d3, r1)"
  proof -
    have "u16 (avail_idx d + 1) < 65536" by (simp add: u16_def)
    then show ?thesis
      using rel a K q i by (simp add: vb_ready_def idle_def d2_def)
  qed
  ultimately show ?thesis by blast
qed

subsection \<open>The driver is a block device\<close>

definition vb_inv :: "('m \<Rightarrow> byte list) \<Rightarrow> vioblk_sys \<times> 'm \<Rightarrow> bool" where
  "vb_inv content y \<longleftrightarrow> vb_ready (fst y)"

definition vb_nblk :: "('m \<Rightarrow> byte list) \<Rightarrow> vioblk_sys \<times> 'm \<Rightarrow> nat" where
  "vb_nblk content y = length (content (snd y)) div 512"

definition vb_blk :: "('m \<Rightarrow> byte list) \<Rightarrow> vioblk_sys \<times> 'm \<Rightarrow> nat \<Rightarrow> byte list" where
  "vb_blk content y j = seg (512 * j) 512 (content (snd y))"

lemma vb_inside: "j < vb_nblk content y \<Longrightarrow> 512 * j + 512 \<le> length (content (snd y))"
  using less_eq_div_iff_mult_less_eq [of 512 "Suc j" "length (content (snd y))"] by (simp add: vb_nblk_def)

lemma vb_read:
  assumes sv: "virtio_blk serve content" and inv: "vb_inv content y" and j: "j < vb_nblk content y"
  shows "\<exists>y'. vioblk_readat serve y (512 * j) 512 = Some ((512, vb_blk content y j), y') \<and>
     vb_inv content y' \<and> content (snd y') = content (snd y)"
proof -
  obtain x m where y: "y = (x, m)" by (cases y)
  have le: "512 * j + 512 \<le> length (content m)" using vb_inside [OF j] by (simp add: y)
  obtain m' where s: "serve VIRTIO_BLK_T_IN j 512 (take 512 (replicate 512 0)) m = (0, seg (512 * j) 512 (content m), m')"
      "content m' = content m"
    using sv le unfolding virtio_blk_def by blast
  have "\<exists>x'. vioblk_transfer serve VIRTIO_BLK_T_IN (512 * j) (replicate 512 0) 512 (x, m) =
      Some ((if (0 :: byte) = 0 then 512 else - EIO, seg (512 * j) 512 (content m)), x', m') \<and> vb_ready x'"
    by (rule transfer_ok) (use inv s in \<open>auto simp: y vb_inv_def\<close>)
  then show ?thesis using s(2) by (auto simp: y vioblk_readat_def vb_blk_def vb_inv_def)
qed

lemma vb_write:
  assumes sv: "virtio_blk serve content" and inv: "vb_inv content y" and j: "j < vb_nblk content y"
    and l: "length bs = 512"
  shows "\<exists>y'. vioblk_writeat serve y (512 * j) bs 512 = Some (512, y') \<and>
     vb_inv content y' \<and> content (snd y') = patch (512 * j) bs (content (snd y))"
proof -
  obtain x m where y: "y = (x, m)" by (cases y)
  have le: "512 * j + 512 \<le> length (content m)" using vb_inside [OF j] by (simp add: y)
  obtain m' os where s: "serve VIRTIO_BLK_T_OUT j 512 bs m = (0, os, m')" "content m' = patch (512 * j) bs (content m)"
    using sv le l unfolding virtio_blk_def by blast
  have "\<exists>x'. vioblk_transfer serve VIRTIO_BLK_T_OUT (512 * j) bs 512 (x, m) =
      Some ((if (0 :: byte) = 0 then 512 else - EIO, os), x', m') \<and> vb_ready x'"
    by (rule transfer_ok) (use inv s l in \<open>auto simp: y vb_inv_def\<close>)
  then show ?thesis using s(2) by (auto simp: y vioblk_writeat_def vb_inv_def)
qed

lemma vb_blk_patch:
  assumes "512 * j + 512 \<le> length c" "length bs = 512"
  shows "(\<lambda>i. seg (512 * i) 512 (patch (512 * j) bs c)) = (\<lambda>i. seg (512 * i) 512 c)(j := bs)"
proof
  fix i
  show "seg (512 * i) 512 (patch (512 * j) bs c) = ((\<lambda>i. seg (512 * i) 512 c)(j := bs)) i"
  proof (cases "i = j")
    case False
    then have "512 * i + 512 \<le> 512 * j \<or> 512 * j + length bs \<le> 512 * i"
      using assms(2) by (cases i j rule: linorder_cases) auto
    then show ?thesis using False assms by (simp add: seg_patch_other)
  qed (use assms in simp)
qed


definition demo_serve :: "byte list serve" where
  "demo_serve ty sec n buf m =
     (if length m < 512 * sec + n then (1, buf, m)
      else if ty = VIRTIO_BLK_T_IN then (0, seg (512 * sec) n m, m) else (0, buf, patch (512 * sec) buf m))"

definition demo_vioblk :: vioblk_device where
  "demo_vioblk =
     \<lparr>vb_irqno = 8, vb_instno = 0, blksz = 512, capacity_blocks = 2, io_lock = 4, last_used_idx = 0, avail_idx = 0,
      avail_ring = [0, 0, 0], used_idx = 0, desc = [], hdr_type = 0, hdr_sector = 0, req_status = 0\<rparr>"

lemma demo_serve_ok: "virtio_blk demo_serve id"
  unfolding virtio_blk_def demo_serve_def
  by (auto simp: VIRTIO_BLK_T_IN_def VIRTIO_BLK_T_OUT_def)


text \<open>A transfer past the end of the disk returns \<open>-EIO\<close>, and one that is not of whole sectors \<open>-EINVAL\<close>.\<close>

lemma transfer_past_end:
  assumes "virtio_blk serve content" "vb_ready x" "ty = VIRTIO_BLK_T_IN \<or> ty = VIRTIO_BLK_T_OUT"
    "p mod 512 = 0" "0 < len" "len < 4294967296" "len mod 512 = 0" "length (content m) < p + nat len"
  shows "\<exists>bs x' m'. vioblk_transfer serve ty p buf len (x, m) = Some ((- EIO, bs), x', m') \<and> vb_ready x' \<and>
     content m' = content m"
proof -
  obtain st bs m' where s: "serve ty (p div 512) (nat len) (take (nat len) buf) m = (st, bs, m')" by (metis surj_pair)
  have "512 * (p div 512) = p" using assms(4) by auto
  then have "st \<noteq> 0" "content m' = content m"
    using assms(1,8) s unfolding virtio_blk_def by (metis fst_conv snd_conv)+
  then show ?thesis using transfer_ok [where serve = serve and m = m and buf = buf, OF assms(2-7) s] by auto
qed

end
