(* ===== verification/Viorng.thy ===== *)
theory Viorng
  imports Virtio Device Intr Sched_Steps Io
begin

text \<open>
  The entropy driver of kernel/dev/viorng.c. A read hands the device the buffer of the driver when
  that is empty, polls until the device has answered and then takes the bytes from the end of the
  buffer. \<open>None\<close> is an access outside the buffer, or a failed assertion.
\<close>

definition VIORNG_BUFSZ :: nat where "VIORNG_BUFSZ = 256"
definition VIORNG_IRQ_PRIO :: int where "VIORNG_IRQ_PRIO = 1"

record viorng_device =
  rn_irqno :: int
  rn_instno :: int
  rn_cond :: nat
  rn_last_used_idx :: nat
  rn_avail_idx :: nat
  rn_avail_ring :: "nat list"
  rn_used_idx :: nat
  rn_used_len :: nat
  rn_desc :: virtq_desc
  bufcnt :: nat
  rn_buf :: "byte list"

subsection \<open>Attachment, opening and closing\<close>

definition viorng_attach ::
  "nat \<Rightarrow> nat \<Rightarrow> nat \<Rightarrow> nat \<Rightarrow> (nat \<Rightarrow> 's \<Rightarrow> 's option) \<Rightarrow> 'f \<Rightarrow> int \<Rightarrow>
   virtio_mmio_regs \<times> (viorng_device option \<times> 's intrmgr \<times> 'f devtab) \<Rightarrow>
   (virtio_mmio_regs \<times> (viorng_device option \<times> 's intrmgr \<times> 'f devtab)) option"
where
  "viorng_attach c da ua aa isr opn irq x =
     (case x of (r, d0, im, tab) \<Rightarrow>
        if device_id r \<noteq> VIRTIO_ID_RNG then None
        else do {
          let r = set_status (vstatus r OR VIRTIO_STAT_DRIVER) r;
          (e, enabled, r) \<leftarrow> virtio_negotiate_features r virtio_featset_init virtio_featset_init virtio_featset_init;
          if e \<noteq> 0 then Some (r, d0, im, tab)
          else do {
            let r = virtio_attach_virtq r 0 1 da ua aa;
            let r = virtio_enable_virtq r 0;
            im \<leftarrow> enable_intr_source irq VIORNG_IRQ_PRIO isr im;
            let r = set_status (vstatus r OR VIRTIO_STAT_DRIVER_OK) r;
            (k, tab) \<leftarrow> register_device (Some (map ch ''rng'' @ [0])) (Some opn) tab;
            Some (r, Some \<lparr>rn_irqno = irq, rn_instno = k, rn_cond = c, rn_last_used_idx = 0, rn_avail_idx = 0,
                           rn_avail_ring = [0], rn_used_idx = 0, rn_used_len = 0,
                           rn_desc = \<lparr>addr = DmaNone, dlen = 0, flags = 0, dnext = 0\<rparr>,
                           bufcnt = 0, rn_buf = replicate VIORNG_BUFSZ 0\<rparr>, im, tab)
          }
        })"

definition viorng_open :: "'d io \<Rightarrow> int \<times> 'd io" where
  "viorng_open io = (if iorefcnt io \<noteq> 0 then (- EBUSY, io) else (0, ioaddref io))"

definition viorng_close :: "'d io \<Rightarrow> unit option" where
  "viorng_close io = (if iorefcnt io = 0 then Some () else None)"

definition viorng_isr :: "nat \<Rightarrow> kthr \<times> virtio_mmio_regs \<Rightarrow> (kthr \<times> virtio_mmio_regs) option" where
  "viorng_isr c x =
     (case x of (k, r) \<Rightarrow>
        map_option (\<lambda>k. (k, r\<lparr>interrupt_ack := interrupt_status r\<rparr>)) (condition_broadcast (Cond c) k))"

subsection \<open>Reading\<close>

text \<open>A finished read, or one that polls with so many bytes to go after those it has copied.\<close>

datatype rng_res = RngRet int "byte list" | RngPoll nat "byte list"

type_synonym rng_sys = "kthr \<times> viorng_device \<times> virtio_mmio_regs"

definition rng_refill :: "viorng_device \<times> virtio_mmio_regs \<Rightarrow> viorng_device \<times> virtio_mmio_regs" where
  "rng_refill x =
     (case x of (d, r) \<Rightarrow>
        (d\<lparr>rn_desc := \<lparr>addr = DmaBuf, dlen = VIORNG_BUFSZ, flags = VIRTQ_DESC_F_WRITE, dnext = 0\<rparr>,
           rn_avail_ring := (rn_avail_ring d)[0 := 0], rn_avail_idx := u16 (rn_avail_idx d + 1)\<rparr>,
         virtio_notify_avail r 0))"

text \<open>The byte \<open>buf[--bufcnt]\<close>, with the wrap-around of the unsigned count.\<close>

definition rng_pop :: "viorng_device \<Rightarrow> (byte \<times> viorng_device) option" where
  "rng_pop d =
     (let i = u32 (bufcnt d + 4294967295)
      in if i < length (rn_buf d) then Some (rn_buf d ! i, d\<lparr>bufcnt := i\<rparr>) else None)"

fun rng_copy :: "nat \<Rightarrow> byte list \<Rightarrow> rng_sys \<Rightarrow> (rng_res \<times> rng_sys) option" where
  "rng_copy 0 out x = Some (RngRet (int (length out)) out, x)"
| "rng_copy (Suc n) out (k, d, r) =
     (if bufcnt d = 0 then Some (RngPoll (Suc n) out, k, rng_refill (d, r))
      else do {
        (c, d) \<leftarrow> rng_pop d;
        rng_copy n (out @ [c]) (k, d, r)
      })"

definition viorng_read :: "int \<Rightarrow> rng_sys \<Rightarrow> (rng_res \<times> rng_sys) option" where
  "viorng_read bufsz x = (if bufsz \<le> 0 then Some (RngRet 0 [], x) else rng_copy (nat bufsz) [] x)"

text \<open>One test of the polling loop, and what follows when the device has answered.\<close>

definition viorng_poll :: "nat \<Rightarrow> byte list \<Rightarrow> rng_sys \<Rightarrow> (rng_res \<times> rng_sys) option" where
  "viorng_poll n out x =
     (case x of (k, d, r) \<Rightarrow>
        if rn_used_idx d = rn_last_used_idx d
        then map_option (\<lambda>k. (RngPoll n out, k, d, r)) (thread_yield k)
        else do {
          (c, d) \<leftarrow> rng_pop (d\<lparr>bufcnt := rn_used_len d, rn_last_used_idx := rn_used_idx d\<rparr>);
          rng_copy (n - 1) (out @ [c]) (k, d, r)
        })"

subsection \<open>The device answers\<close>

text \<open>A reply writes some bytes at the start of the buffer and advances the used ring.\<close>

definition rng_reply :: "byte list \<Rightarrow> viorng_device \<Rightarrow> viorng_device" where
  "rng_reply bs d = d\<lparr>rn_buf := patch 0 bs (rn_buf d), rn_used_len := length bs, rn_used_idx := u16 (rn_used_idx d + 1)\<rparr>"

fun rng_run :: "byte list list \<Rightarrow> rng_res \<times> rng_sys \<Rightarrow> ((int \<times> byte list) \<times> rng_sys) option" where
  "rng_run replies (RngRet c out, x) = Some ((c, out), x)"
| "rng_run [] (RngPoll n out, x) = None"
| "rng_run (bs # replies) (RngPoll n out, k, d, r) =
     Option.bind (viorng_poll n out (k, rng_reply bs d, r)) (rng_run replies)"

definition rng_ok :: "viorng_device \<Rightarrow> bool" where
  "rng_ok d \<longleftrightarrow> length (rn_buf d) = VIORNG_BUFSZ \<and> bufcnt d \<le> VIORNG_BUFSZ \<and>
     rn_used_idx d = rn_last_used_idx d \<and> rn_used_idx d < 65536"

text \<open>The bytes the driver will deliver: those it holds, then those of the replies, each from its end.\<close>

definition rng_bytes :: "viorng_device \<Rightarrow> byte list list \<Rightarrow> byte list" where
  "rng_bytes d replies = rev (take (bufcnt d) (rn_buf d)) @ concat (map rev replies)"

lemma rng_pop_ok:
  assumes "length (rn_buf d) = VIORNG_BUFSZ" "0 < bufcnt d" "bufcnt d \<le> VIORNG_BUFSZ"
  shows "rng_pop d = Some (rn_buf d ! (bufcnt d - 1), d\<lparr>bufcnt := bufcnt d - 1\<rparr>)"
proof -
  have "u32 (bufcnt d + 4294967295) = bufcnt d - 1"
    using assms(2,3) by (simp add: u32_def VIORNG_BUFSZ_def mod_if)
  then show ?thesis using assms by (simp add: rng_pop_def Let_def)
qed

lemma rev_take_pop:
  assumes "0 < c" "c \<le> length xs"
  shows "rev (take c xs) = xs ! (c - 1) # rev (take (c - 1) xs)"
  using assms by (cases c) (auto simp: take_Suc_conv_app_nth)

lemma rng_copy_ok:
  assumes "rng_ok d"
  shows "\<exists>d' r' k'. rng_copy n out (k, d, r) =
     Some (if n \<le> bufcnt d then RngRet (int (length out + n)) (out @ take n (rev (take (bufcnt d) (rn_buf d))))
           else RngPoll (n - bufcnt d) (out @ rev (take (bufcnt d) (rn_buf d))), k, d', r') \<and>
     rng_ok d' \<and> bufcnt d' = bufcnt d - n \<and> (n \<le> bufcnt d \<longrightarrow> rn_buf d' = rn_buf d)"
  using assms
proof (induction n arbitrary: out d)
  case (Suc n)
  show ?case
  proof (cases "bufcnt d = 0")
    case True
    then show ?thesis using Suc.prems by (simp add: rng_refill_def rng_ok_def)
  next
    case False
    let ?d = "d\<lparr>bufcnt := bufcnt d - 1\<rparr>"
    have d: "length (rn_buf d) = VIORNG_BUFSZ" "0 < bufcnt d" "bufcnt d \<le> VIORNG_BUFSZ" "rng_ok ?d"
      using Suc.prems False by (auto simp: rng_ok_def)
    have t: "rev (take (bufcnt d) (rn_buf d)) = rn_buf d ! (bufcnt d - 1) # rev (take (bufcnt d - 1) (rn_buf d))"
      by (rule rev_take_pop) (use d in simp_all)
    have "rng_copy (Suc n) out (k, d, r) = rng_copy n (out @ [rn_buf d ! (bufcnt d - 1)]) (k, ?d, r)"
      using False rng_pop_ok [OF d(1-3)] by simp
    then show ?thesis using Suc.IH [OF d(4), of "out @ [rn_buf d ! (bufcnt d - 1)]"] t d(2) False
      by (auto simp: not_le)
  qed
qed simp

lemma viorng_poll_reply:
  assumes "rng_ok d" "bs \<noteq> []" "length bs \<le> VIORNG_BUFSZ" "0 < n"
  obtains d2 where "rng_ok d2" "bufcnt d2 = length bs" "take (length bs) (rn_buf d2) = bs"
    "viorng_poll n out (k, rng_reply bs d, r) = rng_copy n out (k, d2, r)"
proof -
  define d2 where "d2 = (rng_reply bs d)\<lparr>bufcnt := length bs, rn_last_used_idx := u16 (rn_used_idx d + 1)\<rparr>"
  obtain m where n: "n = Suc m" using assms(4) by (cases n) auto
  have ne: "u16 (rn_used_idx d + 1) \<noteq> rn_last_used_idx d" and lt: "u16 (rn_used_idx d + 1) < 65536"
    using assms(1) by (auto simp: u16_def rng_ok_def mod_if)
  have "rng_ok d2" "bufcnt d2 = length bs" "take (length bs) (rn_buf d2) = bs"
    using assms lt by (simp_all add: d2_def rng_ok_def rng_reply_def patch_def)
  moreover have "viorng_poll n out (k, rng_reply bs d, r) = rng_copy n out (k, d2, r)"
    using ne assms(2) by (simp add: viorng_poll_def n d2_def rng_reply_def)
  ultimately show ?thesis by (rule that)
qed

lemma rng_run_ok:
  assumes "rng_ok d" "bufcnt d = 0" "0 < n" "n \<le> length (concat replies)"
    "\<forall>bs\<in>set replies. bs \<noteq> [] \<and> length bs \<le> VIORNG_BUFSZ"
  shows "\<exists>d' r'. rng_run replies (RngPoll n out, k, d, r) =
     Some ((int (length out + n), out @ take n (concat (map rev replies))), k, d', r') \<and> rng_ok d'"
  using assms
proof (induction replies arbitrary: n out d r)
  case (Cons bs replies)
  obtain d2 where d2: "rng_ok d2" "bufcnt d2 = length bs" "take (length bs) (rn_buf d2) = bs"
    "viorng_poll n out (k, rng_reply bs d, r) = rng_copy n out (k, d2, r)"
    by (rule viorng_poll_reply [of d bs n out k r]) (use Cons.prems in auto)
  obtain d3 r3 where d3: "rng_copy n out (k, d2, r) =
      Some (if n \<le> length bs then RngRet (int (length out + n)) (out @ take n (rev bs))
            else RngPoll (n - length bs) (out @ rev bs), k, d3, r3)" "rng_ok d3" "bufcnt d3 = length bs - n"
    using rng_copy_ok [OF d2(1), of n out k r] d2(2,3) by auto
  show ?case
  proof (cases "n \<le> length bs")
    case True
    then show ?thesis using d2(4) d3 by simp
  next
    case False
    then have "\<exists>d' r'. rng_run replies (RngPoll (n - length bs) (out @ rev bs), k, d3, r3) =
      Some ((int (length (out @ rev bs) + (n - length bs)),
             (out @ rev bs) @ take (n - length bs) (concat (map rev replies))), k, d', r') \<and> rng_ok d'"
      by (intro Cons.IH) (use Cons.prems d3 in auto)
    then show ?thesis using d2(4) d3(1) False by (simp add: not_le of_nat_diff)
  qed
qed simp


definition demo_viorng :: viorng_device where
  "demo_viorng =
     \<lparr>rn_irqno = 9, rn_instno = 0, rn_cond = 5, rn_last_used_idx = 65535, rn_avail_idx = 65535, rn_avail_ring = [0],
      rn_used_idx = 65535, rn_used_len = 0, rn_desc = \<lparr>addr = DmaNone, dlen = 0, flags = 0, dnext = 0\<rparr>,
      bufcnt = 1, rn_buf = replicate 256 9\<rparr>"


text \<open>A reply without bytes makes the count wrap around: the read leaves the buffer.\<close>

lemma viorng_empty_reply:
  assumes "rng_ok d"
  shows "viorng_poll n out (k, rng_reply [] d, r) = None"
proof -
  have "u16 (rn_used_idx d + 1) \<noteq> rn_last_used_idx d"
    using assms by (auto simp: u16_def rng_ok_def mod_if)
  then show ?thesis using assms
    by (simp add: viorng_poll_def rng_reply_def rng_pop_def u32_def rng_ok_def VIORNG_BUFSZ_def)
qed

end
