(* ===== verification/Rtc.thy ===== *)
theory Rtc
  imports Device Io
begin

text \<open>
  The real-time clock of kernel/dev/rtc.c: a 64-bit time in two 32-bit registers, where reading the
  low half latches the high half.
\<close>

unbundle bit_operations_syntax

subsection \<open>The registers\<close>

text \<open>
  \<open>now\<close> is the time the clock has reached and \<open>time_high\<close> the latched register. Reads of the low
  register return the low half and latch the other; time may pass between two accesses.
\<close>

record rtc_regs =
  now :: nat
  time_high :: nat

definition time_low :: "rtc_regs \<Rightarrow> nat \<times> rtc_regs" where
  "time_low r = (u32 (now r), r\<lparr>time_high := u32 (now r div 4294967296)\<rparr>)"

definition rtc_tick :: "nat \<Rightarrow> rtc_regs \<Rightarrow> rtc_regs" where
  "rtc_tick dt r = r\<lparr>now := now r + dt\<rparr>"

record rtc_device =
  rtc_regs :: rtc_regs
  rtc_instno :: int

subsection \<open>The driver\<close>

text \<open>\<open>dt\<close> is the time that passes between the two accesses.\<close>

definition read_real_time :: "nat \<Rightarrow> rtc_regs \<Rightarrow> nat \<times> rtc_regs" where
  "read_real_time dt r =
     (let (lo, r) = time_low r;
          r = rtc_tick dt r;
          hi = time_high r
      in (u64 (push_bit 32 hi) OR lo, r))"

definition rtc_attach :: "'f \<Rightarrow> rtc_regs \<Rightarrow> 'f devtab \<Rightarrow> (rtc_device \<times> 'f devtab) option" where
  "rtc_attach opn base tab =
     map_option (\<lambda>(k, tab). (\<lparr>rtc_regs = base, rtc_instno = k\<rparr>, tab))
       (register_device (Some (map ch ''rtc'' @ [0])) (Some opn) tab)"

definition rtc_open :: "'d io \<Rightarrow> int \<times> 'd io" where
  "rtc_open io = (0, ioaddref io)"

definition rtc_close :: "'d io \<Rightarrow> unit option" where
  "rtc_close io = (if iorefcnt io = 0 then Some () else None)"

definition rtc_cntl :: "int \<Rightarrow> int" where
  "rtc_cntl cmd = (if cmd = IOCTL_GETBLKSZ then 8 else - ENOTSUP)"

definition rtc_read :: "nat \<Rightarrow> rtc_device \<Rightarrow> int \<Rightarrow> (int \<times> byte list) \<times> rtc_device" where
  "rtc_read dt d bufsz =
     (if bufsz = 0 then ((0, []), d)
      else if nat (bufsz mod 18446744073709551616) < 8 then ((- EINVAL, []), d)
      else case read_real_time dt (rtc_regs d) of
        (t, r) \<Rightarrow> ((8, nat_le 8 t), d\<lparr>rtc_regs := r\<rparr>))"

subsection \<open>A read is one point in time\<close>

lemma read_real_time_now: "fst (read_real_time dt r) = u64 (now r)"
proof -
  have t: "u32 n = take_bit 32 n" "n div 4294967296 = drop_bit 32 n" "u64 n = take_bit 64 n" for n :: nat
    by (simp_all add: u32_def u64_def take_bit_eq_mod drop_bit_eq_div)
  have "fst (read_real_time dt r) = take_bit 64 (push_bit 32 (take_bit 32 (drop_bit 32 (now r)))) OR take_bit 32 (now r)"
    by (simp add: read_real_time_def time_low_def rtc_tick_def t Let_def)
  also have "\<dots> = take_bit 64 (now r)"
    by (rule bit_eqI) (auto simp: bit_or_iff bit_take_bit_iff bit_push_bit_iff_nat bit_drop_bit_eq)
  finally show ?thesis by (simp add: t)
qed

text \<open>
  A read of at least eight bytes returns the time at which it started, in little-endian order,
  however much time passes between the two register accesses.
\<close>

theorem rtc_read_consistent:
  assumes "8 \<le> bufsz" "bufsz < 9223372036854775808"
  shows "\<exists>bs d'. rtc_read dt d bufsz = ((8, bs), d') \<and> length bs = 8 \<and> le_nat bs = u64 (now (rtc_regs d))"
proof -
  obtain t r where t: "read_real_time dt (rtc_regs d) = (t, r)" by fastforce
  have "t = u64 (now (rtc_regs d))" using read_real_time_now [of dt "rtc_regs d"] t by simp
  moreover have "nat (bufsz mod 18446744073709551616) \<ge> 8" using assms by simp
  moreover have "u64 n < 256 ^ 8" for n using u64_less [of n] by simp
  ultimately show ?thesis using t assms(1) by (simp add: rtc_read_def not_less del: nat_le.simps)
qed

lemma rtc_read_short: "0 < n \<Longrightarrow> n < 8 \<Longrightarrow> rtc_read dt d n = ((- EINVAL, []), d)"
  by (simp add: rtc_read_def nat_less_iff)

end
