(* ===== verification/Spec2Isabelle.thy ===== *)
theory Spec2Isabelle
  imports Ktfs_Create Timer Uart Console Syscall Vioblk Viorng Rtc
begin

text \<open>
  A verification development for riscv-mini-os, a teaching kernel for RISC-V with a user library.

  \<^bold>\<open>The program.\<close> The kernel (src/kernel) runs threads on one hart. \<open>thread.c\<close> has the scheduler, the
  condition variables and the locks; \<open>timer.c\<close>, \<open>plic.c\<close> and \<open>intr.c\<close> turn interrupts into wake-ups;
  \<open>device.c\<close> is the table of devices, whose drivers (\<open>dev/uart.c\<close>) present I/O objects (\<open>io.c\<close>). The
  file system \<open>ktfs.c\<close> works on the block cache \<open>cache.c\<close>, which works on an I/O object. \<open>memory.c\<close> has
  the page allocator and the page tables. \<open>string.c\<close> and \<open>console.c\<close> format and print.

  \<^bold>\<open>How it is modelled.\<close> A C structure is a record and a function one definition that takes the state and
  returns the new one. \<open>None\<close> is a kernel stop: a failed assertion, a panic, an access outside an
  object, or a loop that does not end; the theorems about results show that it does not happen. Error
  codes are integers. A call that blocks returns \<open>Blocked\<close> or the point where it resumes, so that other
  threads can run in between. Loops are recursive functions, with a measure or as a partial function
  where the data might be cyclic; no fuel is used. Fixed-width integers are words where bits matter and
  otherwise natural numbers with the wrap-around written out.

  \<^item> \<open>Prelude\<close>: bytes, widths, error codes (\<open>error.c\<close>), segments and little-endian encodings.
  \<^item> \<open>Io\<close>: \<open>io.c\<close> (objects, dispatch, memory and seekable objects); the locale \<open>block_device\<close> is what
    the cache relies on, interpreted on the memory object.
  \<^item> \<open>Cache\<close>: \<open>cache.c\<close>; it implements an array of blocks with references.
  \<^item> \<open>Ktfs\<close>, \<open>Ktfs_Read\<close>, \<open>Ktfs_Open\<close>, \<open>Ktfs_Alloc\<close>, \<open>Ktfs_Write\<close>, \<open>Ktfs_Create\<close>: \<open>ktfs.c\<close>; reading returns
    the bytes of the file, opening finds the directory entry, allocation takes the lowest free block,
    writing in place changes only the file, creation appends a directory entry.
  \<^item> \<open>Ring\<close>: the ring buffers of \<open>dev/uart.c\<close> and of pipes, both instances of the locale
    \<open>bounded_queue\<close>. \<open>Pipes\<close>: the pipes of \<open>io.c\<close>, with the deadlock of a waiting reader.
  \<^item> \<open>Thread\<close>, \<open>Sched\<close>, \<open>Locks\<close>, \<open>Sched_Steps\<close>: \<open>thread.c\<close>; the invariant of the queues, round robin,
    mutual exclusion, exit and join, as properties of all reachable states.
  \<^item> \<open>Timer\<close>: \<open>timer.c\<close>. \<open>Intr\<close>: \<open>plic.c\<close> and \<open>intr.c\<close>. \<open>Device\<close>: \<open>device.c\<close>. \<open>Uart\<close>: \<open>dev/uart.c\<close>.
  \<^item> \<open>Strings\<close>: \<open>string.c\<close>. \<open>Console\<close>: \<open>console.c\<close>.
  \<^item> \<open>Pages\<close>: the page allocator of \<open>memory.c\<close>, an implementation of a set of free pages (locale
    \<open>page_pool\<close>). \<open>Vm\<close>, \<open>Vm_Map\<close>: its page tables, against the Sv39 translation.

  \<^bold>\<open>Not modelled.\<close> Assembly (\<open>start.s\<close>, \<open>trap.s\<close>, \<open>thrasm.s\<close>, \<open>see.s\<close>) and the start-up sequence of \<open>main.c\<close>:
  a thread switch is one step of the model. Hardware behaviour (the answers of the PLIC, the clock, the
  line of the UART) is an argument.
\<close>

end
